(* ===== verification/Kernel_Prelude.thy ===== *)
theory Kernel_Prelude
  imports Main "HOL-Library.Word"
begin

text \<open>
  Prelude of the adaOS kernel model. It names the machine integers of the C code, defines the
  outcome of a C function that may not return (\<open>outcome\<close>), the combinators that sequence such
  functions and loop over them, the messages of the logging functions, and the word arithmetic
  lemmas that all components share.
\<close>

unbundle bit_operations_syntax

named_theorems outcome_simps \<open>rewriting of sequenced outcomes\<close>
named_theorems kernel_consts \<open>the constants of the C headers\<close>
named_theorems frame_simps \<open>what an operation leaves alone\<close>

section \<open>Machine integers\<close>

type_synonym u8 = "8 word"
type_synonym u16 = "16 word"
type_synonym u32 = "32 word"
type_synonym u64 = "64 word"

section \<open>Outcomes\<close>

text \<open>
  A kernel function either returns a value and the new state, or it never returns: it panics
  (\<open>panic\<close> is \<open>noreturn\<close>), it halts the machine (\<open>hcf\<close>), it executes undefined behaviour of C
  (an array access out of bounds, a shift by too much, a null pointer), or it loops for ever.
\<close>

datatype stop_reason =
    Panic string
  | Halted
  | Fault string
  | Hang

datatype ('a, 's) outcome =
    Done 'a 's
  | Stop stop_reason 's

primrec bindO :: "('a, 's) outcome \<Rightarrow> ('a \<Rightarrow> 's \<Rightarrow> ('b, 's) outcome) \<Rightarrow> ('b, 's) outcome" where
  "bindO (Done a s) f = f a s"
| "bindO (Stop r s) f = Stop r s"

lemmas [outcome_simps] = bindO.simps

lemma bindO_Done_iff [outcome_simps]:
  "bindO m f = Done b t \<longleftrightarrow> (\<exists>a s. m = Done a s \<and> f a s = Done b t)"
  by (cases m) auto

lemma bindO_DoneE:
  assumes "bindO m f = Done b t"
  obtains a s where "m = Done a s" and "f a s = Done b t"
  using assms by (cases m) auto

lemma bindO_assoc: "bindO (bindO m f) g = bindO m (\<lambda>a s. bindO (f a s) g)"
  by (cases m) auto

lemma bindO_cong [fundef_cong]:
  "m = m' \<Longrightarrow> (\<And>a s. m' = Done a s \<Longrightarrow> f a s = f' a s) \<Longrightarrow> bindO m f = bindO m' f'"
  by (cases m') auto

text \<open>A C \<open>for\<close> loop over a sequence of index values whose body may stop the kernel.\<close>

primrec for_each :: "'i list \<Rightarrow> ('i \<Rightarrow> 's \<Rightarrow> (unit, 's) outcome) \<Rightarrow> 's \<Rightarrow> (unit, 's) outcome" where
  "for_each [] body s = Done () s"
| "for_each (i # is) body s = bindO (body i s) (\<lambda>_ s'. for_each is body s')"

lemma for_each_append:
  "for_each (xs @ ys) body s = bindO (for_each xs body s) (\<lambda>_ s'. for_each ys body s')"
  by (induction xs arbitrary: s) (auto simp: bindO_assoc)

lemma for_each_invariant:
  assumes "for_each is body s = Done () t" and "I s"
    and "\<And>i s s'. i \<in> set is \<Longrightarrow> I s \<Longrightarrow> body i s = Done () s' \<Longrightarrow> I s'"
  shows "I t"
  using assms
proof (induction "is" arbitrary: s)
  case Nil
  then show ?case by simp
next
  case (Cons i "is")
  from Cons.prems(1) obtain s' where s': "body i s = Done () s'"
    and rest: "for_each is body s' = Done () t"
    by (auto simp: bindO_Done_iff)
  have "I s'" using Cons.prems s' by auto
  then show ?case using Cons.IH [OF rest] Cons.prems(3) by auto
qed

text \<open>
  The contract that many operations share: an operation keeps an invariant whenever it returns.
  The locale collects how the contract composes; components interpret it for their operations.
\<close>

locale keeps_invariant =
  fixes inv :: "'s \<Rightarrow> bool"
    and op :: "'s \<Rightarrow> ('a, 's) outcome"
  assumes op_keeps: "inv s \<Longrightarrow> op s = Done a t \<Longrightarrow> inv t"
begin

lemma then_keeps:
  assumes "inv s" and "bindO (op s) f = Done b t"
    and "\<And>a s'. inv s' \<Longrightarrow> f a s' = Done b t \<Longrightarrow> inv t"
  shows "inv t"
  using assms(2) by (rule bindO_DoneE) (blast intro: assms(1,3) op_keeps)

primrec iterate :: "nat \<Rightarrow> 's \<Rightarrow> (unit, 's) outcome" where
  "iterate 0 s = Done () s"
| "iterate (Suc n) s = bindO (op s) (\<lambda>_ s'. iterate n s')"

lemma iterate_keeps: "inv s \<Longrightarrow> iterate n s = Done u t \<Longrightarrow> inv t"
  by (induction n arbitrary: s) (auto simp: bindO_Done_iff dest: op_keeps)

end

section \<open>Output events\<close>

text \<open>
  The logging functions of \<open>util/log.c\<close> and the \<open>printf\<close> family are called everywhere. A
  component that calls one records the call as an event: the function, its format string and its
  arguments. What a call to one of them does is the subject of the components that define them.
\<close>

datatype log_level = Lvl_log | Lvl_ok | Lvl_wrn | Lvl_err | Lvl_todo | Lvl_test_pass | Lvl_test_fail

datatype fmt_arg = Num u64 | Str string

datatype out_event =
    LogMsg log_level string "fmt_arg list"
  | SerialPrintf string "fmt_arg list"
  | ConsolePrintf string "fmt_arg list"

section \<open>Word arithmetic\<close>

lemma word_inc_nonzero: "(i :: 'a::len word) < n \<Longrightarrow> 1 + i \<noteq> 0"
  by uint_arith

lemma unat_inc: "(i :: 'a::len word) < n \<Longrightarrow> unat (i + 1) = Suc (unat i)"
  using word_inc_nonzero [of i n] by (simp add: unatSuc add.commute)

lemma of_nat_offset_diff:
  "y \<le> x \<Longrightarrow> (a + of_nat x) - (a + of_nat y) = (of_nat (x - y) :: 'a::len word)"
  by (simp only: add_diff_cancel_left of_nat_diff)

lemma of_nat_offset_diff_neg:
  "x \<le> y \<Longrightarrow> y - x \<le> 2 ^ LENGTH('a) \<Longrightarrow>
    (a + of_nat x) - (a + of_nat y) = (of_nat (2 ^ LENGTH('a) - (y - x)) :: 'a::len word)"
  by (simp add: of_nat_diff)

lemma unat_of_nat_less: "n < 2 ^ LENGTH('a) \<Longrightarrow> unat (of_nat n :: 'a::len word) = n"
  by (simp add: unat_of_nat take_bit_nat_eq_self)

lemma of_nat_word_inject:
  "i < 2 ^ LENGTH('a) \<Longrightarrow> j < 2 ^ LENGTH('a) \<Longrightarrow> (of_nat i :: 'a::len word) = of_nat j \<longleftrightarrow> i = j"
  by (metis unat_of_nat_less)

lemma unat_offset_diff:
  "y \<le> x \<Longrightarrow> x - y < 2 ^ LENGTH('a) \<Longrightarrow> unat ((a + of_nat x) - (a + of_nat y) :: 'a::len word) = x - y"
  by (simp only: of_nat_offset_diff unat_of_nat_less)

lemma unat_offset_diff_neg:
  assumes "x < y" and "y - x \<le> 2 ^ LENGTH('a)"
  shows "unat ((a + of_nat x) - (a + of_nat y) :: 'a::len word) = 2 ^ LENGTH('a) - (y - x)"
proof -
  have "2 ^ LENGTH('a) - (y - x) < 2 ^ LENGTH('a)"
    by (rule diff_less) (use assms(1) in simp_all)
  with assms show ?thesis by (simp only: of_nat_offset_diff_neg less_imp_le unat_of_nat_less)
qed

lemma inc_le_iff_less: "(i :: 'a::len word) < n \<Longrightarrow> i + 1 \<le> d \<longleftrightarrow> i < d"
  by (auto simp: inc_less_eq_iff)

lemma word_pred_less: "0 < (i :: 'a::len word) \<Longrightarrow> i - 1 < i"
  by uint_arith

lemma word_diff_cases:
  "unat ((a :: 'a::len word) - b) = (if unat b \<le> unat a then unat a - unat b else 2 ^ LENGTH('a) + unat a - unat b)"
  using unat_sub_if' [of a b] by auto

lemma unat_ucast_up [simp]:
  assumes "LENGTH('a) \<le> LENGTH('b)"
  shows "unat (ucast (x :: 'a::len word) :: 'b::len word) = unat x"
proof -
  have "(2 :: nat) ^ LENGTH('a) \<le> 2 ^ LENGTH('b)" using assms by (intro power_increasing) auto
  then have "unat x < 2 ^ LENGTH('b)" using unsigned_less [of x, where ?'a = nat] by linarith
  then show ?thesis by (simp add: unsigned_ucast_eq take_bit_nat_eq_self)
qed

lemma unat_add_less:
  "unat (a :: 'a::len word) + unat b < 2 ^ LENGTH('a) \<Longrightarrow> unat (a + b) = unat a + unat b"
  by (simp add: unat_add_lem [THEN iffD1])

end
