(* ===== verification/Mem_Ops.thy ===== *)
theory Mem_Ops
  imports Kernel_Prelude
begin

text \<open>
  Memory as the kernel's loads and stores see it: bytes at 64-bit virtual addresses. The first
  part gives little-endian loads and stores of any width and the laws its clients use, stated as
  the interface \<open>cell_store\<close>. The rest is the freestanding C library of the kernel: the
  memory functions of \<open>core.c\<close>, the string functions of \<open>util/string.c\<close>, and the bit field
  functions of \<open>util/bits.c\<close>.
\<close>

type_synonym memory = "u64 \<Rightarrow> u8"

section \<open>Loads and stores\<close>

text \<open>
  \<open>load_le m a n\<close> is what a load of \<open>n\<close> bytes at \<open>a\<close> yields, \<open>store_le m a v n\<close> the memory
  after a store. Addresses wrap around at \<open>2 ^ 64\<close> as the hardware's do, so a range is
  described by the distance from its first byte.
\<close>

primrec load_le :: "memory \<Rightarrow> u64 \<Rightarrow> nat \<Rightarrow> 'a::len word" where
  "load_le m a 0 = 0"
| "load_le m a (Suc n) = ucast (m a) OR push_bit 8 (load_le m (a + 1) n)"

definition store_le :: "memory \<Rightarrow> u64 \<Rightarrow> 'a::len word \<Rightarrow> nat \<Rightarrow> memory" where
  "store_le m a v n =
     (\<lambda>x. if unat (x - a) < n then ucast (drop_bit (8 * unat (x - a)) v) else m x)"

definition disjoint_ranges :: "u64 \<Rightarrow> nat \<Rightarrow> u64 \<Rightarrow> nat \<Rightarrow> bool" where
  "disjoint_ranges a n b k \<longleftrightarrow> n \<le> unat (b - a) \<and> k \<le> unat (a - b)"

lemma disjoint_ranges_commute: "disjoint_ranges a n b k \<longleftrightarrow> disjoint_ranges b k a n"
  by (auto simp: disjoint_ranges_def)

lemma disjoint_ranges_mono:
  "disjoint_ranges a n b k \<Longrightarrow> n' \<le> n \<Longrightarrow> k' \<le> k \<Longrightarrow> disjoint_ranges a n' b k'"
  by (auto simp: disjoint_ranges_def)

lemma bit_load_le:
  "bit (load_le m a n :: 'a::len word) k \<longleftrightarrow>
     k < 8 * n \<and> k < LENGTH('a) \<and> bit (m (a + of_nat (k div 8))) (k mod 8)"
proof (induction n arbitrary: a k)
  case 0
  then show ?case by simp
next
  case (Suc n)
  show ?case
  proof (cases "k < 8")
    case True
    then show ?thesis by (auto simp: bit_or_iff bit_push_bit_iff bit_unsigned_iff)
  next
    case False
    then have k: "k div 8 = Suc ((k - 8) div 8)" "k mod 8 = (k - 8) mod 8"
      by (simp_all add: le_div_geq le_mod_geq)
    have hi: "\<not> bit (ucast (m a) :: 'a word) k"
      using False by (auto simp: bit_unsigned_iff dest: bit_imp_le_length)
    have "bit (load_le m a (Suc n) :: 'a word) k \<longleftrightarrow>
        k < LENGTH('a) \<and> bit (load_le m (a + 1) n :: 'a word) (k - 8)"
      using False hi by (auto simp: bit_or_iff bit_push_bit_iff)
    also have "\<dots> \<longleftrightarrow> k < 8 * Suc n \<and> k < LENGTH('a) \<and>
        bit (m (a + of_nat (k div 8))) (k mod 8)"
      using False by (auto simp: Suc.IH k add.assoc)
    finally show ?thesis .
  qed
qed

lemma unat_add_offset:
  assumes "n \<le> 2 ^ 64" and "i < n"
  shows "unat (a + of_nat i - a :: u64) = i"
proof -
  have "i < 2 ^ LENGTH(64)" using assms by simp
  then show ?thesis by (simp add: unat_of_nat take_bit_nat_eq_self)
qed

lemma unat_offset_other:
  assumes "disjoint_ranges a n b k" and "i < k"
  shows "n \<le> unat (b + of_nat i - a :: u64)"
proof -
  have kb: "k \<le> unat (a - b)" and nb: "n \<le> unat (b - a)"
    using assms(1) by (auto simp: disjoint_ranges_def)
  have k64: "i < 2 ^ 64"
    using assms(2) kb unsigned_less [of "a - b", where ?'a = nat] by simp
  have sum: "unat (b - a) + unat (a - b) = (if a = b then 0 else 2 ^ 64)"
    by (auto simp: word_diff_cases word_unat_eq_iff) (use unsigned_less [of a, where ?'a = nat] unsigned_less [of b, where ?'a = nat] in auto)
  then have lt: "unat (b - a) + i < 2 ^ 64"
    using kb assms(2) by (auto split: if_splits)
  have "unat (b + of_nat i - a) = unat ((b - a) + of_nat i)"
    by (simp add: algebra_simps)
  also have "\<dots> = unat (b - a) + i"
    using lt k64 by (simp add: unat_word_ariths unat_of_nat take_bit_nat_eq_self)
  finally show ?thesis using nb by simp
qed

lemma disjoint_ranges_suffix:
  assumes "disjoint_ranges a (i + n) b k" and "0 < n"
  shows "disjoint_ranges (a + of_nat i) n b k"
proof -
  have ub: "i + n \<le> unat (b - a)" using assms(1) by (simp add: disjoint_ranges_def)
  then have i64: "i < 2 ^ 64" using unsigned_less [of "b - a", where ?'a = nat] assms(2) by simp
  have "unat (b - (a + of_nat i)) = unat ((b - a) - of_nat i)" by (simp add: algebra_simps)
  also have "\<dots> = unat (b - a) - i"
    using ub i64 by (simp add: unat_sub word_le_nat_alt unat_of_nat_less)
  finally have "n \<le> unat (b - (a + of_nat i))" using ub by simp
  moreover have "k \<le> unat (a + of_nat i - b)"
    using unat_offset_other [of b k a "i + n" i] assms by (simp add: disjoint_ranges_commute)
  ultimately show ?thesis by (simp add: disjoint_ranges_def)
qed

lemma load_store_same:
  assumes "LENGTH('a) \<le> 8 * n" and "n \<le> 2 ^ 64"
  shows "load_le (store_le m a v n) a n = (v :: 'a::len word)"
proof (rule bit_word_eqI)
  fix k assume k: "k < LENGTH('a)"
  then have lt: "k div 8 < n" using assms(1) by (simp add: less_mult_imp_div_less)
  have off: "unat (a + of_nat (k div 8) - a) = k div 8"
    using unat_add_offset [OF assms(2) lt] .
  show "bit (load_le (store_le m a v n) a n :: 'a word) k = bit v k"
    using k lt assms(1) off
    by (auto simp: bit_load_le store_le_def bit_unsigned_iff bit_drop_bit_eq)
qed

lemma load_store_other:
  assumes "disjoint_ranges a n b k"
  shows "load_le (store_le m a v n) b k = (load_le m b k :: 'b::len word)"
proof (rule bit_word_eqI)
  fix j assume "j < LENGTH('b)"
  show "bit (load_le (store_le m a v n) b k :: 'b word) j = bit (load_le m b k :: 'b word) j"
  proof (cases "j < 8 * k")
    case True
    then have "j div 8 < k" by (simp add: less_mult_imp_div_less)
    from unat_offset_other [OF assms this]
    show ?thesis by (simp add: bit_load_le store_le_def)
  next
    case False
    then show ?thesis by (simp add: bit_load_le)
  qed
qed

lemma store_le_outside: "n \<le> unat (x - a) \<Longrightarrow> store_le m a v n x = m x"
  by (simp add: store_le_def)

abbreviation read64 :: "memory \<Rightarrow> u64 \<Rightarrow> u64" where "read64 m a \<equiv> load_le m a 8"
abbreviation read32 :: "memory \<Rightarrow> u64 \<Rightarrow> u32" where "read32 m a \<equiv> load_le m a 4"
abbreviation read16 :: "memory \<Rightarrow> u64 \<Rightarrow> u16" where "read16 m a \<equiv> load_le m a 2"
abbreviation write64 :: "memory \<Rightarrow> u64 \<Rightarrow> u64 \<Rightarrow> memory" where "write64 m a v \<equiv> store_le m a v 8"
abbreviation write32 :: "memory \<Rightarrow> u64 \<Rightarrow> u32 \<Rightarrow> memory" where "write32 m a v \<equiv> store_le m a v 4"

text \<open>
  What every client of memory relies on, for cells of one width: a load after a store to the same
  cell gives the stored value, a load from a disjoint cell is unaffected, and a store changes no
  byte outside its cell.
\<close>

locale cell_store =
  fixes ld :: "memory \<Rightarrow> u64 \<Rightarrow> 'v"
    and st :: "memory \<Rightarrow> u64 \<Rightarrow> 'v \<Rightarrow> memory"
    and width :: nat
  assumes width_pos: "0 < width"
    and ld_st_same: "ld (st m a v) a = v"
    and ld_st_other: "disjoint_ranges a width b width \<Longrightarrow> ld (st m a v) b = ld m b"
    and st_outside: "width \<le> unat (x - a) \<Longrightarrow> st m a v x = m x"
    and ld_cong: "(\<And>i. i < width \<Longrightarrow> m (a + of_nat i) = m' (a + of_nat i)) \<Longrightarrow> ld m a = ld m' a"
begin

text \<open>An array of cells: cell \<open>i\<close> starts at \<open>a + width * i\<close>.\<close>

lemma cells_disjoint:
  assumes "i < n" and "j < n" and "width * n \<le> 2 ^ 64" and "i \<noteq> j"
  shows "disjoint_ranges (a + of_nat (width * i)) width (a + of_nat (width * j)) width"
proof -
  have far: "width \<le> unat ((a + of_nat (width * q)) - (a + of_nat (width * p)) :: u64)"
    if "p < n" "q < n" "p \<noteq> q" for p q
  proof (cases "p < q")
    case True
    have le: "width * p + width \<le> width * q"
      using mult_le_mono2 [OF Suc_leI [OF True], of width] by simp
    have lt: "width * q < 2 ^ 64"
      using that assms(3) width_pos by (meson less_le_trans mult_less_mono2)
    have "unat ((a + of_nat (width * q)) - (a + of_nat (width * p)) :: u64) = width * q - width * p"
      using True lt by (intro unat_offset_diff) simp_all
    then show ?thesis using le by linarith
  next
    case False
    then have "q < p" using that by simp
    have le: "width * q + width \<le> width * p"
      using mult_le_mono2 [OF Suc_leI [OF \<open>q < p\<close>], of width] by simp
    have lt: "width * p + width \<le> 2 ^ 64"
      using mult_le_mono2 [OF Suc_leI [OF that(1)], of width] assms(3) by simp
    have "unat ((a + of_nat (width * q)) - (a + of_nat (width * p)) :: u64) =
        2 ^ LENGTH(64) - (width * p - width * q)"
      using \<open>q < p\<close> lt width_pos by (intro unat_offset_diff_neg) simp_all
    moreover have "(2 :: nat) ^ LENGTH(64) = 2 ^ 64" by simp
    ultimately show ?thesis using lt le by linarith
  qed
  show ?thesis using far assms by (auto simp: disjoint_ranges_def)
qed

lemma ld_st_index:
  assumes "i < n" and "j < n" and "width * n \<le> 2 ^ 64"
  shows "ld (st m (a + of_nat (width * i)) v) (a + of_nat (width * j)) =
    (if i = j then v else ld m (a + of_nat (width * j)))"
  using assms cells_disjoint [of i n j a] by (auto simp: ld_st_same ld_st_other)

lemma st_st_other_commute_ld:
  assumes "disjoint_ranges a width b width"
  shows "ld (st (st m a v) b w) a = v"
  using assms by (simp add: ld_st_other disjoint_ranges_commute [of b] ld_st_same)

end

lemma load_le_cong:
  "(\<And>i. i < n \<Longrightarrow> m (a + of_nat i) = m' (a + of_nat i)) \<Longrightarrow>
    (load_le m a n :: 'a::len word) = load_le m' a n"
proof (induction n arbitrary: a)
  case 0
  then show ?case by simp
next
  case (Suc n)
  have "(load_le m (a + 1) n :: 'a word) = load_le m' (a + 1) n"
  proof (rule Suc.IH)
    fix i assume "i < n"
    then show "m (a + 1 + of_nat i) = m' (a + 1 + of_nat i)"
      using Suc.prems [of "Suc i"] by (simp add: add.assoc)
  qed
  with Suc.prems [of 0] show ?case by simp
qed

interpretation cells64: cell_store "\<lambda>m a. load_le m a 8 :: u64" "\<lambda>m a v. store_le m a (v :: u64) 8" 8
  by unfold_locales (auto intro: load_store_same load_store_other store_le_outside load_le_cong)

interpretation cells32: cell_store "\<lambda>m a. load_le m a 4 :: u32" "\<lambda>m a v. store_le m a (v :: u32) 4" 4
  by unfold_locales (auto intro: load_store_same load_store_other store_le_outside load_le_cong)

section \<open>The memory functions of core.c\<close>

text \<open>
  Each loop is a recursive function over its index variable. The \<open>size_t\<close> index never passes
  \<open>n\<close>, so every loop ends, and the functions are total. \<open>memcpy\<close> and its kin return the memory
  and the pointer the C function returns.
\<close>

function memcpy_loop :: "u64 \<Rightarrow> u64 \<Rightarrow> u64 \<Rightarrow> u64 \<Rightarrow> memory \<Rightarrow> memory" where
  "memcpy_loop pdest psrc n i m =
     (if i < n then memcpy_loop pdest psrc n (i + 1) (m(pdest + i := m (psrc + i))) else m)"
  by pat_completeness auto
termination
  by (relation "measure (\<lambda>(pdest, psrc, n, i, m). unat n - unat i)")
    (auto simp: unat_inc word_less_nat_alt intro!: diff_less_mono2)

definition memcpy :: "u64 \<Rightarrow> u64 \<Rightarrow> u64 \<Rightarrow> memory \<Rightarrow> u64 \<times> memory" where
  "memcpy dest src n m = (dest, memcpy_loop dest src n 0 m)"

definition mempcpy :: "u64 \<Rightarrow> u64 \<Rightarrow> u64 \<Rightarrow> memory \<Rightarrow> u64 \<times> memory" where
  "mempcpy dest src n m = (case memcpy dest src n m of (_, m') \<Rightarrow> (dest + n, m'))"

function memset_loop :: "u64 \<Rightarrow> u8 \<Rightarrow> u64 \<Rightarrow> u64 \<Rightarrow> memory \<Rightarrow> memory" where
  "memset_loop p c n i m =
     (if i < n then memset_loop p c n (i + 1) (m(p + i := c)) else m)"
  by pat_completeness auto
termination
  by (relation "measure (\<lambda>(p, c, n, i, m). unat n - unat i)")
    (auto simp: unat_inc word_less_nat_alt intro!: diff_less_mono2)

definition memset :: "u64 \<Rightarrow> u32 \<Rightarrow> u64 \<Rightarrow> memory \<Rightarrow> u64 \<times> memory" where
  "memset s c n m = (s, memset_loop s (ucast c) n 0 m)"

function memmove_down :: "u64 \<Rightarrow> u64 \<Rightarrow> u64 \<Rightarrow> memory \<Rightarrow> memory" where
  "memmove_down pdest psrc i m =
     (if i > 0 then memmove_down pdest psrc (i - 1) (m(pdest + (i - 1) := m (psrc + (i - 1)))) else m)"
  by pat_completeness auto
termination
  by (relation "measure (\<lambda>(pdest, psrc, i, m). unat i)")
    (auto simp: unat_minus_one unat_gt_0)

definition memmove :: "u64 \<Rightarrow> u64 \<Rightarrow> u64 \<Rightarrow> memory \<Rightarrow> u64 \<times> memory" where
  "memmove dest src n m =
     (if src > dest then (dest, memcpy_loop dest src n 0 m)
      else if src < dest then (dest, memmove_down dest src n m)
      else (dest, m))"

function memcmp_loop :: "memory \<Rightarrow> u64 \<Rightarrow> u64 \<Rightarrow> u64 \<Rightarrow> u64 \<Rightarrow> int" where
  "memcmp_loop m p1 p2 n i =
     (if i < n then
        if m (p1 + i) \<noteq> m (p2 + i) then (if m (p1 + i) < m (p2 + i) then -1 else 1)
        else memcmp_loop m p1 p2 n (i + 1)
      else 0)"
  by pat_completeness auto
termination
  by (relation "measure (\<lambda>(m, p1, p2, n, i). unat n - unat i)")
    (auto simp: unat_inc word_less_nat_alt intro!: diff_less_mono2)

definition memcmp :: "memory \<Rightarrow> u64 \<Rightarrow> u64 \<Rightarrow> u64 \<Rightarrow> int" where
  "memcmp m s1 s2 n = memcmp_loop m s1 s2 n 0"

declare memcpy_loop.simps [simp del] memset_loop.simps [simp del]
  memmove_down.simps [simp del] memcmp_loop.simps [simp del]

text \<open>What the loops compute, as functions of the memory before the call.\<close>

definition copied :: "u64 \<Rightarrow> u64 \<Rightarrow> u64 \<Rightarrow> memory \<Rightarrow> memory" where
  "copied dest src n m = (\<lambda>x. if x - dest < n then m (src + (x - dest)) else m x)"

definition filled :: "u64 \<Rightarrow> u8 \<Rightarrow> u64 \<Rightarrow> memory \<Rightarrow> memory" where
  "filled s c n m = (\<lambda>x. if x - s < n then c else m x)"

lemma memset_loop_filled:
  "memset_loop p c n i m = (\<lambda>x. if i \<le> x - p \<and> x - p < n then c else m x)"
proof (induction p c n i m rule: memset_loop.induct)
  case (1 p c n i m)
  show ?case
  proof (cases "i < n")
    case True
    have "memset_loop p c n i m =
        (\<lambda>x. if i + 1 \<le> x - p \<and> x - p < n then c else (m(p + i := c)) x)"
      by (subst memset_loop.simps) (simp only: True if_True 1 [OF True])
    also have "\<dots> = (\<lambda>x. if i \<le> x - p \<and> x - p < n then c else m x)"
    proof
      fix x
      show "(if i + 1 \<le> x - p \<and> x - p < n then c else (m(p + i := c)) x) =
        (if i \<le> x - p \<and> x - p < n then c else m x)"
        using True by (cases "x = p + i") (auto simp: inc_le_iff_less [OF True] order_le_less [of i])
    qed
    finally show ?thesis .
  next
    case False
    then show ?thesis by (auto simp: memset_loop.simps [of p c n i m] fun_eq_iff)
  qed
qed

lemma memset_filled [simp]: "memset s c n m = (s, filled s (ucast c) n m)"
  by (simp add: memset_def memset_loop_filled filled_def)

text \<open>
  A forward copy is right when the destination does not start inside the source: no byte is
  overwritten before it is read.
\<close>

lemma forward_safe:
  fixes i k n :: u64
  assumes "pdest = psrc \<or> n \<le> pdest - psrc" and "i < k" and "k < n"
  shows "m (psrc + k) = (m(pdest + i := m (psrc + i))) (psrc + k)"
proof (cases "psrc + k = pdest + i")
  case True
  then have "pdest - psrc = k - i" by (simp add: algebra_simps)
  moreover have "k - i < n" "k - i \<noteq> 0" using assms(2,3) by (uint_arith, auto)
  ultimately show ?thesis using assms(1) by auto
next
  case False
  then show ?thesis by simp
qed

lemma memcpy_loop_copied:
  assumes "pdest = psrc \<or> n \<le> pdest - psrc"
  shows "memcpy_loop pdest psrc n i m =
    (\<lambda>x. if i \<le> x - pdest \<and> x - pdest < n then m (psrc + (x - pdest)) else m x)"
  using assms
proof (induction pdest psrc n i m rule: memcpy_loop.induct)
  case (1 pdest psrc n i m)
  let ?m = "m(pdest + i := m (psrc + i))"
  show ?case
  proof (cases "i < n")
    case True
    have "memcpy_loop pdest psrc n i m =
        (\<lambda>x. if i + 1 \<le> x - pdest \<and> x - pdest < n then ?m (psrc + (x - pdest)) else ?m x)"
      by (subst memcpy_loop.simps) (simp only: True if_True "1.IH" [OF True "1.prems"])
    also have "\<dots> = (\<lambda>x. if i \<le> x - pdest \<and> x - pdest < n then m (psrc + (x - pdest)) else m x)"
    proof
      fix x
      show "(if i + 1 \<le> x - pdest \<and> x - pdest < n then ?m (psrc + (x - pdest)) else ?m x) =
        (if i \<le> x - pdest \<and> x - pdest < n then m (psrc + (x - pdest)) else m x)"
        using True forward_safe [OF "1.prems", of i "x - pdest" m]
        by (cases "x = pdest + i") (auto simp: inc_le_iff_less [OF True] order_le_less [of i])
    qed
    finally show ?thesis .
  next
    case False
    then show ?thesis by (auto simp: memcpy_loop.simps [of pdest psrc n i m] fun_eq_iff)
  qed
qed

lemma memcpy_copied:
  "dest = src \<or> n \<le> dest - src \<Longrightarrow> memcpy dest src n m = (dest, copied dest src n m)"
  by (simp add: memcpy_def memcpy_loop_copied copied_def)

text \<open>A backward copy is right when the source does not start inside the destination.\<close>

lemma backward_safe:
  fixes i k :: u64
  assumes "i \<le> psrc - pdest" and "k < i - 1" and "0 < i"
  shows "m (psrc + k) = (m(pdest + (i - 1) := m (psrc + (i - 1)))) (psrc + k)"
proof (cases "psrc + k = pdest + (i - 1)")
  case True
  then have "psrc - pdest = (i - 1) - k" by (simp add: algebra_simps)
  moreover have "(i - 1) - k < i" using assms(2,3) by uint_arith
  ultimately show ?thesis using assms(1) by auto
next
  case False
  then show ?thesis by simp
qed

lemma memmove_down_copied:
  assumes "i \<le> psrc - pdest"
  shows "memmove_down pdest psrc i m = copied pdest psrc i m"
  using assms
proof (induction pdest psrc i m rule: memmove_down.induct)
  case (1 pdest psrc i m)
  let ?m = "m(pdest + (i - 1) := m (psrc + (i - 1)))"
  show ?case
  proof (cases "i > 0")
    case True
    then have "i - 1 \<le> psrc - pdest" using "1.prems" by uint_arith
    then have "memmove_down pdest psrc i m = copied pdest psrc (i - 1) ?m"
      by (subst memmove_down.simps) (simp only: True if_True "1.IH" [OF True])
    also have "\<dots> = copied pdest psrc i m"
    proof
      fix x
      have lt: "x - pdest < i \<longleftrightarrow> x - pdest < i - 1 \<or> x = pdest + (i - 1)"
        using True word_less_1 [of "x - pdest - (i - 1)"] by (auto simp: algebra_simps) (uint_arith+)
      show "copied pdest psrc (i - 1) ?m x = copied pdest psrc i m x"
        using True backward_safe [OF "1.prems", of "x - pdest" m] word_pred_less [OF True]
        by (cases "x = pdest + (i - 1)") (auto simp: copied_def lt)
    qed
    finally show ?thesis .
  next
    case False
    then have "memmove_down pdest psrc i m = m" by (subst memmove_down.simps) simp
    with False show ?thesis by (simp add: copied_def fun_eq_iff word_gt_0)
  qed
qed

text \<open>
  C23. \<open>memmove\<close> copies correctly between any two regions that do not wrap around the end of the
  address space, however they overlap: afterwards the destination holds what the source held
  before the call, no other byte has changed, and the destination pointer is returned.
\<close>

theorem memmove_copies:
  assumes "unat src + unat n \<le> 2 ^ 64" and "unat dest + unat n \<le> 2 ^ 64"
  shows "memmove dest src n m = (dest, copied dest src n m)"
proof -
  consider "src > dest" | "src < dest" | "src = dest" by force
  then show ?thesis
  proof cases
    case 1
    have "unat (dest - src) = 2 ^ 64 + unat dest - unat src"
      using 1 by (simp add: word_diff_cases word_less_nat_alt)
    then have "n \<le> dest - src" using assms(1) by (simp add: word_le_nat_alt)
    with 1 show ?thesis by (simp add: memmove_def memcpy_loop_copied copied_def)
  next
    case 2
    have "unat (src - dest) = 2 ^ 64 + unat src - unat dest"
      using 2 by (simp add: word_diff_cases word_less_nat_alt)
    then have "n \<le> src - dest" using assms(2) by (simp add: word_le_nat_alt)
    moreover have "\<not> src > dest" using 2 by simp
    ultimately show ?thesis using 2 by (simp add: memmove_def memmove_down_copied)
  next
    case 3
    then show ?thesis by (simp add: memmove_def copied_def fun_eq_iff)
  qed
qed

theorem memmove_copies_witness:
  "memmove 101 100 3 (\<lambda>a. ucast a) = (101, copied 101 100 3 (\<lambda>a. ucast a))"
  by (rule memmove_copies) simp_all

lemma memcmp_loop_zero_iff:
  "memcmp_loop m p1 p2 n i = 0 \<longleftrightarrow> (\<forall>k. i \<le> k \<and> k < n \<longrightarrow> m (p1 + k) = m (p2 + k))"
proof (induction m p1 p2 n i rule: memcmp_loop.induct)
  case (1 m p1 p2 n i)
  show ?case
  proof (cases "i < n \<and> m (p1 + i) = m (p2 + i)")
    case True
    then have "memcmp_loop m p1 p2 n i = memcmp_loop m p1 p2 n (i + 1)"
      by (simp add: memcmp_loop.simps [of m p1 p2 n i])
    with 1 True show ?thesis
      by (auto simp: inc_le_iff_less order_le_less [of i])
  next
    case False
    then show ?thesis by (auto simp: memcmp_loop.simps [of m p1 p2 n i])
  qed
qed

lemma memcmp_eq_0_iff: "memcmp m s1 s2 n = 0 \<longleftrightarrow> (\<forall>k < n. m (s1 + k) = m (s2 + k))"
  by (simp add: memcmp_def memcmp_loop_zero_iff)

section \<open>The string functions of string.c\<close>

text \<open>
  \<open>strlen\<close> runs until it meets a zero byte; if memory held none it would never return, which is
  the value \<open>None\<close>. \<open>cstring m a xs\<close> says that the zero-terminated string \<open>xs\<close> stands at \<open>a\<close>.
\<close>

partial_function (option) strlen_from :: "memory \<Rightarrow> u64 \<Rightarrow> u64 \<Rightarrow> u64 option" where
  "strlen_from m s i = (if m (s + i) = 0 then Some i else strlen_from m s (i + 1))"

definition strlen :: "memory \<Rightarrow> u64 \<Rightarrow> u64 option" where
  "strlen m s = strlen_from m s 0"

definition stpcpy :: "u64 \<Rightarrow> u64 \<Rightarrow> memory \<Rightarrow> (u64, memory) outcome" where
  "stpcpy dst src m =
     (case strlen m src of
        None \<Rightarrow> Stop Hang m
      | Some n \<Rightarrow> (case mempcpy dst src n m of (p, m') \<Rightarrow> Done p (m'(p := 0))))"

definition strcpy :: "u64 \<Rightarrow> u64 \<Rightarrow> memory \<Rightarrow> (u64, memory) outcome" where
  "strcpy dst src m = bindO (stpcpy dst src m) (\<lambda>_ m'. Done dst m')"

definition strcat :: "u64 \<Rightarrow> u64 \<Rightarrow> memory \<Rightarrow> (u64, memory) outcome" where
  "strcat dst src m =
     (case strlen m dst of
        None \<Rightarrow> Stop Hang m
      | Some n \<Rightarrow> bindO (stpcpy (dst + n) src m) (\<lambda>_ m'. Done dst m'))"

definition cstring :: "memory \<Rightarrow> u64 \<Rightarrow> u8 list \<Rightarrow> bool" where
  "cstring m a xs \<longleftrightarrow> 0 \<notin> set xs \<and> length xs < 2 ^ 64 \<and>
     (\<forall>i < length xs. m (a + of_nat i) = xs ! i) \<and> m (a + of_nat (length xs)) = 0"

lemma strlen_from_cstring:
  "cstring m a xs \<Longrightarrow> i \<le> length xs \<Longrightarrow> strlen_from m a (of_nat i) = Some (of_nat (length xs))"
proof (induction "length xs - i" arbitrary: i)
  case 0
  then show ?case by (simp add: strlen_from.simps cstring_def)
next
  case (Suc k)
  then have "i < length xs" by simp
  then have "m (a + of_nat i) = xs ! i" "xs ! i \<noteq> 0"
    using Suc.prems(1) by (auto simp: cstring_def in_set_conv_nth)
  moreover have "strlen_from m a (of_nat (Suc i)) = Some (of_nat (length xs))"
    using Suc by (intro Suc.hyps(1)) simp_all
  ultimately show ?case
    by (subst strlen_from.simps) (simp add: add.commute)
qed

lemma strlen_cstring: "cstring m a xs \<Longrightarrow> strlen m a = Some (of_nat (length xs))"
  using strlen_from_cstring [of m a xs 0] by (simp add: strlen_def)

lemma cstring_cong:
  assumes "cstring m a xs" and "\<And>i. i \<le> length xs \<Longrightarrow> m' (a + of_nat i) = m (a + of_nat i)"
  shows "cstring m' a xs"
  using assms by (auto simp: cstring_def)

lemma copied_inside:
  "i < n \<Longrightarrow> n < 2 ^ 64 \<Longrightarrow> copied d s (of_nat n) m (d + of_nat i) = m (s + of_nat i)"
  by (simp add: copied_def word_less_nat_alt unat_of_nat_less)

lemma copied_outside: "n < 2 ^ 64 \<Longrightarrow> n \<le> unat (x - d) \<Longrightarrow> copied d s (of_nat n) m x = m x"
  by (simp add: copied_def word_less_nat_alt unat_of_nat_less)

lemma filled_inside: "i < n \<Longrightarrow> n < 2 ^ 64 \<Longrightarrow> filled d c (of_nat n) m (d + of_nat i) = c"
  by (simp add: filled_def word_less_nat_alt unat_of_nat_less)

lemma filled_outside: "n < 2 ^ 64 \<Longrightarrow> n \<le> unat (x - d) \<Longrightarrow> filled d c (of_nat n) m x = m x"
  by (simp add: filled_def word_less_nat_alt unat_of_nat_less)

lemma stpcpy_copies:
  assumes src: "cstring m s ys" and dis: "disjoint_ranges d (Suc (length ys)) s (Suc (length ys))"
  shows "\<exists>m'. stpcpy d s m = Done (d + of_nat (length ys)) m' \<and> cstring m' d ys \<and>
    (\<forall>x. Suc (length ys) \<le> unat (x - d) \<longrightarrow> m' x = m x)"
proof -
  let ?n = "length ys"
  let ?m1 = "copied d s (of_nat ?n) m"
  let ?m2 = "?m1(d + of_nat ?n := 0)"
  have n: "?n < 2 ^ 64" using src by (simp add: cstring_def)
  have "of_nat ?n \<le> d - s"
    using dis n by (simp add: word_le_nat_alt unat_of_nat_less disjoint_ranges_def)
  then have run: "stpcpy d s m = Done (d + of_nat ?n) ?m2"
    by (simp add: stpcpy_def strlen_cstring [OF src] mempcpy_def memcpy_copied)
  have ne: "d + of_nat i \<noteq> d + of_nat ?n" if "i < ?n" for i
    using that n by (simp add: of_nat_word_inject)
  have str: "cstring ?m2 d ys"
    using src ne by (auto simp: cstring_def copied_inside)
  have "?m2 x = m x" if "Suc ?n \<le> unat (x - d)" for x
    using that n by (auto simp: copied_outside unat_of_nat_less)
  with run str show ?thesis by blast
qed

text \<open>
  \<open>strcat\<close> appends: if \<open>xs\<close> stands at the destination, \<open>ys\<close> at the source, and the source
  string lies outside the region the result occupies, the call returns the destination, where
  the concatenation now stands, zero-terminated, and no byte outside that region has changed.
\<close>

lemma strcat_appends:
  assumes xs: "cstring m d xs" and ys: "cstring m s ys"
    and dis: "disjoint_ranges d (length xs + length ys + 1) s (length ys + 1)"
  shows "\<exists>m'. strcat d s m = Done d m' \<and> cstring m' d (xs @ ys) \<and>
    (\<forall>x. length xs + length ys + 1 \<le> unat (x - d) \<longrightarrow> m' x = m x)"
proof -
  let ?lx = "length xs" and ?ly = "length ys"
  let ?p = "d + of_nat ?lx"
  have dis': "disjoint_ranges d (?lx + Suc ?ly) s (Suc ?ly)" using dis by simp
  have total: "?lx + Suc ?ly < 2 ^ 64"
    using dis' unsigned_less [of "s - d", where ?'a = nat] by (auto simp: disjoint_ranges_def)
  obtain m' where m': "stpcpy ?p s m = Done (?p + of_nat ?ly) m'" "cstring m' ?p ys"
      "\<And>x. Suc ?ly \<le> unat (x - ?p) \<Longrightarrow> m' x = m x"
    using stpcpy_copies [OF ys disjoint_ranges_suffix [OF dis' zero_less_Suc]] by auto
  have old: "m' (d + of_nat i) = xs ! i" if "i < ?lx" for i
  proof -
    have "unat (d + of_nat i - ?p) = 2 ^ LENGTH(64) - (?lx - i)"
      using that total by (intro unat_offset_diff_neg) simp_all
    moreover have "(2 :: nat) ^ LENGTH(64) = 2 ^ 64" by simp
    ultimately have "Suc ?ly \<le> unat (d + of_nat i - ?p)" using that total by linarith
    then show ?thesis using m'(3) that xs by (simp add: cstring_def)
  qed
  have str: "cstring m' d (xs @ ys)"
    unfolding cstring_def
  proof (intro conjI allI impI)
    show "0 \<notin> set (xs @ ys)" "length (xs @ ys) < 2 ^ 64"
      using xs ys total by (auto simp: cstring_def)
    show "m' (d + of_nat (length (xs @ ys))) = 0"
      using m'(2) by (simp add: cstring_def add.assoc)
    fix i assume "i < length (xs @ ys)"
    then consider "i < ?lx" | j where "i = ?lx + j" "j < ?ly"
      by (metis add_diff_inverse length_append nat_add_left_cancel_less)
    then show "m' (d + of_nat i) = (xs @ ys) ! i"
      using m'(2) old by cases (simp_all add: cstring_def nth_append add.assoc [symmetric])
  qed
  have "m' x = m x" if "?lx + ?ly + 1 \<le> unat (x - d)" for x
  proof -
    have "disjoint_ranges d (?lx + Suc ?ly) x 0" using that by (simp add: disjoint_ranges_def)
    then show ?thesis using disjoint_ranges_suffix [of d ?lx "Suc ?ly" x 0] m'(3) by (auto simp: disjoint_ranges_def)
  qed
  with str m'(1) show ?thesis by (auto simp: strcat_def strlen_cstring [OF xs])
qed

lemma strcat_appends_example:
  "\<exists>m'. strcat 0 8 ((\<lambda>_. 0)(0 := 97, 8 := 98)) = Done 0 m' \<and> cstring m' 0 [97, 98]"
proof -
  let ?m = "(\<lambda>_. 0)(0 := 97, 8 := 98) :: memory"
  have "cstring ?m 0 [97]" "cstring ?m 8 [98]" by (simp_all add: cstring_def)
  moreover have "disjoint_ranges 0 (length [97 :: u8] + length [98 :: u8] + 1) 8 (length [98 :: u8] + 1)"
    by (simp add: disjoint_ranges_def)
  ultimately show ?thesis using strcat_appends [of ?m 0 "[97]" 8 "[98]"] by auto
qed

section \<open>The bit field functions of bits.c\<close>

text \<open>
  \<open>extract_bit_range\<close> shifts by \<open>low\<close> and by \<open>high - low + 1\<close>; C leaves a shift of a 32-bit
  value by 32 or more undefined, which is the value \<open>None\<close>. The width is computed in 8 bits.
\<close>

definition extract_bit_range :: "u32 \<Rightarrow> u8 \<Rightarrow> u8 \<Rightarrow> u32 option" where
  "extract_bit_range v high low =
     (let width = high - low + 1 in
      if width \<noteq> 32 \<and> \<not> width < 32 then None
      else let mask = (if width = 32 then 0xFFFFFFFF else push_bit (unat width) 1 - 1) in
        if \<not> low < 32 then None
        else Some (drop_bit (unat low) v AND mask))"

definition test_bit_range :: "u32 \<Rightarrow> u8 \<Rightarrow> u8 \<Rightarrow> u32 \<Rightarrow> bool option" where
  "test_bit_range v high low expected =
     map_option (\<lambda>r. r = expected) (extract_bit_range v high low)"

text \<open>
  \<open>extract_bit_range\<close> is the field \<open>high..low\<close> of its argument for every range inside a
  32-bit word: bit \<open>k\<close> of the result is bit \<open>low + k\<close> of the argument up to \<open>high\<close>, and all
  higher bits are zero.
\<close>

lemma extract_bit_range_field:
  assumes "low \<le> high" and "high < 32"
  shows "\<exists>r. extract_bit_range v high low = Some r \<and>
    (\<forall>k. bit r k \<longleftrightarrow> k \<le> unat (high - low) \<and> bit v (unat low + k))"
proof -
  let ?w = "high - low + 1"
  have low: "low < 32" and hl: "high - low < 32" using assms by (uint_arith, uint_arith)
  have w: "unat ?w = Suc (unat (high - low))" by (rule unat_inc [OF hl])
  have w32: "unat ?w \<le> 32" using hl w by (simp add: word_less_nat_alt)
  let ?mask = "(if ?w = 32 then 0xFFFFFFFF else push_bit (unat ?w) 1 - 1) :: u32"
  have mask: "?mask = mask (unat ?w)"
    by (simp add: mask_eq_exp_minus_1 push_bit_eq_mult)
  have "extract_bit_range v high low = Some (drop_bit (unat low) v AND ?mask)"
    using low w32 by (auto simp: extract_bit_range_def Let_def word_less_nat_alt word_unat_eq_iff)
  then show ?thesis
    unfolding mask
    by (auto simp: bit_and_iff bit_drop_bit_eq bit_mask_iff w dest: bit_imp_le_length)
qed

lemma extract_bit_range_field_example:
  "\<exists>r. extract_bit_range 0xABCD1234 15 8 = Some r \<and>
    (\<forall>k. bit r k \<longleftrightarrow> k \<le> unat (15 - 8 :: u8) \<and> bit (0xABCD1234 :: u32) (unat (8 :: u8) + k))"
  by (rule extract_bit_range_field) simp_all

end
