(* ===== verification/Memmap.thy ===== *)
theory Memmap
  imports Mem_Ops
begin

text \<open>
  The machine state all memory components work on, and \<open>memory/memmap.c\<close>: the responses of the
  boot loader (Limine) and their accessors, which panic when a response is missing, and the list
  of free memory chunks that \<open>get_memory_descriptor\<close> computes from the boot loader's memory map.
\<close>

section \<open>The machine state\<close>

text \<open>
  A response of the boot loader is a pointer that may be null: an option. \<open>exe_response\<close> holds the
  size of the executable file, \<open>hhdm_response\<close> the offset of the higher half direct map. The
  records of the other components extend this one.
\<close>

record memmap_entry =
  me_base :: u64
  me_length :: u64
  me_type :: u64

record k_addr_resp =
  physical_base :: u64
  virtual_base :: u64

record machine =
  mem :: memory
  klog :: "out_event list"
  memmap_response :: "memmap_entry list option"
  k_addr_response :: "k_addr_resp option"
  hhdm_response :: "u64 option"
  exe_response :: "u64 option"

definition emit :: "out_event \<Rightarrow> 'z machine_scheme \<Rightarrow> 'z machine_scheme" where
  "emit e s = s\<lparr>klog := klog s @ [e]\<rparr>"

abbreviation k_err :: "string \<Rightarrow> fmt_arg list \<Rightarrow> 'z machine_scheme \<Rightarrow> 'z machine_scheme" where
  "k_err fmt args \<equiv> emit (LogMsg Lvl_err fmt args)"

abbreviation k_wrn :: "string \<Rightarrow> fmt_arg list \<Rightarrow> 'z machine_scheme \<Rightarrow> 'z machine_scheme" where
  "k_wrn fmt args \<equiv> emit (LogMsg Lvl_wrn fmt args)"

abbreviation panic :: "string \<Rightarrow> 's \<Rightarrow> ('a, 's) outcome" where
  "panic msg s \<equiv> Stop (Panic msg) s"

lemma emit_fields [simp]:
  "mem (emit e s) = mem s" "memmap_response (emit e s) = memmap_response s"
  "k_addr_response (emit e s) = k_addr_response s" "hhdm_response (emit e s) = hhdm_response s"
  "exe_response (emit e s) = exe_response s" "klog (emit e s) = klog s @ [e]"
  "machine.more (emit e s) = machine.more s"
  by (simp_all add: emit_def)

section \<open>Constants and accessors\<close>

definition PAGE_SIZE :: u64 where [kernel_consts]: "PAGE_SIZE = 4096"
definition MAX_PAGES :: u64 where [kernel_consts]: "MAX_PAGES = 1024 * 1024"
definition MAX_SEGMENTS :: nat where [kernel_consts]: "MAX_SEGMENTS = 32"
definition MAX_CHUNKS :: nat where [kernel_consts]: "MAX_CHUNKS = 128"

definition ALIGN_UP :: "u64 \<Rightarrow> u64 \<Rightarrow> u64" where
  "ALIGN_UP v align = (v + align - 1) AND NOT (align - 1)"

definition get_memmap :: "'z machine_scheme \<Rightarrow> (memmap_entry list, 'z machine_scheme) outcome" where
  "get_memmap s = (case memmap_response s of
     None \<Rightarrow> panic ''No memmap response!'' s | Some r \<Rightarrow> Done r s)"

definition get_k_addr :: "'z machine_scheme \<Rightarrow> (k_addr_resp, 'z machine_scheme) outcome" where
  "get_k_addr s = (case k_addr_response s of
     None \<Rightarrow> panic ''No kernel address response!'' s | Some r \<Rightarrow> Done r s)"

definition get_hhdm :: "'z machine_scheme \<Rightarrow> (u64, 'z machine_scheme) outcome" where
  "get_hhdm s = (case hhdm_response s of
     None \<Rightarrow> panic ''No HHDM response!'' s | Some r \<Rightarrow> Done r s)"

definition get_exe :: "'z machine_scheme \<Rightarrow> (u64, 'z machine_scheme) outcome" where
  "get_exe s = (case exe_response s of
     None \<Rightarrow> panic ''No executable file response!'' s | Some r \<Rightarrow> Done r s)"

lemma boot_accessors [simp]:
  "k_addr_response s = Some k \<Longrightarrow> get_k_addr s = Done k s"
  "hhdm_response s = Some h \<Longrightarrow> get_hhdm s = Done h s"
  "memmap_response s = Some es \<Longrightarrow> get_memmap s = Done es s"
  "exe_response s = Some z \<Longrightarrow> get_exe s = Done z s"
  by (simp_all add: get_k_addr_def get_hhdm_def get_memmap_def get_exe_def)

lemma boot_accessors_Done [simp]:
  "get_k_addr s = Done k t \<longleftrightarrow> k_addr_response s = Some k \<and> t = s"
  "get_hhdm s = Done h t \<longleftrightarrow> hhdm_response s = Some h \<and> t = s"
  "get_memmap s = Done es t \<longleftrightarrow> memmap_response s = Some es \<and> t = s"
  "get_exe s = Done z t \<longleftrightarrow> exe_response s = Some z \<and> t = s"
  by (auto simp: get_k_addr_def get_hhdm_def get_memmap_def get_exe_def split: option.splits)

section \<open>Free memory chunks\<close>

definition LIMINE_MEMMAP_USABLE :: u32 where [kernel_consts]: "LIMINE_MEMMAP_USABLE = 0"
definition LIMINE_MEMMAP_ACPI_RECLAIMABLE :: u32 where
  [kernel_consts]: "LIMINE_MEMMAP_ACPI_RECLAIMABLE = 2"
definition LIMINE_MEMMAP_BOOTLOADER_RECLAIMABLE :: u32 where
  [kernel_consts]: "LIMINE_MEMMAP_BOOTLOADER_RECLAIMABLE = 5"

text \<open>\<open>is_memory_free\<close> takes an \<open>int\<close>: the 64-bit type of an entry is cut to 32 bits at the call.\<close>

definition is_memory_free :: "u32 \<Rightarrow> bool" where
  "is_memory_free type \<longleftrightarrow> type = LIMINE_MEMMAP_USABLE \<or>
     type = LIMINE_MEMMAP_ACPI_RECLAIMABLE \<or> type = LIMINE_MEMMAP_BOOTLOADER_RECLAIMABLE"

record memory_chunk =
  chunk_base :: u64
  chunk_bounds :: u64

record memory_descriptor =
  md_length :: u64
  chunk_count :: u8
  chunk_ptr :: "memory_chunk list"

text \<open>
  The loop of \<open>get_memory_descriptor\<close>. \<open>cs\<close> is the filled prefix of the static array
  \<open>free_chunks\<close>, which has \<open>MAX_CHUNKS\<close> elements: writing one more is out of bounds (\<open>None\<close>).
\<close>

fun scan_entries :: "memmap_entry list \<Rightarrow> memory_chunk list \<Rightarrow> u64 \<Rightarrow>
    (memory_chunk list \<times> u64) option" where
  "scan_entries [] cs len = Some (cs, len)"
| "scan_entries (e # es) cs len =
     (if is_memory_free (ucast (me_type e)) then
        if length cs > 0 \<and> chunk_bounds (last cs) = me_base e then
          scan_entries es (butlast cs @ [(last cs)\<lparr>chunk_bounds := me_base e + me_length e\<rparr>])
            (len + me_length e)
        else if length cs < MAX_CHUNKS then
          scan_entries es
            (cs @ [\<lparr>chunk_base = me_base e, chunk_bounds = me_base e + me_length e\<rparr>])
            (len + me_length e)
        else None
      else scan_entries es cs len)"

definition get_memory_descriptor ::
  "'z machine_scheme \<Rightarrow> (memory_descriptor, 'z machine_scheme) outcome" where
  "get_memory_descriptor s = bindO (get_memmap s) (\<lambda>entries s.
     (case scan_entries entries [] 0 of
        None \<Rightarrow> Stop (Fault ''free_chunks out of bounds'') s
      | Some (cs, len) \<Rightarrow>
          Done \<lparr>md_length = len, chunk_count = of_nat (length cs), chunk_ptr = cs\<rparr> s))"

definition print_free_ram :: "'z machine_scheme \<Rightarrow> (unit, 'z machine_scheme) outcome" where
  "print_free_ram s = bindO (get_memory_descriptor s) (\<lambda>desc s.
     let len = md_length desc;
         gib = len div 1073741824;
         remainder = len mod 1073741824;
         decimal = (remainder * 100) div 1073741824;
         s = emit (LogMsg Lvl_log ''%d.%02d GiB RAM free.'' [Num gib, Num decimal]) s
     in if gib < 1 \<and> decimal < 50 then
          panic (''Insufficient memory. adaOS probably needs '' @ [CHR 0x0A] @
                 ''more than 0.5GiB of memory free.'') s
        else Done () s)"

definition LIMINE_MEMMAP_STRINGS :: "string list" where
  "LIMINE_MEMMAP_STRINGS = [''USABLE'', ''RESERVED'', ''ACPI_RECLAIMABLE'', ''ACPI_NVS'',
     ''BAD_MEMORY'', ''BOOTLOADER_RECLAIMABLE'', ''KERNEL_AND_MODULES'', ''FRAMEBUFFER'']"

definition memmap_type_string :: "u64 \<Rightarrow> 'z machine_scheme \<Rightarrow> (string, 'z machine_scheme) outcome" where
  "memmap_type_string type s =
     (if unat type < length LIMINE_MEMMAP_STRINGS
      then Done (LIMINE_MEMMAP_STRINGS ! unat type) s
      else Stop (Fault ''LIMINE_MEMMAP_STRINGS out of bounds'') s)"

text \<open>
  \<open>k_debug\<close> is compiled to nothing (\<open>DBG\<close> is not defined), but its arguments are evaluated, so
  \<open>debug_print_mem_map\<close> still reads the string table.
\<close>

definition debug_print_mem_map :: "'z machine_scheme \<Rightarrow> (unit, 'z machine_scheme) outcome" where
  "debug_print_mem_map s = bindO (get_memmap s) (\<lambda>entries.
     for_each (zip [0..<length entries] entries) (\<lambda>(i, e) s.
       bindO (memmap_type_string (me_type e) s) (\<lambda>_ s. Done () s)))"

definition serial_print_mem_map :: "'z machine_scheme \<Rightarrow> (unit, 'z machine_scheme) outcome" where
  "serial_print_mem_map s = bindO (get_memmap s) (\<lambda>entries.
     for_each (zip [0..<length entries] entries) (\<lambda>(i, e) s.
       bindO (memmap_type_string (me_type e) s) (\<lambda>str s.
         Done () (emit (SerialPrintf (''Segment %d: Type: %s. Base: %p. Length: %p. Free: %s.'' @ [CHR 0x0A])
           [Num (of_nat i), Str str, Num (me_base e), Num (me_length e),
            Str (if is_memory_free (ucast (me_type e)) then ''True'' else ''False'')]) s))))"

section \<open>What the descriptor says\<close>

definition entry_free :: "memmap_entry \<Rightarrow> bool" where
  "entry_free e \<longleftrightarrow> is_memory_free (ucast (me_type e))"

definition entry_bytes :: "memmap_entry \<Rightarrow> nat set" where
  "entry_bytes e = {unat (me_base e) ..< unat (me_base e) + unat (me_length e)}"

definition chunk_bytes :: "memory_chunk \<Rightarrow> nat set" where
  "chunk_bytes c = {unat (chunk_base c) ..< unat (chunk_bounds c)}"

definition entry_fits :: "memmap_entry \<Rightarrow> bool" where
  "entry_fits e \<longleftrightarrow> unat (me_base e) + unat (me_length e) < 2 ^ 64"

abbreviation chunks_bytes :: "memory_chunk list \<Rightarrow> nat set" where
  "chunks_bytes cs \<equiv> (\<Union>c \<in> set cs. chunk_bytes c)"

abbreviation free_bytes :: "memmap_entry list \<Rightarrow> nat set" where
  "free_bytes es \<equiv> (\<Union>e \<in> {e \<in> set es. entry_free e}. entry_bytes e)"

abbreviation chunks_apart :: "memory_chunk list \<Rightarrow> bool" where
  "chunks_apart \<equiv> successively (\<lambda>c d. chunk_bounds c \<noteq> chunk_base d)"

lemma entry_fits_bounds:
  "entry_fits e \<Longrightarrow> unat (me_base e + me_length e) = unat (me_base e) + unat (me_length e)"
  by (simp add: entry_fits_def unat_word_ariths)

lemma chunk_bytes_new:
  "entry_fits e \<Longrightarrow>
    chunk_bytes \<lparr>chunk_base = me_base e, chunk_bounds = me_base e + me_length e\<rparr> = entry_bytes e"
  by (simp add: chunk_bytes_def entry_bytes_def entry_fits_bounds)

lemma chunk_bytes_extend:
  assumes "entry_fits e" and "chunk_base c \<le> chunk_bounds c" and "chunk_bounds c = me_base e"
  shows "chunk_bytes (c\<lparr>chunk_bounds := me_base e + me_length e\<rparr>) = chunk_bytes c \<union> entry_bytes e"
  using assms by (auto simp: chunk_bytes_def entry_bytes_def entry_fits_bounds word_le_nat_alt)

lemma scan_entries_spec:
  assumes "scan_entries es cs len = Some (cs', len')"
    and "\<And>e. e \<in> set es \<Longrightarrow> entry_free e \<Longrightarrow> entry_fits e"
    and "\<And>c. c \<in> set cs \<Longrightarrow> chunk_base c \<le> chunk_bounds c"
    and "chunks_apart cs" and "length cs \<le> MAX_CHUNKS"
  shows "chunks_bytes cs' = chunks_bytes cs \<union> free_bytes es
    \<and> len' = len + sum_list (map me_length (filter entry_free es))
    \<and> chunks_apart cs' \<and> length cs' \<le> MAX_CHUNKS"
  using assms
proof (induction es cs len rule: scan_entries.induct)
  case (1 cs len)
  then show ?case by simp
next
  case (2 e es cs len)
  show ?case
  proof (cases "entry_free e")
    case False
    then have "scan_entries es cs len = Some (cs', len')"
      using "2.prems"(1) by (simp add: entry_free_def)
    with 2 False show ?thesis by (auto simp: entry_free_def)
  next
    case True
    then have free: "is_memory_free (ucast (me_type e))" by (simp add: entry_free_def)
    have fits: "entry_fits e" using "2.prems"(2) True by simp
    show ?thesis
    proof (cases "length cs > 0 \<and> chunk_bounds (last cs) = me_base e")
      case merge: True
      let ?c = "(last cs)\<lparr>chunk_bounds := me_base e + me_length e\<rparr>"
      let ?cs = "butlast cs @ [?c]"
      obtain bs l where cs: "cs = bs @ [l]" using merge by (cases cs rule: rev_cases) auto
      have ext: "chunk_bytes ?c = chunk_bytes (last cs) \<union> entry_bytes e"
        using chunk_bytes_extend [OF fits, of "last cs"] merge "2.prems"(3) cs by simp
      have le: "chunk_base c \<le> chunk_bounds c" if "c \<in> set ?cs" for c
        using that "2.prems"(3) [of c] "2.prems"(3) [of l] merge fits
        by (auto simp: cs word_le_nat_alt entry_fits_bounds)
      have "chunks_bytes cs' = chunks_bytes ?cs \<union> free_bytes es
          \<and> len' = len + me_length e + sum_list (map me_length (filter entry_free es))
          \<and> chunks_apart cs' \<and> length cs' \<le> MAX_CHUNKS"
      proof (rule "2.IH"(1) [OF free merge])
        show "scan_entries es ?cs (len + me_length e) = Some (cs', len')"
          using "2.prems"(1) free merge by simp
        show "chunks_apart ?cs" using "2.prems"(4) by (auto simp: cs successively_append_iff)
      qed (use "2.prems" le merge in auto)
      then show ?thesis using True ext by (auto simp: cs)
    next
      case push: False
      let ?cs = "cs @ [\<lparr>chunk_base = me_base e, chunk_bounds = me_base e + me_length e\<rparr>]"
      have room: "length cs < MAX_CHUNKS"
        using "2.prems"(1) free push by (auto split: if_splits)
      have le: "chunk_base c \<le> chunk_bounds c" if "c \<in> set ?cs" for c
        using that "2.prems"(3) fits by (auto simp: word_le_nat_alt entry_fits_bounds)
      have "chunks_bytes cs' = chunks_bytes ?cs \<union> free_bytes es
          \<and> len' = len + me_length e + sum_list (map me_length (filter entry_free es))
          \<and> chunks_apart cs' \<and> length cs' \<le> MAX_CHUNKS"
      proof (rule "2.IH"(2) [OF free push room])
        show "scan_entries es ?cs (len + me_length e) = Some (cs', len')"
          using "2.prems"(1) free push room by (auto split: if_splits)
        show "chunks_apart ?cs" using "2.prems"(4) push by (auto simp: successively_append_iff)
      qed (use "2.prems" le room in auto)
      then show ?thesis using True chunk_bytes_new [OF fits] by auto
    qed
  qed
qed

text \<open>
  C24. The memory descriptor is right: when no usable entry of the memory map wraps around the
  address space, the chunks cover exactly the bytes of the usable entries, no chunk begins where
  the one before it ends (such chunks have been merged), the length is the sum of the usable
  entries' lengths, and the 8-bit count is the number of chunks.
\<close>

theorem memory_descriptor_covers_usable:
  assumes "memmap_response s = Some es"
    and "\<forall>e \<in> set es. entry_free e \<longrightarrow> entry_fits e"
    and "get_memory_descriptor s = Done d t"
  shows "chunks_bytes (chunk_ptr d) = free_bytes es
    \<and> chunks_apart (chunk_ptr d)
    \<and> md_length d = sum_list (map me_length (filter entry_free es))
    \<and> unat (chunk_count d) = length (chunk_ptr d) \<and> t = s"
proof -
  obtain cs len where run: "scan_entries es [] 0 = Some (cs, len)"
    and d: "d = \<lparr>md_length = len, chunk_count = of_nat (length cs), chunk_ptr = cs\<rparr>" and "t = s"
    using assms(1,3) by (auto simp: get_memory_descriptor_def split: option.splits)
  have "length cs \<le> MAX_CHUNKS \<Longrightarrow> unat (of_nat (length cs) :: u8) = length cs"
    by (rule unat_of_nat_less) (simp add: MAX_CHUNKS_def)
  with scan_entries_spec [OF run] assms(2) \<open>t = s\<close> show ?thesis by (simp add: d)
qed

definition example_memmap :: "memmap_entry list" where
  "example_memmap = [\<lparr>me_base = 0x1000, me_length = 0x9E000, me_type = 0\<rparr>,
     \<lparr>me_base = 0x9F000, me_length = 0x61000, me_type = 1\<rparr>,
     \<lparr>me_base = 0x100000, me_length = 0x7EE0000, me_type = 0\<rparr>,
     \<lparr>me_base = 0x7FE0000, me_length = 0x20000, me_type = 5\<rparr>]"

definition example_machine :: machine where
  "example_machine = \<lparr>mem = (\<lambda>_. 0), klog = [], memmap_response = Some example_memmap,
     k_addr_response = Some \<lparr>physical_base = 0x7000000, virtual_base = 0xFFFFFFFF80000000\<rparr>,
     hhdm_response = Some 0xFFFF800000000000, exe_response = Some 0x20000\<rparr>"

lemma example_descriptor:
  "get_memory_descriptor example_machine = Done \<lparr>md_length = 0x7F9E000, chunk_count = 2,
     chunk_ptr = [\<lparr>chunk_base = 0x1000, chunk_bounds = 0x9F000\<rparr>,
       \<lparr>chunk_base = 0x100000, chunk_bounds = 0x8000000\<rparr>]\<rparr> example_machine"
  by (simp add: get_memory_descriptor_def example_machine_def example_memmap_def
      is_memory_free_def kernel_consts)

theorem memory_descriptor_covers_usable_witness:
  "chunks_bytes [\<lparr>chunk_base = 0x1000, chunk_bounds = 0x9F000\<rparr>,
     \<lparr>chunk_base = 0x100000, chunk_bounds = 0x8000000\<rparr>] = free_bytes example_memmap"
proof -
  have "memmap_response example_machine = Some example_memmap"
    by (simp add: example_machine_def)
  moreover have "\<forall>e \<in> set example_memmap. entry_free e \<longrightarrow> entry_fits e"
    by (simp add: example_memmap_def entry_fits_def)
  ultimately show ?thesis
    using memory_descriptor_covers_usable [OF _ _ example_descriptor] by simp
qed

end
