(* ===== verification/PMM.thy ===== *)
theory PMM
  imports Memmap
begin

text \<open>
  The physical memory manager, \<open>memory/physical/pmm.c\<close>: a bitmap of page frames, the table that
  maps page indices to physical addresses, allocation and release of pages, and the set-up that
  reserves the kernel's own pages.
\<close>

section \<open>State\<close>

text \<open>
  The file-level variables of \<open>pmm.c\<close>. The bitmap is a function of the byte index, together with
  the bound \<open>MAX_PAGES / 8\<close> of the C array: an access past it is undefined behaviour. The table
  \<open>page_mappings\<close> is a list of \<open>MAX_SEGMENTS\<close> elements.
\<close>

record page_mapping =
  pm_offset :: u64
  page_start_index :: u64
  page_end_index :: u64

record pmm = machine +
  page_bitmap :: "u64 \<Rightarrow> u8"
  page_mappings :: "page_mapping list"
  last_used_mapping :: u32
  last_page_used :: u64
  free_pages :: u64
  used_pages :: u64
  pmm_desc :: memory_descriptor

definition USED :: bool where "USED = False"
definition FREE :: bool where "FREE = True"

definition TEST_STRING :: string where "TEST_STRING = '':3 meow uwu :3''"

definition get_used_memory :: "'z pmm_scheme \<Rightarrow> u64" where
  "get_used_memory s = used_pages s * PAGE_SIZE"

definition get_free_memory :: "'z pmm_scheme \<Rightarrow> u64" where
  "get_free_memory s = free_pages s * PAGE_SIZE"

section \<open>The bitmap\<close>

definition page_free :: "u64 \<Rightarrow> 'z pmm_scheme \<Rightarrow> (bool, 'z pmm_scheme) outcome" where
  "page_free page_index s =
     (let byte = page_index div 8; b = unat (page_index mod 8) in
      if \<not> byte < MAX_PAGES div 8 then Stop (Fault ''page_bitmap out of bounds'') s
      else if drop_bit b (page_bitmap s byte) AND 1 \<noteq> 0 then Done False s
      else Done True s)"

definition set_page :: "u64 \<Rightarrow> bool \<Rightarrow> 'z pmm_scheme \<Rightarrow> (unit, 'z pmm_scheme) outcome" where
  "set_page page_index free s =
     (let byte = page_index div 8; b = unat (page_index mod 8); bm = page_bitmap s in
      if \<not> byte < MAX_PAGES div 8 then Stop (Fault ''page_bitmap out of bounds'') s
      else if free then
        Done () (s\<lparr>page_bitmap := bm(byte := bm byte AND NOT (push_bit b 1)),
                   free_pages := free_pages s + 1,
                   used_pages := used_pages s - 1\<rparr>)
      else
        Done () (s\<lparr>page_bitmap := bm(byte := bm byte OR push_bit b 1),
                   last_page_used := page_index,
                   free_pages := free_pages s - 1,
                   used_pages := used_pages s + 1\<rparr>))"

text \<open>The search loop of \<open>get_free_page\<close>, from page \<open>i\<close> up to and including \<open>MAX_PAGES\<close>.\<close>

function find_free_from :: "u64 \<Rightarrow> 'z pmm_scheme \<Rightarrow> (u64, 'z pmm_scheme) outcome" where
  "find_free_from i s =
     (if i \<le> MAX_PAGES then
        bindO (page_free i s) (\<lambda>free s.
          if free then Done i (s\<lparr>last_page_used := i\<rparr>) else find_free_from (i + 1) s)
      else panic ''Out of memory.'' s)"
  by pat_completeness auto
termination
proof (relation "measure (\<lambda>(i, s). unat MAX_PAGES + 1 - unat i)")
  fix i :: u64 and s free and s' :: "'z pmm_scheme"
  assume "i \<le> MAX_PAGES"
  then have "i < 2000000" by (simp add: MAX_PAGES_def word_le_nat_alt word_less_nat_alt)
  then show "((i + 1, s'), i, s) \<in> measure (\<lambda>(i, s). unat MAX_PAGES + 1 - unat i)"
    using \<open>i \<le> MAX_PAGES\<close> by (simp add: unat_inc word_le_nat_alt)
qed simp

declare find_free_from.simps [simp del]

definition get_free_page :: "'z pmm_scheme \<Rightarrow> (u64, 'z pmm_scheme) outcome" where
  "get_free_page s = bindO (get_k_addr s) (\<lambda>k s.
     let s = (if last_page_used s \<ge> physical_base k div PAGE_SIZE
              then s\<lparr>last_page_used := 1\<rparr> else s);
         s = (if last_page_used s \<ge> MAX_PAGES then s\<lparr>last_page_used := 1\<rparr> else s);
         s = s\<lparr>last_page_used := last_page_used s + 1\<rparr>
     in bindO (page_free (last_page_used s) s) (\<lambda>free s.
          if free then Done (last_page_used s) s else find_free_from 1 s))"

section \<open>Page indices and physical addresses\<close>

text \<open>
  The loop of \<open>generate_page_mapping\<close>: one table entry per chunk. The table has \<open>MAX_SEGMENTS\<close>
  entries, the memory descriptor up to \<open>MAX_CHUNKS\<close> chunks; the entry after the last is out of
  bounds.
\<close>

fun map_chunks :: "memory_chunk list \<Rightarrow> nat \<Rightarrow> u64 \<Rightarrow> 'z pmm_scheme \<Rightarrow> (u64, 'z pmm_scheme) outcome" where
  "map_chunks [] i pages_used s = Done pages_used s"
| "map_chunks (chunk # chunks) i pages_used s =
     (if i < MAX_SEGMENTS then
        let span = (chunk_bounds chunk - chunk_base chunk) div PAGE_SIZE;
            m = \<lparr>pm_offset = (if chunk_base chunk > 0x100000 then chunk_base chunk else 0x100000),
                 page_start_index = pages_used,
                 page_end_index = pages_used + ALIGN_UP span PAGE_SIZE\<rparr>
        in map_chunks chunks (Suc i) (pages_used + (span + 1))
             (s\<lparr>page_mappings := (page_mappings s)[i := m]\<rparr>)
      else Stop (Fault ''page_mappings out of bounds'') s)"

definition generate_page_mapping :: "'z pmm_scheme \<Rightarrow> (unit, 'z pmm_scheme) outcome" where
  "generate_page_mapping s =
     bindO (map_chunks (take (unat (chunk_count (pmm_desc s))) (chunk_ptr (pmm_desc s))) 0 0 s)
       (\<lambda>pages_used s. Done () (s\<lparr>free_pages := pages_used\<rparr>))"

text \<open>
  The search of both translations tries the mapping used last, then the mappings after it, then
  once more all of them from the first (\<open>wrapped\<close>). The index may run up to \<open>chunk_count + 1\<close>.
\<close>

definition current_mapping :: "'z pmm_scheme \<Rightarrow> page_mapping option" where
  "current_mapping s =
     (if unat (last_used_mapping s) < MAX_SEGMENTS
      then Some (page_mappings s ! unat (last_used_mapping s)) else None)"

function search_mapping ::
  "(page_mapping \<Rightarrow> u64 option) \<Rightarrow> bool \<Rightarrow> 'z pmm_scheme \<Rightarrow> (u64 option, 'z pmm_scheme) outcome" where
  "search_mapping hit wrapped s =
     (case current_mapping s of
        None \<Rightarrow> Stop (Fault ''page_mappings out of bounds'') s
      | Some m \<Rightarrow>
         (case hit m of
            Some r \<Rightarrow> Done (Some r) s
          | None \<Rightarrow>
             if last_used_mapping s \<le> ucast (chunk_count (pmm_desc s)) then
               search_mapping hit wrapped (s\<lparr>last_used_mapping := last_used_mapping s + 1\<rparr>)
             else if \<not> wrapped then
               search_mapping hit True (s\<lparr>last_used_mapping := 0\<rparr>)
             else Done None s))"
  by pat_completeness auto
termination
proof (relation "measures [\<lambda>(hit, wrapped, s). if wrapped then 0 else 1,
    \<lambda>(hit, wrapped, s). 256 - unat (last_used_mapping s)]")
  fix hit :: "page_mapping \<Rightarrow> u64 option" and wrapped and s :: "'z pmm_scheme"
  assume le: "last_used_mapping s \<le> ucast (chunk_count (pmm_desc s))"
  have "unat (ucast (chunk_count (pmm_desc s)) :: u32) < 256"
    using unsigned_less [of "chunk_count (pmm_desc s)", where ?'a = nat]
    by (simp add: unsigned_ucast_eq take_bit_nat_eq_self)
  with le have "unat (last_used_mapping s) < 256" by (simp add: word_le_nat_alt)
  moreover from this have "unat (last_used_mapping s + 1) = Suc (unat (last_used_mapping s))"
    by (intro unat_inc [of _ 256]) (simp add: word_less_nat_alt)
  ultimately show "((hit, wrapped, s\<lparr>last_used_mapping := last_used_mapping s + 1\<rparr>), hit, wrapped, s)
      \<in> measures [\<lambda>(hit, wrapped, s). if wrapped then 0 else 1,
        \<lambda>(hit, wrapped, s). 256 - unat (last_used_mapping s)]"
    by simp
qed simp_all

declare search_mapping.simps [simp del]

definition ptr_hit :: "u64 \<Rightarrow> page_mapping \<Rightarrow> u64 option" where
  "ptr_hit ptr m =
     (let segment_size = (page_end_index m - page_start_index m) * PAGE_SIZE in
      if ptr > pm_offset m \<and> ptr < pm_offset m + segment_size
      then Some (page_start_index m + (ptr - pm_offset m) div PAGE_SIZE) else None)"

definition page_hit :: "u64 \<Rightarrow> page_mapping \<Rightarrow> u64 option" where
  "page_hit page_index m =
     (if page_index > page_start_index m \<and> page_index < page_end_index m
      then Some (pm_offset m + (page_index - page_start_index m) * PAGE_SIZE) else None)"

definition ptr_to_page :: "u64 \<Rightarrow> 'z pmm_scheme \<Rightarrow> (u64, 'z pmm_scheme) outcome" where
  "ptr_to_page ptr s =
     (if ptr = 0 then Done (-1) (k_err ''NULL pointer passed to ptr_to_page!'' [] s)
      else if ptr mod PAGE_SIZE \<noteq> 0 then
        Done (-1) (k_err ''Non page-alined pointer passed to ptr_to_page!'' [] s)
      else bindO (search_mapping (ptr_hit ptr) False s) (\<lambda>r s.
        case r of Some page \<Rightarrow> Done page s | None \<Rightarrow> Done (-1) s))"

definition page_to_ptr :: "u64 \<Rightarrow> 'z pmm_scheme \<Rightarrow> (u64, 'z pmm_scheme) outcome" where
  "page_to_ptr page_index s =
     (if page_index > MAX_PAGES then
        Done 0 (k_err ''Out of bounds page %d passed to page_to_ptr!'' [Num page_index] s)
      else bindO (search_mapping (page_hit page_index) False s) (\<lambda>r s.
        case r of
          Some ptr \<Rightarrow> Done ptr s
        | None \<Rightarrow> Done 0 (k_err ''Failed to find mapping for physical page %d!'' [Num page_index] s)))"

section \<open>Allocation and release\<close>

definition pp_alloc_at :: "u64 \<Rightarrow> 'z pmm_scheme \<Rightarrow> (u64, 'z pmm_scheme) outcome" where
  "pp_alloc_at page_index s = bindO (get_k_addr s) (\<lambda>k s.
     if page_index \<ge> physical_base k then
       Done 0 (k_err (''Tried to allocate a page (%d) that was in the kernel executable's '' @ ''space!'')
         [Num page_index] s)
     else if page_index > MAX_PAGES then
       bindO (page_to_ptr page_index s) (\<lambda>p s.
         Done 0 (k_err (''Tried to allocate physical page %d at %p that was outside the '' @
           ''bounds of paged memory!'') [Num page_index, Num p] s))
     else bindO (page_free page_index s) (\<lambda>free s.
       if free then
         bindO (set_page page_index USED s) (\<lambda>_ s.
         bindO (page_to_ptr page_index s) (\<lambda>addr s.
         bindO (get_hhdm s) (\<lambda>hhdm s.
           let vaddr = addr + hhdm in
           Done addr (s\<lparr>mem := snd (memset vaddr 0 PAGE_SIZE (mem s))\<rparr>))))
       else
         Done 0 (k_wrn ''Tried to allocate a page (%d) that was not free!'' [Num page_index] s)))"

definition pp_alloc :: "'z pmm_scheme \<Rightarrow> (u64, 'z pmm_scheme) outcome" where
  "pp_alloc s = bindO (get_free_page s) (\<lambda>index s. pp_alloc_at index s)"

definition pp_free_at :: "u64 \<Rightarrow> 'z pmm_scheme \<Rightarrow> (unit, 'z pmm_scheme) outcome" where
  "pp_free_at page_index s =
     (if page_index > MAX_PAGES then
        bindO (page_to_ptr page_index s) (\<lambda>p s.
          Done () (k_err (''tried to free physical page %d at %p that was outside the '' @
            ''bounds of '' @ ''paged memory!'') [Num page_index, Num p] s))
      else bindO (page_free page_index s) (\<lambda>free s.
        if free then
          Done () (k_wrn ''tried to free physical page %d that was already free!'' [Num page_index] s)
        else set_page page_index FREE s))"

definition pp_free :: "u64 \<Rightarrow> 'z pmm_scheme \<Rightarrow> (unit, 'z pmm_scheme) outcome" where
  "pp_free ptr s = bindO (ptr_to_page ptr s) (\<lambda>page_index s. pp_free_at page_index s)"

section \<open>Set-up\<close>

text \<open>
  The body of the two reservation loops, and the indices \<open>lo..hi\<close> they run over. The address
  of the array \<open>page_bitmap\<close> is fixed by the linker and is an argument.
\<close>

definition reserve_page :: "u64 \<Rightarrow> 'z pmm_scheme \<Rightarrow> (unit, 'z pmm_scheme) outcome" where
  "reserve_page i s =
     (if i \<le> MAX_PAGES then
        bindO (page_free i s) (\<lambda>free s.
          set_page i USED (if \<not> free then s\<lparr>free_pages := free_pages s - 1\<rparr> else s))
      else Done () s)"

definition page_range :: "u64 \<Rightarrow> u64 \<Rightarrow> u64 list" where
  "page_range lo hi = map of_nat [unat lo ..< Suc (unat hi)]"

definition setup_pmm :: "u64 \<Rightarrow> 'z pmm_scheme \<Rightarrow> (unit, 'z pmm_scheme) outcome" where
  "setup_pmm bitmap_addr s =
     bindO (get_memory_descriptor s) (\<lambda>d s.
     bindO (generate_page_mapping (s\<lparr>pmm_desc := d\<rparr>)) (\<lambda>_ s.
     bindO (get_k_addr s) (\<lambda>k s.
     bindO (get_exe s) (\<lambda>exe_size s.
     let k_phys_start = physical_base k;
         k_phys_end = k_phys_start + ALIGN_UP exe_size PAGE_SIZE;
         k_first_page = k_phys_start div PAGE_SIZE;
         k_last_page = k_phys_end div PAGE_SIZE
     in bindO (for_each (page_range k_first_page k_last_page) reserve_page s) (\<lambda>_ s.
     let bitmap_phys_start = bitmap_addr - virtual_base k + physical_base k;
         bitmap_phys_end = bitmap_phys_start + MAX_PAGES;
         bitmap_first_page = bitmap_phys_start div PAGE_SIZE;
         bitmap_last_page = (bitmap_phys_end + PAGE_SIZE - 1) div PAGE_SIZE
     in bindO (for_each (page_range bitmap_first_page bitmap_last_page) reserve_page s) (\<lambda>_ s.
     bindO (get_hhdm s) (\<lambda>_ s.
     bindO (pp_alloc s) (\<lambda>_ s.
     bindO (get_hhdm s) (\<lambda>_ s.
     let p = TEST_STRING in
     if take 14 p \<noteq> take 14 TEST_STRING
     then panic ''Could not write and readback from physical memory!'' s
     else Done () s)))))))))"

section \<open>The set of pages in use\<close>

text \<open>
  The abstract view of the bitmap: the set of page indices whose bit is set. The operations are
  specified by how they change it.
\<close>

definition page_used :: "(u64 \<Rightarrow> u8) \<Rightarrow> u64 \<Rightarrow> bool" where
  "page_used bm i \<longleftrightarrow> bit (bm (i div 8)) (unat (i mod 8))"

definition pages_in_use :: "'z pmm_scheme \<Rightarrow> u64 set" where
  "pages_in_use s = {i. i < MAX_PAGES \<and> page_used (page_bitmap s) i}"

lemma in_bitmap_iff: "i div 8 < MAX_PAGES div 8 \<longleftrightarrow> i < MAX_PAGES"
proof -
  have "unat (i div 8) < 131072 \<longleftrightarrow> unat i < 1048576"
    by (simp add: unat_div div_less_iff_less_mult)
  then show ?thesis by (simp add: MAX_PAGES_def word_less_nat_alt)
qed

lemma page_free_eq:
  "page_free i s = (if i < MAX_PAGES then Done (\<not> page_used (page_bitmap s) i) s
    else Stop (Fault ''page_bitmap out of bounds'') s)"
  by (auto simp: page_free_def Let_def in_bitmap_iff page_used_def and_one_eq
      bit_iff_odd_drop_bit even_iff_mod_2_eq_zero)

lemma byte_bit_eq_iff:
  "i div 8 = j div 8 \<and> i mod 8 = j mod 8 \<longleftrightarrow> i = (j :: u64)"
  by (metis div_mult_mod_eq)

lemma mod8_less: "unat (i mod 8 :: u64) < 8"
  by (simp add: unat_mod)

lemma mod8_eq_iff: "unat (i mod 8 :: u64) = unat (j mod 8) \<longleftrightarrow> i mod 8 = j mod 8"
  by (simp add: word_unat_eq_iff)

lemma page_used_set:
  "page_used (bm(i div 8 := bm (i div 8) OR 2 ^ unat (i mod 8))) j \<longleftrightarrow>
    j = i \<or> page_used bm j"
  using mod8_less [of i] mod8_less [of j] byte_bit_eq_iff [of i j]
  by (auto simp: page_used_def bit_or_iff bit_exp_iff mod8_eq_iff)

lemma page_used_clear:
  "page_used (bm(i div 8 := bm (i div 8) AND NOT (2 ^ unat (i mod 8)))) j \<longleftrightarrow>
    j \<noteq> i \<and> page_used bm j"
  using mod8_less [of i] mod8_less [of j] byte_bit_eq_iff [of i j]
  by (auto simp: page_used_def bit_and_iff bit_not_iff bit_exp_iff mod8_eq_iff)

text \<open>What no operation after set-up changes: the boot responses, the table and the fields of the
  components above.\<close>

definition pmm_frame :: "'z pmm_scheme \<Rightarrow> 'z pmm_scheme \<Rightarrow> bool" where
  "pmm_frame s t \<longleftrightarrow> memmap_response t = memmap_response s \<and> k_addr_response t = k_addr_response s
     \<and> hhdm_response t = hhdm_response s \<and> exe_response t = exe_response s
     \<and> page_mappings t = page_mappings s \<and> pmm_desc t = pmm_desc s \<and> pmm.more t = pmm.more s"

lemma pmm_frame_refl [simp]: "pmm_frame s s"
  by (simp add: pmm_frame_def)

lemma pmm_frame_trans [trans]: "pmm_frame s t \<Longrightarrow> pmm_frame t u \<Longrightarrow> pmm_frame s u"
  by (simp add: pmm_frame_def)

lemma emit_pmm [simp]:
  "page_bitmap (emit e s) = page_bitmap s" "page_mappings (emit e s) = page_mappings s"
  "last_used_mapping (emit e s) = last_used_mapping s" "last_page_used (emit e s) = last_page_used s"
  "free_pages (emit e s) = free_pages s" "used_pages (emit e s) = used_pages s"
  "pmm_desc (emit e s) = pmm_desc s" "pmm.more (emit e s) = pmm.more s"
  "pages_in_use (emit e s) = pages_in_use s" "pmm_frame s (emit e s)"
  "current_mapping (emit e s) = current_mapping s"
  by (simp_all add: emit_def pages_in_use_def pmm_frame_def current_mapping_def)

lemma set_page_Done:
  assumes "set_page i free s = Done u t"
  shows "i < MAX_PAGES
    \<and> pages_in_use t = (if free then pages_in_use s - {i} else insert i (pages_in_use s))
    \<and> used_pages t = (if free then used_pages s - 1 else used_pages s + 1)
    \<and> free_pages t = (if free then free_pages s + 1 else free_pages s - 1)
    \<and> mem t = mem s \<and> last_used_mapping t = last_used_mapping s \<and> klog t = klog s \<and> pmm_frame s t"
  using assms
  by (auto simp: set_page_def Let_def in_bitmap_iff pages_in_use_def page_used_set page_used_clear
      pmm_frame_def split: if_splits)

lemma set_page_in_bounds: "i < MAX_PAGES \<Longrightarrow> \<exists>t. set_page i free s = Done () t"
  by (simp add: set_page_def Let_def in_bitmap_iff)

lemma find_free_from_Done:
  assumes "find_free_from i s = Done j t"
  shows "j < MAX_PAGES \<and> j \<notin> pages_in_use s \<and> t = s\<lparr>last_page_used := j\<rparr>"
  using assms
proof (induction i s rule: find_free_from.induct)
  case (1 i s)
  then show ?case
    by (subst (asm) (2) find_free_from.simps)
      (auto simp: page_free_eq bindO_Done_iff pages_in_use_def split: if_splits)
qed

lemma get_free_page_Done:
  assumes "get_free_page s = Done i t"
  shows "i < MAX_PAGES \<and> i \<notin> pages_in_use s \<and> t = s\<lparr>last_page_used := i\<rparr>"
  using assms
  by (auto simp: get_free_page_def Let_def bindO_Done_iff page_free_eq pages_in_use_def
      dest!: find_free_from_Done split: if_splits)

lemma search_mapping_Done:
  assumes "search_mapping hit wrapped s = Done r t"
  shows "t = s\<lparr>last_used_mapping := last_used_mapping t\<rparr> \<and>
    (\<forall>p. r = Some p \<longrightarrow> (\<exists>m. current_mapping t = Some m \<and> hit m = Some p))"
  using assms
proof (induction hit wrapped s rule: search_mapping.induct)
  case (1 hit wrapped s)
  show ?case
  proof (cases "current_mapping s")
    case None
    with "1.prems" show ?thesis by (simp add: search_mapping.simps [of hit wrapped s])
  next
    case (Some m)
    show ?thesis
    proof (cases "hit m")
      case hit: (Some p)
      with Some "1.prems" show ?thesis by (auto simp: search_mapping.simps [of hit wrapped s])
    next
      case miss: None
      consider (up) "last_used_mapping s \<le> ucast (chunk_count (pmm_desc s))"
        | (wrap) "\<not> last_used_mapping s \<le> ucast (chunk_count (pmm_desc s))" "\<not> wrapped"
        | (stop) "\<not> last_used_mapping s \<le> ucast (chunk_count (pmm_desc s))" "wrapped"
        by blast
      then show ?thesis
      proof cases
        case up
        with "1.prems" Some miss "1.IH"(1) [OF Some miss up] show ?thesis
          by (auto simp: search_mapping.simps [of hit wrapped s])
      next
        case wrap
        with "1.prems" Some miss "1.IH"(2) [OF Some miss wrap] show ?thesis
          by (auto simp: search_mapping.simps [of hit False s])
      next
        case stop
        with "1.prems" Some miss show ?thesis
          by (auto simp: search_mapping.simps [of hit True s])
      qed
    qed
  qed
qed

text \<open>The bookkeeping a translation leaves alone: everything but the search position and the log.\<close>

definition same_pages :: "'z pmm_scheme \<Rightarrow> 'z pmm_scheme \<Rightarrow> bool" where
  "same_pages s t \<longleftrightarrow> page_bitmap t = page_bitmap s \<and> used_pages t = used_pages s
     \<and> free_pages t = free_pages s \<and> mem t = mem s \<and> pmm_frame s t"

lemma same_pages_refl [simp]: "same_pages s s"
  by (simp add: same_pages_def)

lemma same_pages_emit [simp]: "same_pages s (emit e t) \<longleftrightarrow> same_pages s t"
  by (auto simp: same_pages_def pmm_frame_def)

lemma same_pages_trans [trans]: "same_pages s t \<Longrightarrow> same_pages t u \<Longrightarrow> same_pages s u"
  by (auto simp: same_pages_def intro: pmm_frame_trans)

lemma same_pages_in_use: "same_pages s t \<Longrightarrow> pages_in_use t = pages_in_use s"
  by (simp add: same_pages_def pages_in_use_def)

lemma same_pages_position [simp]:
  "same_pages s (s\<lparr>last_used_mapping := x\<rparr>)" "same_pages s (s\<lparr>last_page_used := y\<rparr>)"
  by (simp_all add: same_pages_def pmm_frame_def)

lemma search_mapping_same_pages:
  "search_mapping hit wrapped s = Done r t \<Longrightarrow> same_pages s t"
  using search_mapping_Done [of hit wrapped s r t] same_pages_position(1) by metis

lemma search_mapping_hit:
  "search_mapping hit wrapped s = Done (Some p) t \<Longrightarrow> \<exists>m. current_mapping t = Some m \<and> hit m = Some p"
  by (drule search_mapping_Done) blast

lemma page_to_ptr_Done:
  assumes "page_to_ptr i s = Done p t"
  shows "same_pages s t \<and> (p \<noteq> 0 \<longrightarrow> i \<le> MAX_PAGES \<and>
    (\<exists>m. current_mapping t = Some m \<and> page_hit i m = Some p))"
proof (cases "i > MAX_PAGES")
  case True
  with assms show ?thesis by (auto simp: page_to_ptr_def)
next
  case False
  then obtain r s' where run: "search_mapping (page_hit i) False s = Done r s'"
    and res: "(case r of Some ptr \<Rightarrow> Done ptr s'
      | None \<Rightarrow> Done 0 (k_err ''Failed to find mapping for physical page %d!'' [Num i] s')) = Done p t"
    using assms by (auto simp only: page_to_ptr_def if_False bindO_Done_iff)
  show ?thesis
    using search_mapping_same_pages [OF run] search_mapping_hit [of "page_hit i" False s p s'] run res False
    by (cases r) auto
qed

lemma ptr_to_page_Done:
  assumes "ptr_to_page p s = Done i t"
  shows "same_pages s t"
proof (cases "p = 0 \<or> p mod PAGE_SIZE \<noteq> 0")
  case True
  with assms show ?thesis by (auto simp: ptr_to_page_def split: if_splits)
next
  case False
  then have "ptr_to_page p s = bindO (search_mapping (ptr_hit p) False s) (\<lambda>r s.
      case r of Some page \<Rightarrow> Done page s | None \<Rightarrow> Done (-1) s)"
    by (simp only: ptr_to_page_def if_False de_Morgan_disj not_not simp_thms)
  from assms [unfolded this] obtain r s' where
    run: "search_mapping (ptr_hit p) False s = Done r s'"
    and res: "(case r of Some page \<Rightarrow> Done page s' | None \<Rightarrow> Done (- 1) s') = Done i t"
    by (rule bindO_DoneE)
  show ?thesis
    using search_mapping_same_pages [OF run] res by (cases r) auto
qed

text \<open>
  The two changes an operation can make to the pool: it takes a page, whose frame \<open>p\<close> it clears
  through the direct map, or it gives one back.
\<close>

definition takes_page :: "u64 \<Rightarrow> u64 \<Rightarrow> 'z pmm_scheme \<Rightarrow> 'z pmm_scheme \<Rightarrow> bool" where
  "takes_page i p s t \<longleftrightarrow>
     i < MAX_PAGES \<and> i \<notin> pages_in_use s \<and> pages_in_use t = insert i (pages_in_use s)
     \<and> used_pages t = used_pages s + 1 \<and> free_pages t = free_pages s - 1
     \<and> (\<exists>h. hhdm_response s = Some h \<and> mem t = filled (p + h) 0 PAGE_SIZE (mem s))
     \<and> (p \<noteq> 0 \<longrightarrow> (\<exists>m. current_mapping t = Some m \<and> page_hit i m = Some p))
     \<and> pmm_frame s t"

definition gives_page :: "u64 \<Rightarrow> 'z pmm_scheme \<Rightarrow> 'z pmm_scheme \<Rightarrow> bool" where
  "gives_page i s t \<longleftrightarrow>
     i \<in> pages_in_use s \<and> pages_in_use t = pages_in_use s - {i}
     \<and> used_pages t = used_pages s - 1 \<and> free_pages t = free_pages s + 1
     \<and> mem t = mem s \<and> pmm_frame s t"

text \<open>
  An allocation at a given index either takes that page, which was free, and clears its frame, or
  returns null and takes nothing. (The null pointer is also returned, with the page taken, when
  no mapping holds the index.)
\<close>

lemma pp_alloc_at_Done:
  assumes "pp_alloc_at i s = Done p t"
  shows "takes_page i p s t \<or> (p = 0 \<and> same_pages s t)"
proof -
  obtain k where k: "k_addr_response s = Some k"
    using assms by (auto simp: pp_alloc_at_def bindO_Done_iff)
  show ?thesis
  proof (cases "i < physical_base k \<and> i \<le> MAX_PAGES \<and> i \<notin> pages_in_use s")
    case False
    then show ?thesis
      using assms k
      by (auto simp: pp_alloc_at_def bindO_Done_iff page_free_eq pages_in_use_def
          split: if_splits dest: page_to_ptr_Done)
  next
    case True
    then obtain t1 t2 h where run: "set_page i USED s = Done () t1" "page_to_ptr i t1 = Done p t2"
      and h: "hhdm_response t2 = Some h" and t: "t = t2\<lparr>mem := filled (p + h) 0 PAGE_SIZE (mem t2)\<rparr>"
      using assms k
      by (auto simp: pp_alloc_at_def bindO_Done_iff page_free_eq pages_in_use_def split: if_splits)
    note 1 = set_page_Done [OF run(1)] and 2 = page_to_ptr_Done [OF run(2)]
    have frame: "pmm_frame s t"
      using 1 2 by (auto simp: t same_pages_def pmm_frame_def)
    have "current_mapping t = current_mapping t2" by (simp add: t current_mapping_def)
    moreover have "pages_in_use t = pages_in_use t2" by (simp add: t pages_in_use_def)
    moreover have "hhdm_response s = Some h"
      using 1 2 h by (auto simp: same_pages_def pmm_frame_def)
    ultimately show ?thesis
      using 1 2 True frame same_pages_in_use [of t1 t2]
      by (auto simp: t USED_def same_pages_def takes_page_def)
  qed
qed

lemma same_pages_in_frame: "same_pages s t \<Longrightarrow> pmm_frame s t"
  by (simp add: same_pages_def)

text \<open>A change of the search position before an operation changes nothing it is specified by.\<close>

lemma takes_page_after_same:
  "same_pages s s' \<Longrightarrow> takes_page i p s' t \<Longrightarrow> takes_page i p s t"
  unfolding takes_page_def
  by (frule same_pages_in_use) (auto simp: same_pages_def pmm_frame_def)

lemma gives_page_after_same:
  "same_pages s s' \<Longrightarrow> gives_page i s' t \<Longrightarrow> gives_page i s t"
  unfolding gives_page_def
  by (frule same_pages_in_use) (auto simp: same_pages_def pmm_frame_def)

lemma pp_alloc_Done:
  assumes "pp_alloc s = Done p t"
  shows "(\<exists>i. takes_page i p s t) \<or> (p = 0 \<and> same_pages s t)"
proof -
  obtain i s' where i: "get_free_page s = Done i s'" and run: "pp_alloc_at i s' = Done p t"
    using assms by (auto simp: pp_alloc_def bindO_Done_iff)
  have "same_pages s s'" using get_free_page_Done [OF i] by auto
  then show ?thesis
    using pp_alloc_at_Done [OF run] by (blast intro: takes_page_after_same same_pages_trans)
qed

lemma pp_free_at_Done:
  assumes "pp_free_at i s = Done u t"
  shows "gives_page i s t \<or> same_pages s t"
  using assms
  by (auto simp: pp_free_at_def bindO_Done_iff page_free_eq pages_in_use_def FREE_def gives_page_def
      split: if_splits dest!: page_to_ptr_Done set_page_Done)

lemma pp_free_Done:
  assumes "pp_free p s = Done u t"
  shows "(\<exists>i. gives_page i s t) \<or> same_pages s t"
proof -
  obtain i s' where i: "ptr_to_page p s = Done i s'" and run: "pp_free_at i s' = Done u t"
    using assms by (auto simp: pp_free_def bindO_Done_iff)
  show ?thesis
    using pp_free_at_Done [OF run] ptr_to_page_Done [OF i]
    by (blast intro: gives_page_after_same same_pages_trans)
qed

section \<open>Sequences of operations\<close>

text \<open>
  The operations other components call after set-up, as one step each. The two counters and the
  bitmap change together; \<open>page_account\<close> is what they keep.
\<close>

inductive pmm_step :: "'z pmm_scheme \<Rightarrow> 'z pmm_scheme \<Rightarrow> bool" where
  step_alloc: "pp_alloc s = Done p t \<Longrightarrow> pmm_step s t"
| step_alloc_at: "pp_alloc_at i s = Done p t \<Longrightarrow> pmm_step s t"
| step_free: "pp_free p s = Done u t \<Longrightarrow> pmm_step s t"
| step_free_at: "pp_free_at i s = Done u t \<Longrightarrow> pmm_step s t"

inductive_cases pmm_stepE: "pmm_step s t"

definition page_account :: "u64 \<Rightarrow> u64 \<Rightarrow> 'z pmm_scheme \<Rightarrow> bool" where
  "page_account d n s \<longleftrightarrow>
     used_pages s = of_nat (card (pages_in_use s)) + d \<and> free_pages s + used_pages s = n"

lemma finite_pages_in_use [simp]: "finite (pages_in_use s)"
  by (rule finite_subset [of _ UNIV]) simp_all

lemma page_account_take: "takes_page i p s t \<Longrightarrow> page_account d n s \<Longrightarrow> page_account d n t"
  by (auto simp: page_account_def takes_page_def)

lemma page_account_give:
  assumes "gives_page i s t" and "page_account d n s"
  shows "page_account d n t"
proof -
  have "card (pages_in_use s) = Suc (card (pages_in_use t))"
    using assms(1) card_Suc_Diff1 [OF finite_pages_in_use, of i s] by (simp add: gives_page_def)
  then show ?thesis using assms unfolding page_account_def gives_page_def by clarsimp
qed

lemma page_account_same: "same_pages s t \<Longrightarrow> page_account d n s \<Longrightarrow> page_account d n t"
  unfolding page_account_def by (frule same_pages_in_use) (clarsimp simp: same_pages_def)

interpretation pp_alloc_keeps: keeps_invariant "page_account d n" pp_alloc for d n
  by unfold_locales (blast dest: pp_alloc_Done intro: page_account_take page_account_same)

interpretation pp_alloc_at_keeps: keeps_invariant "page_account d n" "pp_alloc_at i" for d n i
  by unfold_locales (blast dest: pp_alloc_at_Done intro: page_account_take page_account_same)

interpretation pp_free_keeps: keeps_invariant "page_account d n" "pp_free p" for d n p
  by unfold_locales (blast dest: pp_free_Done intro: page_account_give page_account_same)

interpretation pp_free_at_keeps: keeps_invariant "page_account d n" "pp_free_at i" for d n i
  by unfold_locales (blast dest: pp_free_at_Done intro: page_account_give page_account_same)

lemmas pmm_op_keeps = pp_alloc_keeps.op_keeps pp_alloc_at_keeps.op_keeps
  pp_free_keeps.op_keeps pp_free_at_keeps.op_keeps

lemma pmm_step_account: "pmm_step s t \<Longrightarrow> page_account d n s \<Longrightarrow> page_account d n t"
  by (erule pmm_stepE) (erule (1) pmm_op_keeps [rotated])+

lemma pmm_step_frame: "pmm_step s t \<Longrightarrow> pmm_frame s t"
  by (erule pmm_stepE)
    (auto dest!: pp_alloc_Done pp_alloc_at_Done pp_free_Done pp_free_at_Done
      simp: takes_page_def gives_page_def same_pages_def)

section \<open>Properties\<close>

text \<open>A small pool: the table that \<open>generate_page_mapping\<close> computes for the example machine.\<close>

definition example_pool :: pmm where
  "example_pool = machine.extend example_machine (pmm.fields (\<lambda>_. 0)
     (replicate MAX_SEGMENTS (page_mapping.make 0 0 0)) 0 0 0 0
     \<lparr>md_length = 0x7F9E000, chunk_count = 2,
        chunk_ptr = [\<lparr>chunk_base = 0x1000, chunk_bounds = 0x9F000\<rparr>,
          \<lparr>chunk_base = 0x100000, chunk_bounds = 0x8000000\<rparr>]\<rparr>)"

lemma example_pool_sel [simp]:
  "page_bitmap example_pool = (\<lambda>_. 0)" "last_used_mapping example_pool = 0"
  "last_page_used example_pool = 0" "free_pages example_pool = 0" "used_pages example_pool = 0"
  "hhdm_response example_pool = Some 0xFFFF800000000000"
  "k_addr_response example_pool = Some \<lparr>physical_base = 0x7000000, virtual_base = 0xFFFFFFFF80000000\<rparr>"
  "chunk_count (pmm_desc example_pool) = 2" "pages_in_use example_pool = {}"
  by (simp_all add: example_pool_def machine.defs pmm.defs example_machine_def pages_in_use_def
      page_used_def)

definition example_pmm :: pmm where
  "example_pmm = example_pool\<lparr>page_mappings := page_mapping.make 0x100000 0 4096 #
     page_mapping.make 0x100000 159 32927 # replicate 30 (page_mapping.make 0 0 0),
     free_pages := 32672\<rparr>"

lemma table_two: "(replicate 32 x)[0 := a, Suc 0 := b] = a # b # replicate 30 x"
  by (simp add: numeral_eq_Suc)

lemma example_mapping: "generate_page_mapping example_pool = Done () example_pmm"
  by (simp add: generate_page_mapping_def example_pmm_def kernel_consts ALIGN_UP_def
      example_pool_def machine.defs pmm.defs page_mapping.make_def example_machine_def
      table_two)

text \<open>A table entry whose index range and segment do not wrap around and that begins at a page
  boundary.\<close>

definition mapping_ok :: "page_mapping \<Rightarrow> bool" where
  "mapping_ok m \<longleftrightarrow> unat (pm_offset m) mod 4096 = 0 \<and> page_start_index m \<le> page_end_index m \<and>
     unat (pm_offset m) + (unat (page_end_index m) - unat (page_start_index m)) * 4096 < 2 ^ 64"

lemma unat_mult_page: "n * 4096 < 2 ^ 64 \<Longrightarrow> unat (of_nat n * PAGE_SIZE) = n * 4096"
  by (simp add: PAGE_SIZE_def unat_word_ariths unat_of_nat take_bit_nat_eq_self)

lemma page_hit_ptr_hit:
  assumes hit: "page_hit i m = Some p" and ok: "mapping_ok m"
  shows "ptr_hit p m = Some i \<and> p mod PAGE_SIZE = 0 \<and> p \<noteq> 0"
proof -
  define a b k where "a = unat (pm_offset m)" and "b = unat (page_end_index m) - unat (page_start_index m)"
    and "k = unat i - unat (page_start_index m)"
  have lt: "page_start_index m < i" "i < page_end_index m"
    and p: "p = pm_offset m + (i - page_start_index m) * PAGE_SIZE"
    using hit by (auto simp: page_hit_def split: if_splits)
  have k: "0 < k" "k < b" using lt by (simp_all add: k_def b_def word_less_nat_alt)
  have ab: "a mod 4096 = 0" "a + b * 4096 < 2 ^ 64" using ok by (simp_all add: mapping_ok_def a_def b_def)
  have ik: "i - page_start_index m = of_nat k" "page_end_index m - page_start_index m = of_nat b"
    using lt by (simp_all add: k_def b_def word_less_nat_alt of_nat_diff)
  have seg: "unat (of_nat b * PAGE_SIZE) = b * 4096" "unat (of_nat k * PAGE_SIZE) = k * 4096"
    using ab k by (auto intro!: unat_mult_page)
  have up: "unat p = a + k * 4096"
    using ab k seg(2) by (simp add: p ik unat_word_ariths(1) a_def)
  have ue: "unat (pm_offset m + of_nat b * PAGE_SIZE) = a + b * 4096"
    using ab by (subst unat_word_ariths(1)) (simp add: seg a_def)
  have off: "p - pm_offset m = of_nat k * PAGE_SIZE" by (simp add: p ik)
  have "unat ((p - pm_offset m) div PAGE_SIZE) = k"
    by (simp only: off unat_div seg(2)) (simp add: PAGE_SIZE_def)
  then have "(p - pm_offset m) div PAGE_SIZE = i - page_start_index m"
    using lt by (simp add: word_unat_eq_iff k_def word_less_nat_alt unat_sub_if')
  moreover have "p > pm_offset m" "p < pm_offset m + of_nat b * PAGE_SIZE"
    using up ue k by (simp_all add: word_less_nat_alt a_def)
  ultimately have "ptr_hit p m = Some i" by (simp add: ptr_hit_def Let_def ik(2))
  moreover have "unat (p mod PAGE_SIZE) = 0"
    using ab(1) by (simp add: unat_mod up PAGE_SIZE_def mod_add_eq [symmetric])
  moreover have "p \<noteq> 0" using up k by auto
  ultimately show ?thesis by (simp add: unat_eq_0)
qed

lemma search_mapping_cached:
  "current_mapping s = Some m \<Longrightarrow> hit m = Some p \<Longrightarrow> search_mapping hit wrapped s = Done (Some p) s"
  by (simp add: search_mapping.simps)

lemma ptr_to_page_cached:
  assumes "current_mapping s = Some m" and "mapping_ok m" and "page_hit i m = Some p"
  shows "ptr_to_page p s = Done i s"
  using page_hit_ptr_hit [OF assms(3,2)] search_mapping_cached [where hit = "ptr_hit p", OF assms(1)]
  by (simp add: ptr_to_page_def)

lemma current_mapping_mem:
  "current_mapping s = Some m \<Longrightarrow> length (page_mappings s) = MAX_SEGMENTS \<Longrightarrow> m \<in> set (page_mappings s)"
  by (auto simp: current_mapping_def split: if_splits)

lemma pp_free_at_in_use:
  assumes "i \<in> pages_in_use s"
  shows "\<exists>t. pp_free_at i s = Done () t \<and> gives_page i s t"
proof -
  have i: "i < MAX_PAGES" "page_used (page_bitmap s) i" using assms by (simp_all add: pages_in_use_def)
  obtain t where t: "set_page i FREE s = Done () t" using set_page_in_bounds [OF i(1)] by blast
  then have "pp_free_at i s = Done () t"
    using i by (simp add: pp_free_at_def page_free_eq less_not_sym)
  with set_page_Done [OF t] assms show ?thesis by (auto simp: gives_page_def FREE_def)
qed

text \<open>
  C1. The page counters stay in step with the bitmap: along every sequence of allocations and
  releases, by index or by address, successful or not, the difference between \<open>used_pages\<close> and
  the number of pages marked in the bitmap does not change, neither does the sum of the two
  counters, and the page table and the boot responses are left alone.
\<close>

theorem page_accounting:
  assumes "pmm_step\<^sup>*\<^sup>* s t"
  shows "used_pages t - of_nat (card (pages_in_use t)) = used_pages s - of_nat (card (pages_in_use s))
    \<and> free_pages t + used_pages t = free_pages s + used_pages s \<and> pmm_frame s t"
proof -
  have "page_account (used_pages s - of_nat (card (pages_in_use s))) (free_pages s + used_pages s) t
      \<and> pmm_frame s t"
    using assms
  proof (induction rule: rtranclp_induct)
    case base
    show ?case by (simp add: page_account_def)
  next
    case (step t u)
    then show ?case using pmm_step_account [OF step(2)] pmm_step_frame [OF step(2)]
      by (blast intro: pmm_frame_trans)
  qed
  then show ?thesis
    unfolding page_account_def by (elim conjE, intro conjI) (simp, assumption+)
qed


lemma pp_alloc_at_run:
  assumes "k_addr_response s = Some k" and "hhdm_response s = Some h" and "i < physical_base k"
    and "i < MAX_PAGES" and "i \<notin> pages_in_use s"
    and "search_mapping (page_hit i) False (s\<lparr>page_bitmap := (page_bitmap s)(i div 8 :=
        page_bitmap s (i div 8) OR 2 ^ unat (i mod 8)), last_page_used := i,
        free_pages := free_pages s - 1, used_pages := used_pages s + 1\<rparr>) = Done (Some p) t"
  shows "pp_alloc_at i s = Done p (t\<lparr>mem := filled (p + h) 0 PAGE_SIZE (mem t)\<rparr>)"
proof -
  have "hhdm_response t = Some h"
    using search_mapping_same_pages [OF assms(6)] assms(2) by (simp add: same_pages_def pmm_frame_def)
  then show ?thesis
    using assms
    by (auto simp: pp_alloc_at_def page_free_eq pages_in_use_def set_page_def Let_def in_bitmap_iff
        USED_def page_to_ptr_def)
qed

lemmas example_run = pp_alloc_at_run [where h = "0xFFFF800000000000"]
  search_mapping.simps current_mapping_def page_hit_def kernel_consts pages_in_use_def page_used_def

lemma example_pmm_sel [simp]:
  "page_bitmap example_pmm = (\<lambda>_. 0)" "last_used_mapping example_pmm = 0"
  "last_page_used example_pmm = 0" 
  "hhdm_response example_pmm = Some 0xFFFF800000000000"
  "k_addr_response example_pmm = Some \<lparr>physical_base = 0x7000000, virtual_base = 0xFFFFFFFF80000000\<rparr>"
  "chunk_count (pmm_desc example_pmm) = 2" "pages_in_use example_pmm = {}"
  "page_mappings example_pmm = page_mapping.make 0x100000 0 4096 #
     page_mapping.make 0x100000 159 32927 # replicate 30 (page_mapping.make 0 0 0)"
  using example_pool_sel by (simp_all add: example_pmm_def pages_in_use_def page_used_def)

lemma example_alloc: "\<exists>t. pp_alloc example_pmm = Done 0x101000 t"
  by (simp add: pp_alloc_def get_free_page_def page_free_eq example_run page_mapping.make_def)

theorem page_accounting_witness:
  "\<exists>t. pp_alloc example_pmm = Done 0x101000 t \<and> free_pages t + used_pages t = 32672"
proof -
  obtain t where t: "pp_alloc example_pmm = Done 0x101000 t" using example_alloc by blast
  then have "pmm_step\<^sup>*\<^sup>* example_pmm t" by (blast intro: step_alloc)
  from page_accounting [OF this] have "free_pages t + used_pages t = 32672"
    by (simp add: example_pmm_def)
  with t show ?thesis by blast
qed


text \<open>The search reaches every free page, and runs off the bitmap when there is none.\<close>

lemma find_free_from_total:
  "i \<le> j \<Longrightarrow> j < MAX_PAGES \<Longrightarrow> j \<notin> pages_in_use s \<Longrightarrow> \<exists>k t. find_free_from i s = Done k t"
proof (induction i s rule: find_free_from.induct)
  case (1 i s)
  have le: "i \<le> MAX_PAGES" "i < MAX_PAGES" using "1.prems" by auto
  show ?case
  proof (cases "i \<in> pages_in_use s")
    case False
    with le show ?thesis
      by (simp add: find_free_from.simps [of i] page_free_eq pages_in_use_def)
  next
    case True
    then have used: "page_free i s = Done False s"
      using le by (simp add: page_free_eq pages_in_use_def)
    have "i + 1 \<le> j"
      using True "1.prems" le(2) by (metis inc_le_iff_less inc_less_eq_iff order_le_less)
    then show ?thesis
      using "1.IH" [OF le(1) used] "1.prems" used le by (simp add: find_free_from.simps [of i])
  qed
qed

lemma find_free_from_full:
  "i \<le> MAX_PAGES \<Longrightarrow> \<forall>j. i \<le> j \<and> j < MAX_PAGES \<longrightarrow> j \<in> pages_in_use s \<Longrightarrow>
    \<exists>t. find_free_from i s = Stop (Fault ''page_bitmap out of bounds'') t"
proof (induction i s rule: find_free_from.induct)
  case (1 i s)
  show ?case
  proof (cases "i < MAX_PAGES")
    case False
    with "1.prems"(1) have "i = MAX_PAGES" by simp
    then show ?thesis by (subst find_free_from.simps) (simp add: page_free_eq)
  next
    case True
    then have used: "page_free i s = Done False s"
      using "1.prems"(2) by (simp add: page_free_eq pages_in_use_def)
    have up: "i + 1 \<le> MAX_PAGES" using True by (simp add: inc_less_eq_iff)
    have "\<forall>j. i + 1 \<le> j \<and> j < MAX_PAGES \<longrightarrow> j \<in> pages_in_use s"
      using "1.prems"(2) unat_inc [OF True] by (auto simp: word_le_nat_alt)
    then show ?thesis
      using "1.IH" [OF "1.prems"(1) used _ up] "1.prems"(1) used
      by (simp add: find_free_from.simps [of i])
  qed
qed

text \<open>
  C26. The page search is complete: with the kernel placed below the last page of the bitmap,
  \<open>get_free_page\<close> returns a page below \<open>MAX_PAGES\<close> that is not in use whenever one exists above
  index 0; when none exists, it reads past the end of the bitmap (its loop includes the index
  \<open>MAX_PAGES\<close>), so the panic for exhausted memory is never reached.
\<close>

theorem free_page_search_complete:
  assumes "k_addr_response s = Some k" and "physical_base k div PAGE_SIZE < MAX_PAGES"
  shows "if \<exists>j. 1 \<le> j \<and> j < MAX_PAGES \<and> j \<notin> pages_in_use s
    then \<exists>i. i < MAX_PAGES \<and> i \<notin> pages_in_use s \<and> get_free_page s = Done i (s\<lparr>last_page_used := i\<rparr>)
    else \<exists>t. get_free_page s = Stop (Fault ''page_bitmap out of bounds'') t"
proof -
  define l where "l = (if last_page_used s \<ge> physical_base k div PAGE_SIZE
    \<or> last_page_used s \<ge> MAX_PAGES then 1 else last_page_used s)"
  have l: "l + 1 < MAX_PAGES"
  proof (cases "l = 1")
    case True
    then show ?thesis by (simp add: MAX_PAGES_def)
  next
    case False
    then have "l < physical_base k div PAGE_SIZE" by (auto simp: l_def split: if_splits)
    then show ?thesis using assms(2) by (metis inc_less_eq_iff le_less_trans)
  qed
  have "1 \<le> l + 1"
  proof -
    have "l < MAX_PAGES" using l by (auto simp: l_def kernel_consts not_le)
    then have "l + 1 \<noteq> 0" using word_inc_nonzero [of l MAX_PAGES] by (simp add: add.commute)
    then show ?thesis by (simp add: word_le_nat_alt unat_gt_0 Suc_le_eq)
  qed
  let ?s = "s\<lparr>last_page_used := l + 1\<rparr>"
  have in_use: "pages_in_use ?s = pages_in_use s" by (simp add: pages_in_use_def)
  have run: "get_free_page s = (if l + 1 \<in> pages_in_use s then find_free_from 1 ?s else Done (l + 1) ?s)"
    using assms(1) l by (auto simp: get_free_page_def Let_def l_def page_free_eq pages_in_use_def)
  show ?thesis
  proof (cases "\<exists>j. 1 \<le> j \<and> j < MAX_PAGES \<and> j \<notin> pages_in_use s")
    case True
    then obtain j where j: "1 \<le> j" "j < MAX_PAGES" "j \<notin> pages_in_use s" by blast
    have "\<exists>i t. get_free_page s = Done i t"
      using run find_free_from_total [of 1 j ?s] in_use j by auto
    then obtain i t where "get_free_page s = Done i t" by blast
    with get_free_page_Done [OF this] True show ?thesis by auto
  next
    case False
    then have "l + 1 \<in> pages_in_use s" using l \<open>1 \<le> l + 1\<close> by blast
    with False show ?thesis
      using run find_free_from_full [of 1 ?s] in_use by (auto simp: kernel_consts)
  qed
qed

theorem free_page_search_complete_witness:
  "\<exists>i. i \<notin> pages_in_use example_pmm \<and> get_free_page example_pmm = Done i (example_pmm\<lparr>last_page_used := i\<rparr>)"
proof -
  have "\<exists>j. 1 \<le> j \<and> j < MAX_PAGES \<and> j \<notin> pages_in_use example_pmm"
    by (rule exI [of _ 1]) (simp add: kernel_consts)
  then show ?thesis
    using free_page_search_complete [OF example_pmm_sel(5)] by (auto simp: kernel_consts)
qed

text \<open>
  The table \<open>generate_page_mapping\<close> builds: chunk \<open>k\<close> gets the page indices after those of the
  chunks before it; the offset is at least one mebibyte.
\<close>

definition chunk_span :: "memory_chunk \<Rightarrow> u64" where
  "chunk_span c = (chunk_bounds c - chunk_base c) div PAGE_SIZE"

definition pages_before :: "memory_chunk list \<Rightarrow> nat \<Rightarrow> u64" where
  "pages_before cs k = (\<Sum>c \<leftarrow> take k cs. chunk_span c + 1)"

lemma pages_before_Suc [simp]: "pages_before (c # cs) (Suc k) = chunk_span c + 1 + pages_before cs k"
  by (simp add: pages_before_def)

lemma pages_before_0 [simp]: "pages_before cs 0 = 0"
  by (simp add: pages_before_def)

lemma map_chunks_Done:
  assumes "i + length cs \<le> MAX_SEGMENTS" and "length (page_mappings s) = MAX_SEGMENTS"
  shows "\<exists>t. map_chunks cs i n s = Done (n + pages_before cs (length cs)) t
    \<and> t = s\<lparr>page_mappings := page_mappings t\<rparr> \<and> length (page_mappings t) = MAX_SEGMENTS
    \<and> (\<forall>j < i. page_mappings t ! j = page_mappings s ! j)
    \<and> (\<forall>k < length cs. page_mappings t ! (i + k) =
        \<lparr>pm_offset = max (chunk_base (cs ! k)) 0x100000, page_start_index = n + pages_before cs k,
         page_end_index = n + pages_before cs k + ALIGN_UP (chunk_span (cs ! k)) PAGE_SIZE\<rparr>)"
  using assms
proof (induction cs arbitrary: i n s)
  case Nil
  then show ?case by simp
next
  case (Cons c cs)
  let ?m = "\<lparr>pm_offset = max (chunk_base c) 0x100000, page_start_index = n,
    page_end_index = n + ALIGN_UP (chunk_span c) PAGE_SIZE\<rparr>"
  let ?s = "s\<lparr>page_mappings := (page_mappings s)[i := ?m]\<rparr>"
  have "Suc i + length cs \<le> MAX_SEGMENTS" "length (page_mappings ?s) = MAX_SEGMENTS"
    using Cons.prems by simp_all
  from Cons.IH [OF this, of "n + (chunk_span c + 1)"] obtain t where
    t: "map_chunks cs (Suc i) (n + (chunk_span c + 1)) ?s =
        Done (n + (chunk_span c + 1) + pages_before cs (length cs)) t"
      "t = ?s\<lparr>page_mappings := page_mappings t\<rparr>" "length (page_mappings t) = MAX_SEGMENTS"
    and below: "\<forall>j < Suc i. page_mappings t ! j = page_mappings ?s ! j"
    and above: "\<forall>k < length cs. page_mappings t ! (Suc i + k) =
        \<lparr>pm_offset = max (chunk_base (cs ! k)) 0x100000,
         page_start_index = n + (chunk_span c + 1) + pages_before cs k,
         page_end_index = n + (chunk_span c + 1) + pages_before cs k + ALIGN_UP (chunk_span (cs ! k)) PAGE_SIZE\<rparr>"
    by blast
  have "map_chunks (c # cs) i n s = map_chunks cs (Suc i) (n + (chunk_span c + 1)) ?s"
    using Cons.prems(1) by (auto simp: Let_def chunk_span_def max_def)
  then have run: "map_chunks (c # cs) i n s = Done (n + pages_before (c # cs) (length (c # cs))) t"
    using t(1) by (simp add: ac_simps)
  have first: "page_mappings t ! i = ?m" using below Cons.prems by simp
  show ?case
  proof (intro exI conjI allI impI)
    fix k assume k: "k < length (c # cs)"
    show "page_mappings t ! (i + k) =
        \<lparr>pm_offset = max (chunk_base ((c # cs) ! k)) 0x100000, page_start_index = n + pages_before (c # cs) k,
         page_end_index = n + pages_before (c # cs) k + ALIGN_UP (chunk_span ((c # cs) ! k)) PAGE_SIZE\<rparr>"
    proof (cases k)
      case 0
      then show ?thesis using first by simp
    next
      case (Suc l)
      with above [rule_format, of l] k show ?thesis by (simp add: ac_simps)
    qed
  next
    show "t = s\<lparr>page_mappings := page_mappings t\<rparr>" using t(2) by simp
  qed (use run t(3) below in auto)
qed

lemma map_chunks_overflow:
  "i \<le> MAX_SEGMENTS \<Longrightarrow> MAX_SEGMENTS < i + length cs \<Longrightarrow>
    \<exists>t. map_chunks cs i n s = Stop (Fault ''page_mappings out of bounds'') t"
  by (induction cs arbitrary: i n s) (auto simp: Let_def not_less_eq_eq)

text \<open>
  C25. The page table is built in full or not at all: with at most \<open>MAX_SEGMENTS\<close> chunks, entry
  \<open>k\<close> covers the indices that follow the pages of the chunks before, rounded up to a multiple of
  the page size, from the chunk's base or one mebibyte, and \<open>free_pages\<close> is the number of pages
  of all chunks, one extra per chunk included; with more chunks (the descriptor holds up to
  \<open>MAX_CHUNKS\<close>) the function writes past the end of the table.
\<close>

theorem page_table_generated:
  assumes "length (page_mappings s) = MAX_SEGMENTS"
    and "cs = take (unat (chunk_count (pmm_desc s))) (chunk_ptr (pmm_desc s))"
  shows "if length cs \<le> MAX_SEGMENTS
    then \<exists>t. generate_page_mapping s = Done () t \<and> free_pages t = pages_before cs (length cs)
      \<and> (\<forall>k < length cs. page_mappings t ! k =
          \<lparr>pm_offset = max (chunk_base (cs ! k)) 0x100000, page_start_index = pages_before cs k,
           page_end_index = pages_before cs k + ALIGN_UP (chunk_span (cs ! k)) PAGE_SIZE\<rparr>)
      \<and> page_bitmap t = page_bitmap s \<and> used_pages t = used_pages s
    else \<exists>t. generate_page_mapping s = Stop (Fault ''page_mappings out of bounds'') t"
proof (cases "length cs \<le> MAX_SEGMENTS")
  case True
  obtain t where t: "map_chunks cs 0 0 s = Done (0 + pages_before cs (length cs)) t"
      "t = s\<lparr>page_mappings := page_mappings t\<rparr>"
    and entries: "\<forall>k < length cs. page_mappings t ! (0 + k) =
        \<lparr>pm_offset = max (chunk_base (cs ! k)) 0x100000, page_start_index = 0 + pages_before cs k,
         page_end_index = 0 + pages_before cs k + ALIGN_UP (chunk_span (cs ! k)) PAGE_SIZE\<rparr>"
    using map_chunks_Done [of 0 cs s 0] True assms(1) by auto
  have "page_bitmap t = page_bitmap s" "used_pages t = used_pages s"
    by (subst t(2), simp)+
  with t(1) entries True show ?thesis by (simp add: generate_page_mapping_def assms(2))
next
  case False
  then obtain t where "map_chunks cs 0 0 s = Stop (Fault ''page_mappings out of bounds'') t"
    using map_chunks_overflow [of 0 cs 0 s] by auto
  with False show ?thesis by (simp add: generate_page_mapping_def assms(2) [symmetric])
qed

theorem page_table_generated_witness:
  "\<exists>t. generate_page_mapping example_pool = Done () t \<and> free_pages t = 32672"
proof -
  let ?cs = "[\<lparr>chunk_base = 0x1000, chunk_bounds = 0x9F000\<rparr>,
      \<lparr>chunk_base = 0x100000, chunk_bounds = 0x8000000\<rparr>]"
  have "length (page_mappings example_pool) = MAX_SEGMENTS"
    and "?cs = take (unat (chunk_count (pmm_desc example_pool))) (chunk_ptr (pmm_desc example_pool))"
    by (simp_all add: example_pool_def machine.defs pmm.defs)
  moreover have "length ?cs \<le> MAX_SEGMENTS" by (simp add: kernel_consts)
  moreover have "pages_before ?cs (length ?cs) = 32672"
    by (simp add: pages_before_def chunk_span_def kernel_consts)
  ultimately show ?thesis using page_table_generated [of example_pool ?cs] by auto
qed


text \<open>The reservation loops of \<open>setup_pmm\<close>.\<close>

lemma reserve_page_Done:
  assumes "i < MAX_PAGES"
  shows "\<exists>t. reserve_page i s = Done () t \<and> pages_in_use t = insert i (pages_in_use s)
    \<and> used_pages t = used_pages s + 1
    \<and> free_pages t = free_pages s - 1 - of_nat (card ({i} \<inter> pages_in_use s))"
proof -
  let ?s = "if i \<in> pages_in_use s then s\<lparr>free_pages := free_pages s - 1\<rparr> else s"
  have "reserve_page i s = set_page i USED ?s"
    using assms by (auto simp: reserve_page_def page_free_eq pages_in_use_def)
  moreover obtain t where t: "set_page i USED ?s = Done () t" using set_page_in_bounds [OF assms] by blast
  moreover have "pages_in_use ?s = pages_in_use s" by (simp add: pages_in_use_def)
  ultimately show ?thesis using set_page_Done [OF t] by (auto simp: USED_def)
qed

lemma reserve_pages_Done:
  "distinct is \<Longrightarrow> \<forall>i \<in> set is. i < MAX_PAGES \<Longrightarrow>
    \<exists>t. for_each is reserve_page s = Done () t \<and> pages_in_use t = set is \<union> pages_in_use s
      \<and> used_pages t = used_pages s + of_nat (length is)
      \<and> free_pages t = free_pages s - of_nat (length is) - of_nat (card (set is \<inter> pages_in_use s))"
proof (induction "is" arbitrary: s)
  case Nil
  then show ?case by simp
next
  case (Cons i "is")
  obtain t where t: "reserve_page i s = Done () t" "pages_in_use t = insert i (pages_in_use s)"
      "used_pages t = used_pages s + 1"
      "free_pages t = free_pages s - 1 - of_nat (card ({i} \<inter> pages_in_use s))"
    using reserve_page_Done [of i s] Cons.prems(2) by auto
  have same: "set is \<inter> pages_in_use t = set is \<inter> pages_in_use s"
    using Cons.prems(1) t(2) by auto
  have "set (i # is) \<inter> pages_in_use s = ({i} \<inter> pages_in_use s) \<union> (set is \<inter> pages_in_use s)"
    by auto
  then have "card (set (i # is) \<inter> pages_in_use s) =
      card ({i} \<inter> pages_in_use s) + card (set is \<inter> pages_in_use s)"
    using Cons.prems(1) by (simp only:) (rule card_Un_disjoint; auto)
  with Cons.IH [of t] Cons.prems t same show ?case by (auto simp: algebra_simps)
qed

lemma page_range_set:
  "unat hi < 2 ^ 64 - 1 \<Longrightarrow> set (page_range lo hi) = {lo..hi} \<and> distinct (page_range lo hi)"
proof
  assume hi: "unat hi < 2 ^ 64 - 1"
  show "set (page_range lo hi) = {lo..hi}"
  proof (intro set_eqI iffI)
    fix i assume "i \<in> set (page_range lo hi)"
    then obtain n where "unat lo \<le> n" "n \<le> unat hi" "i = of_nat n" by (auto simp: page_range_def)
    moreover from this hi have "unat i = n" by (simp add: unat_of_nat_less)
    ultimately show "i \<in> {lo..hi}" by (simp add: word_le_nat_alt)
  next
    fix i assume "i \<in> {lo..hi}"
    then have "unat lo \<le> unat i" "unat i \<le> unat hi" "i = of_nat (unat i)"
      by (simp_all add: word_le_nat_alt)
    then show "i \<in> set (page_range lo hi)"
      unfolding page_range_def set_map by (intro image_eqI [of _ _ "unat i"]) auto
  qed
  show "distinct (page_range lo hi)"
    unfolding page_range_def distinct_map
    using hi by (auto intro!: inj_onI dest!: of_nat_word_inject [THEN iffD1, rotated 2])
qed

lemma page_range_length: "lo \<le> hi \<Longrightarrow> length (page_range lo hi) = unat hi + 1 - unat lo"
  by (simp add: page_range_def word_le_nat_alt Suc_diff_le)

text \<open>
  C27. The reservation of a range of pages, as \<open>setup_pmm\<close> does it for the kernel and for the
  bitmap, never runs out of the bitmap when the range is below \<open>MAX_PAGES\<close>, and marks exactly the
  pages of the range in addition to those in use. It counts every page of the range as newly
  used, the pages that were in use before included, and subtracts those twice from \<open>free_pages\<close>.
\<close>

theorem reserved_range_in_use:
  assumes "lo \<le> hi" and "hi < MAX_PAGES"
  shows "\<exists>t. for_each (page_range lo hi) reserve_page s = Done () t
    \<and> pages_in_use t = {lo..hi} \<union> pages_in_use s
    \<and> used_pages t = used_pages s + (hi - lo + 1)
    \<and> free_pages t = free_pages s - (hi - lo + 1) - of_nat (card ({lo..hi} \<inter> pages_in_use s))"
proof -
  have "unat hi < 2 ^ 64 - 1" using assms(2) by (simp add: MAX_PAGES_def word_less_nat_alt)
  note range = page_range_set [OF this, of lo]
  have "of_nat (length (page_range lo hi)) = hi - lo + (1 :: u64)"
    using assms(1) by (simp add: page_range_length word_le_nat_alt Suc_diff_le of_nat_diff)
  moreover have "\<forall>i \<in> {lo..hi}. i < MAX_PAGES" using assms(2) by auto
  ultimately show ?thesis using reserve_pages_Done [of "page_range lo hi" s] range by simp
qed

theorem reserved_range_in_use_witness:
  "\<exists>t. for_each (page_range 0x7000 0x7020) reserve_page example_pmm = Done () t
    \<and> pages_in_use t = {0x7000..0x7020} \<and> used_pages t = 0x21"
proof -
  have "used_pages example_pmm = 0" by (simp add: example_pmm_def)
  moreover have "(0x7020 :: u64) < MAX_PAGES" by (simp add: kernel_consts)
  ultimately show ?thesis
    using reserved_range_in_use [where s = example_pmm and lo = "0x7000" and hi = "0x7020"] by auto
qed

end
