(* ===== verification/VMM.thy ===== *)
theory VMM
  imports PMM
begin

text \<open>
  The virtual memory manager, \<open>memory/virtual/vmm.c\<close>: the four-level page tables of x86-64, reached
  through the higher half direct map, with mapping, unmapping, the switch to a page map and the
  set-up of the kernel's own map. A page walk specifies them.
\<close>

section \<open>State\<close>

text \<open>
  \<open>kernel_pagemap\<close> is a pointer to a static \<open>pagemap_t\<close>, null until \<open>setup_vmm\<close>. The trace \<open>cpu\<close>
  records the privileged instructions the code executes.
\<close>

record pagemap =
  top_level :: u64

datatype cpu_op =
    Invlpg u64
  | LoadCR3 u64

record vmm = pmm +
  kernel_pagemap :: "pagemap option"
  cpu :: "cpu_op list"

definition PTE_PRESENT :: u64 where [kernel_consts]: "PTE_PRESENT = 1"
definition PTE_WRITABLE :: u64 where [kernel_consts]: "PTE_WRITABLE = 2"
definition PTE_USER :: u64 where [kernel_consts]: "PTE_USER = 4"
definition PTE_PCD :: u64 where [kernel_consts]: "PTE_PCD = 16"
definition PTE_PAT :: u64 where [kernel_consts]: "PTE_PAT = 128"
definition PTE_NX :: u64 where [kernel_consts]: "PTE_NX = 0x8000000000000000"
definition PTE_ADDR_MASK :: u64 where [kernel_consts]: "PTE_ADDR_MASK = 0x000ffffffffff000"

definition PTE_GET_ADDR :: "u64 \<Rightarrow> u64" where "PTE_GET_ADDR v = v AND PTE_ADDR_MASK"

text \<open>Reading and writing element \<open>index\<close> of a table of 64-bit entries at a virtual address.\<close>

definition table_get :: "memory \<Rightarrow> u64 \<Rightarrow> u64 \<Rightarrow> u64" where
  "table_get m table index = read64 m (table + 8 * index)"

definition table_set :: "u64 \<Rightarrow> u64 \<Rightarrow> u64 \<Rightarrow> 'z machine_scheme \<Rightarrow> 'z machine_scheme" where
  "table_set table index v s = s\<lparr>mem := write64 (mem s) (table + 8 * index) v\<rparr>"

definition invlpg :: "u64 \<Rightarrow> 'z vmm_scheme \<Rightarrow> 'z vmm_scheme" where
  "invlpg v s = s\<lparr>cpu := cpu s @ [Invlpg v]\<rparr>"

section \<open>Table operations\<close>

text \<open>The loop of \<open>is_table_empty\<close> over the 512 entries, from entry \<open>i\<close>.\<close>

function table_empty_from :: "memory \<Rightarrow> u64 \<Rightarrow> u64 \<Rightarrow> bool" where
  "table_empty_from m table i =
     (if i < 512 then (if table_get m table i \<noteq> 0 then False else table_empty_from m table (i + 1))
      else True)"
  by pat_completeness auto
termination
  by (relation "measure (\<lambda>(m, table, i). 512 - unat i)")
    (auto simp: word_less_nat_alt unat_inc [of _ 512])

declare table_empty_from.simps [simp del]

definition is_table_empty :: "memory \<Rightarrow> u64 \<Rightarrow> bool" where
  "is_table_empty m table = table_empty_from m table 0"

definition get_next_level :: "u64 \<Rightarrow> u64 \<Rightarrow> 'z vmm_scheme \<Rightarrow> (u64, 'z vmm_scheme) outcome" where
  "get_next_level table index s =
     (let entry = table_get (mem s) table index in
      if entry AND PTE_PRESENT \<noteq> 0 then
        bindO (get_hhdm s) (\<lambda>hhdm s. Done (PTE_GET_ADDR entry + hhdm) s)
      else Done 0 (k_wrn ''No next paging level, but was asked to get it anyway!'' [] s))"

definition allocate_next_level ::
  "u64 \<Rightarrow> u64 \<Rightarrow> u64 \<Rightarrow> 'z vmm_scheme \<Rightarrow> (u64, 'z vmm_scheme) outcome" where
  "allocate_next_level table index pte_flags s =
     bindO (pp_alloc s) (\<lambda>next_phys s.
       if next_phys = 0 then
         Done 0 (k_err ''Failed to allocate page for new page table level (index %u)!''
           [Num (ucast (ucast index :: u32))] s)
       else
         let new_entry_flags = (if pte_flags \<noteq> 0 then pte_flags else PTE_PRESENT OR PTE_WRITABLE);
             s = table_set table index (next_phys OR new_entry_flags) s
         in bindO (get_hhdm s) (\<lambda>hhdm s.
           let next_virt = next_phys + hhdm in
           Done next_virt (s\<lparr>mem := snd (memset next_virt 0 PAGE_SIZE (mem s))\<rparr>)))"

definition get_or_allocate_next_level ::
  "u64 \<Rightarrow> u64 \<Rightarrow> u64 \<Rightarrow> 'z vmm_scheme \<Rightarrow> (u64, 'z vmm_scheme) outcome" where
  "get_or_allocate_next_level table index flags s =
     (if table_get (mem s) table index AND PTE_PRESENT \<noteq> 0 then
        bindO (get_hhdm s) (\<lambda>hhdm s. Done (PTE_GET_ADDR (table_get (mem s) table index) + hhdm) s)
      else allocate_next_level table index flags s)"

definition pml4_index :: "u64 \<Rightarrow> u64" where "pml4_index v = drop_bit 39 v AND 0x1FF"
definition pdpt_index :: "u64 \<Rightarrow> u64" where "pdpt_index v = drop_bit 30 v AND 0x1FF"
definition pd_index :: "u64 \<Rightarrow> u64" where "pd_index v = drop_bit 21 v AND 0x1FF"
definition pt_index :: "u64 \<Rightarrow> u64" where "pt_index v = drop_bit 12 v AND 0x1FF"

definition map_page ::
  "pagemap \<Rightarrow> u64 \<Rightarrow> u64 \<Rightarrow> u64 \<Rightarrow> 'z vmm_scheme \<Rightarrow> (bool, 'z vmm_scheme) outcome" where
  "map_page pagemap virt phys flags s =
     (let virt_addr = virt AND NOT (PAGE_SIZE - 1);
          phys_addr = phys AND NOT (PAGE_SIZE - 1);
          alloc_flags = PTE_PRESENT OR PTE_WRITABLE;
          alloc_flags = (if flags AND PTE_USER \<noteq> 0 then alloc_flags OR PTE_USER else alloc_flags);
          fail = (\<lambda>s. Done False (k_err ''Failed to map virtual addr %p -> physical addr %p!''
            [Num virt_addr, Num phys_addr] s));
          pml4 = top_level pagemap
      in bindO (get_or_allocate_next_level pml4 (pml4_index virt_addr) alloc_flags s) (\<lambda>pdpt s.
         if pdpt = 0 then fail s else
         bindO (get_or_allocate_next_level pdpt (pdpt_index virt_addr) alloc_flags s) (\<lambda>pd s.
         if pd = 0 then fail s else
         bindO (get_or_allocate_next_level pd (pd_index virt_addr) alloc_flags s) (\<lambda>pt s.
         if pt = 0 then fail s else
         Done True (invlpg virt_addr
           (table_set pt (pt_index virt_addr) (phys_addr OR flags OR PTE_PRESENT) s))))))"

text \<open>Mapping a page leaves everything beyond the memory manager alone.\<close>

lemma pp_alloc_more: "pp_alloc s = Done p t \<Longrightarrow> hhdm_response t = hhdm_response s \<and> pmm.more t = pmm.more s"
  using pp_alloc_Done [of s p t] by (auto simp: takes_page_def same_pages_def pmm_frame_def)

lemma pp_alloc_vmm_more:
  fixes s :: "'z vmm_scheme"
  assumes "pp_alloc s = Done p t"
  shows "vmm.more t = vmm.more s" and "kernel_pagemap t = kernel_pagemap s"
  using pp_alloc_more [OF assms] by (cases s; cases t; simp)+

lemma next_level_more:
  "get_or_allocate_next_level table index flags s = Done a t \<Longrightarrow> vmm.more t = vmm.more s"
  by (auto simp: get_or_allocate_next_level_def allocate_next_level_def table_set_def get_hhdm_def emit_def
      Let_def outcome_simps dest: pp_alloc_vmm_more split: if_splits option.splits)

lemma map_page_more:
  assumes "map_page pm virt phys flags s = Done b t"
  shows "vmm.more t = vmm.more s"
  using assms
  by (auto simp: map_page_def table_set_def invlpg_def emit_def Let_def outcome_simps
      dest!: next_level_more split: if_splits)

text \<open>
  The tail of \<open>unmap_page\<close> that frees the tables that have become empty, from the last level
  upwards; the tables of the upper half of the address space stay.
\<close>

definition free_empty_tables ::
  "u64 \<Rightarrow> u64 \<Rightarrow> u64 \<Rightarrow> u64 \<Rightarrow> u64 \<Rightarrow> u64 \<Rightarrow> u64 \<Rightarrow> u64 \<Rightarrow> 'z vmm_scheme \<Rightarrow>
    (bool, 'z vmm_scheme) outcome" where
  "free_empty_tables pml4 pdpt pd pt virt_addr pdpt_entry pd_entry pt_entry s =
     (if is_table_empty (mem s) pt then
        bindO (pp_free (PTE_GET_ADDR pt_entry) (table_set pd (pd_index virt_addr) 0 s)) (\<lambda>_ s.
        if is_table_empty (mem s) pd then
          bindO (pp_free (PTE_GET_ADDR pd_entry) (table_set pdpt (pdpt_index virt_addr) 0 s)) (\<lambda>_ s.
          if is_table_empty (mem s) pdpt then
            (if pml4_index virt_addr \<ge> 256 then Done True s
             else bindO (pp_free (PTE_GET_ADDR pdpt_entry) (table_set pml4 (pml4_index virt_addr) 0 s))
               (\<lambda>_ s. Done True s))
          else Done True s)
        else Done True s)
      else Done True s)"

definition unmap_page :: "pagemap \<Rightarrow> u64 \<Rightarrow> 'z vmm_scheme \<Rightarrow> (bool, 'z vmm_scheme) outcome" where
  "unmap_page pagemap virt_addr s =
     (if virt_addr mod PAGE_SIZE \<noteq> 0 then
        Done False (k_err ''unmap_page called with non-aligned virt %p'' [Num virt_addr] s)
      else let pml4 = top_level pagemap in
        bindO (get_next_level pml4 (pml4_index virt_addr) s) (\<lambda>pdpt s.
        if pdpt = 0 then Done True s else
        let pdpt_entry = table_get (mem s) pml4 (pml4_index virt_addr) in
        bindO (get_next_level pdpt (pdpt_index virt_addr) s) (\<lambda>pd s.
        if pd = 0 then Done True s else
        let pd_entry = table_get (mem s) pdpt (pdpt_index virt_addr) in
        bindO (get_next_level pd (pd_index virt_addr) s) (\<lambda>pt s.
        if pt = 0 then Done True s else
        let pt_entry = table_get (mem s) pd (pd_index virt_addr) in
        if table_get (mem s) pt (pt_index virt_addr) AND PTE_PRESENT = 0 then Done True s
        else free_empty_tables pml4 pdpt pd pt virt_addr pdpt_entry pd_entry pt_entry
          (invlpg virt_addr (table_set pt (pt_index virt_addr) 0 s))))))"

definition switch_to_pagemap ::
  "pagemap option \<Rightarrow> 'z vmm_scheme \<Rightarrow> (unit, 'z vmm_scheme) outcome" where
  "switch_to_pagemap pagemap s =
     (case pagemap of
        None \<Rightarrow> panic (''Attempted to switch to an invalid pagemap'' @ [CHR 0x0A]) s
      | Some pm \<Rightarrow>
         if top_level pm = 0 then panic (''Attempted to switch to an invalid pagemap'' @ [CHR 0x0A]) s
         else bindO (get_hhdm s) (\<lambda>hhdm s. Done () (s\<lparr>cpu := cpu s @ [LoadCR3 (top_level pm - hhdm)]\<rparr>)))"

section \<open>Set-up\<close>

text \<open>
  The addresses the linker assigns to the sections of the kernel, and the boot loader's
  framebuffer, are arguments. A loop over pages \<open>p, p + PAGE_SIZE, ...\<close> below a bound would start
  over at 0 if the index wrapped around; the bounds are page aligned, so it does not.
\<close>

record sections =
  text_start :: u64
  text_end :: u64
  rodata_start :: u64
  rodata_end :: u64
  data_start :: u64
  data_end :: u64
  bss_end :: u64

record framebuffer =
  fb_address :: u64
  fb_width :: u64
  fb_height :: u64
  fb_pitch :: u64

function for_pages :: "u64 \<Rightarrow> u64 \<Rightarrow> (u64 \<Rightarrow> 's \<Rightarrow> (unit, 's) outcome) \<Rightarrow> 's \<Rightarrow> (unit, 's) outcome" where
  "for_pages p hi body s =
     (if p < hi then bindO (body p s) (\<lambda>_ s.
        if p + PAGE_SIZE < p then Stop Hang s else for_pages (p + PAGE_SIZE) hi body s)
      else Done () s)"
  by pat_completeness auto
termination
proof (relation "measure (\<lambda>(p, hi, body, s). unat hi - unat p)")
  fix p hi :: u64 and body :: "u64 \<Rightarrow> 's \<Rightarrow> (unit, 's) outcome" and s a s'
  assume "p < hi" and "\<not> p + PAGE_SIZE < p"
  moreover have "p + PAGE_SIZE \<noteq> p" by (simp add: PAGE_SIZE_def)
  ultimately have "unat p < unat hi" and "unat p < unat (p + PAGE_SIZE)"
    by (simp_all add: word_less_nat_alt [symmetric] not_less order_le_less)
  then show "((p + PAGE_SIZE, hi, body, s'), p, hi, body, s) \<in> measure (\<lambda>(p, hi, body, s). unat hi - unat p)"
    by simp
qed simp

declare for_pages.simps [simp del]

definition kernel_page_flags :: "sections \<Rightarrow> u64 \<Rightarrow> u64" where
  "kernel_page_flags sec p_virt =
     (if p_virt \<ge> text_start sec \<and> p_virt < text_end sec then PTE_PRESENT
      else if p_virt \<ge> rodata_start sec \<and> p_virt < rodata_end sec then PTE_PRESENT OR PTE_NX
      else if p_virt \<ge> data_start sec \<and> p_virt < data_end sec
        then PTE_PRESENT OR (PTE_WRITABLE OR PTE_NX)
      else PTE_PRESENT OR (PTE_WRITABLE OR PTE_NX))"

definition map_kernel_page ::
  "sections \<Rightarrow> pagemap \<Rightarrow> u64 \<Rightarrow> 'z vmm_scheme \<Rightarrow> (unit, 'z vmm_scheme) outcome" where
  "map_kernel_page sec pm p_virt s =
     bindO (get_k_addr s) (\<lambda>k s.
     bindO (map_page pm p_virt (p_virt - virtual_base k + physical_base k)
       (kernel_page_flags sec p_virt) s) (\<lambda>ok s.
     if ok then Done () s else panic ''Failed to map kernel page.'' s))"

definition map_chunk_page :: "pagemap \<Rightarrow> u64 \<Rightarrow> 'z vmm_scheme \<Rightarrow> (unit, 'z vmm_scheme) outcome" where
  "map_chunk_page pm p s =
     bindO (get_hhdm s) (\<lambda>hhdm s.
     bindO (map_page pm (p + hhdm) p (PTE_PRESENT OR PTE_WRITABLE) s) (\<lambda>ok s.
     if ok then Done () s else panic ''Failed to map HHDM page.'' s))"

definition map_chunk :: "pagemap \<Rightarrow> memory_chunk \<Rightarrow> 'z vmm_scheme \<Rightarrow> (unit, 'z vmm_scheme) outcome" where
  "map_chunk pm c s =
     (let map_base = ALIGN_UP (chunk_base c) PAGE_SIZE;
          map_top = ALIGN_UP (chunk_bounds c) PAGE_SIZE
      in if map_top \<le> map_base then Done () s else for_pages map_base map_top (map_chunk_page pm) s)"

definition map_framebuffer_page ::
  "pagemap \<Rightarrow> framebuffer \<Rightarrow> u64 \<Rightarrow> nat \<Rightarrow> 'z vmm_scheme \<Rightarrow> (unit, 'z vmm_scheme) outcome" where
  "map_framebuffer_page pm fb phys_start i s =
     (let virt_addr = fb_address fb + of_nat i * PAGE_SIZE;
          phys_addr = phys_start + of_nat i * PAGE_SIZE
      in bindO (map_page pm virt_addr phys_addr
           (PTE_PRESENT OR PTE_WRITABLE OR PTE_PCD OR PTE_PAT) s) (\<lambda>_ s.
         Done () (invlpg virt_addr s)))"

definition setup_vmm :: "sections \<Rightarrow> framebuffer \<Rightarrow> 'z vmm_scheme \<Rightarrow> (unit, 'z vmm_scheme) outcome" where
  "setup_vmm sec fb s =
     bindO (pp_alloc s) (\<lambda>pml4_phys s.
     if pml4_phys = 0 then panic ''Failed to allocate kernel PML4 table page.'' s else
     bindO (get_hhdm s) (\<lambda>hhdm s.
     let pml4_virt = pml4_phys + hhdm;
         pm = \<lparr>top_level = pml4_virt\<rparr>;
         s = s\<lparr>mem := snd (memset pml4_virt 0 PAGE_SIZE (mem s)), kernel_pagemap := Some pm\<rparr>
     in bindO (for_each (map of_nat [256..<512]) (\<lambda>i s.
          bindO (get_or_allocate_next_level pml4_virt i 0 s) (\<lambda>_ s. Done () s)) s) (\<lambda>_ s.
     bindO (get_k_addr s) (\<lambda>k s.
     bindO (for_pages (virtual_base k) (ALIGN_UP (bss_end sec) PAGE_SIZE)
       (map_kernel_page sec pm) s) (\<lambda>_ s.
     bindO (get_k_addr s) (\<lambda>_ s.
     bindO (get_memory_descriptor s) (\<lambda>desc s.
     bindO (for_each (take (unat (chunk_count desc)) (chunk_ptr desc)) (map_chunk pm) s) (\<lambda>_ s.
     bindO (get_hhdm s) (\<lambda>hhdm s.
     let total_bytes = ucast (fb_pitch fb * fb_height fb) :: u32;
         pages = (total_bytes + ucast PAGE_SIZE - 1) div ucast PAGE_SIZE
     in bindO (for_each [0..<unat pages]
          (map_framebuffer_page pm fb (fb_address fb - hhdm)) s) (\<lambda>_ s.
     switch_to_pagemap (kernel_pagemap s) s))))))))))"

end
