(* ===== verification/Heap.thy ===== *)
theory Heap
  imports VMM
begin

text \<open>
  The kernel heap, \<open>memory/heap.c\<close>: a first-fit allocator over an address-ordered free list kept
  in the free blocks themselves, which grows by mapping fresh pages behind its end.
\<close>

section \<open>State\<close>

text \<open>
  A free block starts with its \<open>size\<close> (8 bytes) and the address of the \<open>next\<close> block (8 bytes);
  null ends the list. An allocated block keeps its size in the first 8 of 16 header bytes.
\<close>

record heap = vmm +
  heap_start :: u64
  heap_size :: u64
  free_list_head :: u64

definition MIN_ALLOC_SIZE :: u64 where [kernel_consts]: "MIN_ALLOC_SIZE = 16"
definition HEAP_ALIGNMENT :: u64 where [kernel_consts]: "HEAP_ALIGNMENT = 16"
definition INITIAL_HEAP_PAGES :: u64 where [kernel_consts]: "INITIAL_HEAP_PAGES = 256"

definition ALIGN_UP_HEAP :: "u64 \<Rightarrow> u64" where
  "ALIGN_UP_HEAP sz = (sz + HEAP_ALIGNMENT - 1) AND NOT (HEAP_ALIGNMENT - 1)"

definition header_sz :: u64 where "header_sz = ALIGN_UP_HEAP 8"

abbreviation blk_size :: "memory \<Rightarrow> u64 \<Rightarrow> u64" where "blk_size m b \<equiv> read64 m b"
abbreviation blk_next :: "memory \<Rightarrow> u64 \<Rightarrow> u64" where "blk_next m b \<equiv> read64 m (b + 8)"

definition set_size :: "u64 \<Rightarrow> u64 \<Rightarrow> 'z machine_scheme \<Rightarrow> 'z machine_scheme" where
  "set_size b v s = s\<lparr>mem := write64 (mem s) b v\<rparr>"

definition set_next :: "u64 \<Rightarrow> u64 \<Rightarrow> 'z machine_scheme \<Rightarrow> 'z machine_scheme" where
  "set_next b v s = s\<lparr>mem := write64 (mem s) (b + 8) v\<rparr>"

section \<open>Walking the free list\<close>

text \<open>
  The pointer loops do not end on a cyclic list: \<open>None\<close>. \<open>find_place\<close> is the loop of
  \<open>heap_grow_pages\<close> and \<open>kfree\<close> up to the first block not below \<open>bound\<close>, \<open>find_fit\<close> the loop of
  \<open>kmalloc\<close> up to the first block of at least \<open>want\<close> bytes; both track the block before.
\<close>

partial_function (option) find_place :: "memory \<Rightarrow> u64 \<Rightarrow> u64 \<Rightarrow> u64 \<Rightarrow> u64 option" where
  "find_place m prev cur bound =
     (if cur \<noteq> 0 \<and> cur < bound then find_place m cur (blk_next m cur) bound else Some prev)"

partial_function (option) find_fit :: "memory \<Rightarrow> u64 \<Rightarrow> u64 \<Rightarrow> u64 \<Rightarrow> (u64 \<times> u64) option option" where
  "find_fit m prev cur want =
     (if cur \<noteq> 0 then
        if blk_size m cur \<ge> want then Some (Some (prev, cur))
        else find_fit m cur (blk_next m cur) want
      else Some None)"

partial_function (option) list_end :: "memory \<Rightarrow> u64 \<Rightarrow> unit option" where
  "list_end m b = (if b \<noteq> 0 then list_end m (blk_next m b) else Some ())"

text \<open>\<open>heap_dump\<close> prints nothing (\<open>k_debug\<close> is compiled out) but still walks the list.\<close>

definition heap_dump :: "'z heap_scheme \<Rightarrow> (unit, 'z heap_scheme) outcome" where
  "heap_dump s = (case list_end (mem s) (free_list_head s) of None \<Rightarrow> Stop Hang s | Some u \<Rightarrow> Done () s)"

section \<open>Inserting a block\<close>

text \<open>
  Both \<open>heap_grow_pages\<close> and \<open>kfree\<close> link a block behind \<open>prev\<close> (or at the head when it is null)
  and then merge it with its neighbours when they are adjacent.
\<close>

definition link_block :: "u64 \<Rightarrow> u64 \<Rightarrow> 'z heap_scheme \<Rightarrow> 'z heap_scheme" where
  "link_block prev b s =
     (if prev = 0 then (set_next b (free_list_head s) s)\<lparr>free_list_head := b\<rparr>
      else set_next prev b (set_next b (blk_next (mem s) prev) s))"

definition merge_next :: "u64 \<Rightarrow> 'z heap_scheme \<Rightarrow> 'z heap_scheme" where
  "merge_next b s =
     (let nxt = blk_next (mem s) b in
      if nxt \<noteq> 0 \<and> b + blk_size (mem s) b = nxt then
        let s = set_size b (blk_size (mem s) b + blk_size (mem s) nxt) s in
        set_next b (blk_next (mem s) (blk_next (mem s) b)) s
      else s)"

definition merge_prev :: "u64 \<Rightarrow> u64 \<Rightarrow> 'z heap_scheme \<Rightarrow> 'z heap_scheme" where
  "merge_prev prev b s =
     (if prev \<noteq> 0 \<and> prev + blk_size (mem s) prev = b then
        let s = set_size prev (blk_size (mem s) prev + blk_size (mem s) b) s in
        set_next prev (blk_next (mem s) b) s
      else s)"

section \<open>Growth\<close>

text \<open>The loop of \<open>heap_grow_pages\<close>; the result is false when a page could not be allocated.\<close>

fun map_heap_pages :: "u64 \<Rightarrow> nat list \<Rightarrow> 'z heap_scheme \<Rightarrow> (bool, 'z heap_scheme) outcome" where
  "map_heap_pages base [] s = Done True s"
| "map_heap_pages base (i # is) s =
     bindO (pp_alloc s) (\<lambda>phys s.
       if phys = 0 then
         Done False (k_err ''heap_expand_pages: pp_alloc failed at page %lx!'' [Num (of_nat i)] s)
       else (case kernel_pagemap s of
         None \<Rightarrow> Stop (Fault ''null kernel_pagemap'') s
       | Some pm \<Rightarrow>
          bindO (map_page pm (base + of_nat i * PAGE_SIZE) phys
            (PTE_PRESENT OR PTE_WRITABLE OR PTE_NX) s) (\<lambda>ok s.
          if ok then map_heap_pages base is s
          else panic ''heap_expand_pages: vmm_map_page failed'' s)))"

definition add_region :: "u64 \<Rightarrow> u64 \<Rightarrow> 'z heap_scheme \<Rightarrow> (bool, 'z heap_scheme) outcome" where
  "add_region base new_region_size s =
     (let s = set_next base 0 (set_size base new_region_size s) in
      if free_list_head s = 0 then
        Done True (s\<lparr>free_list_head := base, heap_size := heap_size s + new_region_size\<rparr>)
      else
        case find_place (mem s) 0 (free_list_head s) base of
          None \<Rightarrow> Stop Hang s
        | Some prev \<Rightarrow>
            let s = merge_prev prev base (merge_next base (link_block prev base s)) in
            Done True (s\<lparr>heap_size := heap_size s + new_region_size\<rparr>))"

definition heap_grow_pages :: "u64 \<Rightarrow> 'z heap_scheme \<Rightarrow> (bool, 'z heap_scheme) outcome" where
  "heap_grow_pages pages s =
     (if pages = 0 then Done False s
      else
        let base = heap_start s + heap_size s;
            new_region_size = pages * PAGE_SIZE
        in bindO (map_heap_pages base [0..<unat pages] s) (\<lambda>ok s.
             if ok then add_region base new_region_size s else Done False s))"

section \<open>Allocation\<close>

text \<open>Taking \<open>want\<close> bytes from the block \<open>cur\<close>, whose predecessor is \<open>prev\<close>.\<close>

definition unlink_block :: "u64 \<Rightarrow> u64 \<Rightarrow> 'z heap_scheme \<Rightarrow> 'z heap_scheme" where
  "unlink_block prev v s = (if prev = 0 then s\<lparr>free_list_head := v\<rparr> else set_next prev v s)"

definition take_block :: "u64 \<Rightarrow> u64 \<Rightarrow> u64 \<Rightarrow> 'z heap_scheme \<Rightarrow> u64 \<times> 'z heap_scheme" where
  "take_block prev cur want s =
     (let s = (if blk_size (mem s) cur \<ge> want + MIN_ALLOC_SIZE then
                 let b = cur + want;
                     s = set_size b (blk_size (mem s) cur - want) s;
                     s = set_next b (blk_next (mem s) cur) s;
                     s = set_size cur want s
                 in unlink_block prev b s
               else unlink_block prev (blk_next (mem s) cur) s);
          s = set_size cur (blk_size (mem s) cur) s
      in (cur + header_sz, s))"

definition grow_for_alloc :: "'z heap_scheme \<Rightarrow> (bool, 'z heap_scheme) outcome" where
  "grow_for_alloc s = bindO (heap_grow_pages 16 s) (\<lambda>ok s.
     if ok then Done True s else heap_grow_pages 1 s)"

text \<open>
  The search is repeated after each growth. Each growth takes at least one page frame, so
  it ends: \<open>heap_grows\<close> is the measure of the definition of \<open>kmalloc_search\<close>.
\<close>

definition frames_left :: "'z pmm_scheme \<Rightarrow> nat" where
  "frames_left s = unat MAX_PAGES - card (pages_in_use s)"

lemma pages_in_use_bound: "card (pages_in_use s) \<le> unat MAX_PAGES"
proof -
  have "pages_in_use s \<subseteq> of_nat ` {..<unat MAX_PAGES}"
  proof
    fix i assume "i \<in> pages_in_use s"
    then have "unat i < unat MAX_PAGES" by (simp add: pages_in_use_def word_less_nat_alt)
    then show "i \<in> of_nat ` {..<unat MAX_PAGES}" by (intro image_eqI [of _ _ "unat i"]) auto
  qed
  then have "card (pages_in_use s) \<le> card (of_nat ` {..<unat MAX_PAGES} :: u64 set)"
    by (rule card_mono [rotated]) simp
  also have "\<dots> \<le> card {..<unat MAX_PAGES}" by (rule card_image_le) simp
  finally show ?thesis by simp
qed

lemma pp_alloc_in_use:
  assumes "pp_alloc s = Done p t"
  shows "pages_in_use s \<subseteq> pages_in_use t \<and> (p \<noteq> 0 \<longrightarrow> pages_in_use s \<subset> pages_in_use t)"
  using pp_alloc_Done [OF assms]
proof (elim disjE exE)
  fix i assume "takes_page i p s t"
  then show ?thesis by (auto simp: takes_page_def)
next
  assume "p = 0 \<and> same_pages s t"
  then show ?thesis using same_pages_in_use [of s t] by simp
qed

lemma get_or_allocate_in_use:
  assumes "get_or_allocate_next_level T k fl s = Done v t"
  shows "pages_in_use s \<subseteq> pages_in_use t"
  using assms
  by (auto simp: get_or_allocate_next_level_def allocate_next_level_def bindO_Done_iff table_set_def
      pages_in_use_def Let_def split: if_splits dest!: pp_alloc_in_use)

lemma map_page_in_use:
  assumes "map_page pm v p fl s = Done ok t"
  shows "pages_in_use s \<subseteq> pages_in_use t"
proof -
  have eq: "pages_in_use (invlpg w (table_set a b c s)) = pages_in_use s" for w a b c and s :: "'a vmm_scheme"
    by (simp add: invlpg_def table_set_def pages_in_use_def)
  show ?thesis
    using assms
    by (auto simp: map_page_def Let_def bindO_Done_iff eq split: if_splits
        dest!: get_or_allocate_in_use) blast+
qed

lemma map_heap_pages_in_use:
  "map_heap_pages base is s = Done ok t \<Longrightarrow>
    pages_in_use s \<subseteq> pages_in_use t \<and> (ok \<longrightarrow> is \<noteq> [] \<longrightarrow> pages_in_use s \<subset> pages_in_use t)"
proof (induction "is" arbitrary: s)
  case Nil
  then show ?case by simp
next
  case (Cons i "is")
  from Cons.prems obtain phys s1 where alloc: "pp_alloc s = Done phys s1" by (auto simp: bindO_Done_iff)
  note grow = pp_alloc_in_use [OF alloc]
  show ?case
  proof (cases "phys = 0")
    case True
    then show ?thesis using Cons.prems alloc grow by auto
  next
    case False
    then obtain pm s2 where map: "map_page pm (base + of_nat i * PAGE_SIZE) phys
        (PTE_PRESENT OR PTE_WRITABLE OR PTE_NX) s1 = Done True s2" and rest: "map_heap_pages base is s2 = Done ok t"
      using Cons.prems alloc by (auto simp: bindO_Done_iff split: option.splits if_splits)
    show ?thesis using Cons.IH [OF rest] map_page_in_use [OF map] grow False by auto
  qed
qed

lemma pages_in_use_heap_fields [simp]:
  "pages_in_use (s\<lparr>free_list_head := x\<rparr>) = pages_in_use s" "pages_in_use (s\<lparr>heap_size := x\<rparr>) = pages_in_use s"
  "pages_in_use (set_size b v s) = pages_in_use s" "pages_in_use (set_next b v s) = pages_in_use s"
  by (simp_all add: pages_in_use_def set_size_def set_next_def)

lemma pages_in_use_insert [simp]:
  "pages_in_use (link_block prev b s) = pages_in_use s" "pages_in_use (merge_next b s) = pages_in_use s"
  "pages_in_use (merge_prev prev b s) = pages_in_use s"
  by (simp_all add: link_block_def merge_next_def merge_prev_def Let_def)

lemma add_region_in_use: "add_region base n s = Done ok t \<Longrightarrow> pages_in_use t = pages_in_use s"
  by (auto simp: add_region_def Let_def split: if_splits option.splits)

lemma heap_grow_pages_in_use:
  assumes "heap_grow_pages n s = Done ok t"
  shows "pages_in_use s \<subseteq> pages_in_use t \<and> (ok \<longrightarrow> pages_in_use s \<subset> pages_in_use t)"
  using assms
  by (auto simp: heap_grow_pages_def Let_def bindO_Done_iff unat_eq_0 split: if_splits
      dest!: map_heap_pages_in_use add_region_in_use)

lemma grow_for_alloc_frames:
  assumes "grow_for_alloc s = Done True t"
  shows "frames_left t < frames_left s"
proof -
  have "pages_in_use s \<subset> pages_in_use t"
    using assms by (auto simp: grow_for_alloc_def bindO_Done_iff split: if_splits dest!: heap_grow_pages_in_use)
  then have "card (pages_in_use s) < card (pages_in_use t)" by (rule psubset_card_mono [rotated]) simp
  then show ?thesis using pages_in_use_bound [of t] by (simp add: frames_left_def)
qed

function kmalloc_search :: "u64 \<Rightarrow> u64 \<Rightarrow> 'z heap_scheme \<Rightarrow> (u64, 'z heap_scheme) outcome" where
  "kmalloc_search sz want s =
     (case find_fit (mem s) 0 (free_list_head s) want of
        None \<Rightarrow> Stop Hang s
      | Some (Some (prev, cur)) \<Rightarrow> (case take_block prev cur want s of (p, s) \<Rightarrow> Done p s)
      | Some None \<Rightarrow>
          bindO (grow_for_alloc s) (\<lambda>ok s.
            if ok then kmalloc_search sz want s
            else bindO (heap_dump (k_err ''kmalloc: Out of heap memory (requested %lx bytes)'' [Num sz] s))
              (\<lambda>_ s. Done 0 s)))"
  by pat_completeness auto
termination
  by (relation "measure (\<lambda>(sz, want, s). frames_left s)") (auto intro: grow_for_alloc_frames)

declare kmalloc_search.simps [simp del]

definition kmalloc :: "u64 \<Rightarrow> 'z heap_scheme \<Rightarrow> (u64, 'z heap_scheme) outcome" where
  "kmalloc sz s =
     (if sz = 0 then Done 0 s
      else
        let payload = ALIGN_UP_HEAP sz;
            want = payload + header_sz;
            want = (if want < MIN_ALLOC_SIZE then MIN_ALLOC_SIZE else want)
        in kmalloc_search sz want s)"

section \<open>Release\<close>

definition kfree :: "u64 \<Rightarrow> 'z heap_scheme \<Rightarrow> (unit, 'z heap_scheme) outcome" where
  "kfree ptr s =
     (if ptr = 0 then Done () s
      else
        let block_start = ptr - header_sz;
            block_size = read64 (mem s) block_start
        in if block_start < heap_start s \<or> block_start \<ge> heap_start s + heap_size s then
             panic ''kfree: invalid pointer (out of heap range).'' s
           else if block_size < MIN_ALLOC_SIZE then panic ''kfree: invalid block size.'' s
           else if block_start AND (HEAP_ALIGNMENT - 1) \<noteq> 0 then
             panic ''kfree: alignment error. (try calling HEAP_ALIGN_UP(ptr))'' s
           else
             case find_place (mem s) 0 (free_list_head s) block_start of
               None \<Rightarrow> Stop Hang s
             | Some prev \<Rightarrow>
                 Done () (merge_prev prev block_start (merge_next block_start
                   (link_block prev block_start (set_size block_start block_size s)))))"

definition kcalloc :: "u64 \<Rightarrow> u64 \<Rightarrow> 'z heap_scheme \<Rightarrow> (u64, 'z heap_scheme) outcome" where
  "kcalloc num sz s =
     (if sz \<noteq> 0 \<and> num > (-1) div sz then Done 0 s
      else
        let want = num * sz in
        bindO (kmalloc want s) (\<lambda>p s.
          Done p (if p \<noteq> 0 then s\<lparr>mem := snd (memset p 0 want (mem s))\<rparr> else s)))"

definition krealloc :: "u64 \<Rightarrow> u64 \<Rightarrow> 'z heap_scheme \<Rightarrow> (u64, 'z heap_scheme) outcome" where
  "krealloc ptr new_size s =
     (if ptr = 0 then kmalloc new_size s
      else if new_size = 0 then bindO (kfree ptr s) (\<lambda>_ s. Done 0 s)
      else
        let old_total = read64 (mem s) (ptr - header_sz);
            old_payload = (if old_total \<ge> header_sz then old_total - header_sz else 0)
        in if new_size \<le> old_payload then Done ptr s
           else bindO (kmalloc new_size s) (\<lambda>new_ptr s.
             if new_ptr = 0 then Done 0 s
             else bindO (kfree ptr (s\<lparr>mem := snd (memcpy new_ptr ptr old_payload (mem s))\<rparr>))
               (\<lambda>_ s. Done new_ptr s)))"

definition setup_heap :: "'z heap_scheme \<Rightarrow> (unit, 'z heap_scheme) outcome" where
  "setup_heap s =
     bindO (get_hhdm s) (\<lambda>hhdm s.
     bindO (heap_grow_pages INITIAL_HEAP_PAGES
       (s\<lparr>heap_start := hhdm + 0x10000000000, heap_size := 0\<rparr>)) (\<lambda>ok s.
     if \<not> ok then panic ''setup_heap: failed to allocate initial kernel heap!'' s
     else
       let s = s\<lparr>free_list_head := heap_start s\<rparr> in
       Done () (set_next (heap_start s) 0 (set_size (heap_start s) (heap_size s) s))))"

end
