(* ===== verification/Page_Frames.thy ===== *)
theory Page_Frames
  imports PMM
begin

text \<open>
  What the clients of the physical memory manager rely on: the frames behind the pages in use.
  The contract of a page allocator is a locale, \<open>page_source\<close>; \<open>pp_alloc\<close> and \<open>pp_free\<close> are shown
  to meet it whenever the mapping table relates page indices and frames one to one.
\<close>

section \<open>The contract\<close>

text \<open>Calling an allocator \<open>n\<close> times: the addresses returned, null ones left out.\<close>

primrec collect :: "nat \<Rightarrow> ('s \<Rightarrow> (u64, 's) outcome) \<Rightarrow> 's \<Rightarrow> (u64 list, 's) outcome" where
  "collect 0 alloc s = Done [] s"
| "collect (Suc n) alloc s = bindO (alloc s) (\<lambda>p s. bindO (collect n alloc s) (\<lambda>ps s.
     Done (if p = 0 then ps else p # ps) s))"

locale page_source =
  fixes ok :: "'s \<Rightarrow> bool"
    and frames :: "'s \<Rightarrow> u64 set"
    and alloc :: "'s \<Rightarrow> (u64, 's) outcome"
    and release :: "u64 \<Rightarrow> 's \<Rightarrow> (unit, 's) outcome"
  assumes frames_page: "ok s \<Longrightarrow> p \<in> frames s \<Longrightarrow> p \<noteq> 0 \<and> p mod PAGE_SIZE = 0"
    and alloc_ok: "ok s \<Longrightarrow> alloc s = Done p t \<Longrightarrow> ok t \<and> frames s \<subseteq> frames t"
    and alloc_fresh: "ok s \<Longrightarrow> alloc s = Done p t \<Longrightarrow> p \<noteq> 0 \<Longrightarrow> p \<in> frames t - frames s"
    and release_ok: "ok s \<Longrightarrow> release p s = Done u t \<Longrightarrow>
      ok t \<and> frames s - {p} \<subseteq> frames t \<and> frames t \<subseteq> frames s"
begin

lemma alloc_many_distinct:
  "ok s \<Longrightarrow> collect n alloc s = Done ps t \<Longrightarrow>
    ok t \<and> distinct ps \<and> set ps \<inter> frames s = {} \<and> set ps \<subseteq> frames t \<and> frames s \<subseteq> frames t"
proof (induction n arbitrary: s ps)
  case 0
  then show ?case by simp
next
  case (Suc n)
  from Suc.prems(2) obtain p s' qs where p: "alloc s = Done p s'" and qs: "collect n alloc s' = Done qs t"
    and ps: "ps = (if p = 0 then qs else p # qs)"
    by (auto simp: bindO_Done_iff)
  note ok = alloc_ok [OF Suc.prems(1) p] and fresh = alloc_fresh [OF Suc.prems(1) p]
  from Suc.IH [OF _ qs] ok fresh show ?case by (auto simp: ps)
qed

end

section \<open>The frames of the pages in use\<close>

definition frame_of :: "'z pmm_scheme \<Rightarrow> u64 \<Rightarrow> u64 \<Rightarrow> bool" where
  "frame_of s i p \<longleftrightarrow> (\<exists>m \<in> set (page_mappings s). page_hit i m = Some p)"

definition used_frames :: "'z pmm_scheme \<Rightarrow> u64 set" where
  "used_frames s = {p. \<exists>i \<in> pages_in_use s. frame_of s i p}"

text \<open>The table is sound when every entry is, and it relates indices and frames one to one.\<close>

definition frames_one_to_one :: "'z pmm_scheme \<Rightarrow> bool" where
  "frames_one_to_one s \<longleftrightarrow> (\<forall>i j p q. frame_of s i p \<longrightarrow> frame_of s j q \<longrightarrow> (i = j) = (p = q))"

definition pool_ok :: "'z pmm_scheme \<Rightarrow> bool" where
  "pool_ok s \<longleftrightarrow> length (page_mappings s) = MAX_SEGMENTS \<and> (\<forall>m \<in> set (page_mappings s). mapping_ok m)
     \<and> frames_one_to_one s \<and> (\<forall>i p. frame_of s i p \<longrightarrow> unat p < 2 ^ 52)"

lemma frame_of_same: "page_mappings t = page_mappings s \<Longrightarrow> frame_of t = frame_of s"
  by (simp add: frame_of_def fun_eq_iff)

lemma pool_ok_same: "page_mappings t = page_mappings s \<Longrightarrow> pool_ok t = pool_ok s"
  by (simp only: pool_ok_def frames_one_to_one_def frame_of_same [of t s])

lemma frame_of_unique:
  "pool_ok s \<Longrightarrow> frame_of s i p \<Longrightarrow> frame_of s j q \<Longrightarrow> (i = j) = (p = q)"
  unfolding pool_ok_def frames_one_to_one_def by blast

lemma pool_ok_frame: "pmm_frame s t \<Longrightarrow> pool_ok t = pool_ok s"
  by (intro pool_ok_same) (simp add: pmm_frame_def)

lemma frame_index_unique: "pool_ok s \<Longrightarrow> frame_of s i p \<Longrightarrow> frame_of s j p \<Longrightarrow> j = i"
  by (drule frame_of_unique [of s i p j p]) simp_all

lemma frame_of_page:
  assumes "pool_ok s" and "frame_of s i p"
  shows "p \<noteq> 0 \<and> p mod PAGE_SIZE = 0 \<and> unat p < 2 ^ 52"
proof -
  obtain m where "m \<in> set (page_mappings s)" "page_hit i m = Some p"
    using assms(2) by (auto simp: frame_of_def)
  moreover from this assms(1) have "mapping_ok m" by (simp add: pool_ok_def)
  ultimately show ?thesis using page_hit_ptr_hit [of i m p] assms by (simp add: pool_ok_def)
qed

lemma used_frames_page: "pool_ok s \<Longrightarrow> p \<in> used_frames s \<Longrightarrow> p \<noteq> 0 \<and> p mod PAGE_SIZE = 0 \<and> unat p < 2 ^ 52"
  unfolding used_frames_def using frame_of_page by blast

lemma used_frames_same:
  "same_pages s t \<Longrightarrow> used_frames t = used_frames s"
  using same_pages_in_use [of s t] frame_of_same [of t s]
  by (simp add: used_frames_def same_pages_def pmm_frame_def)

lemma pp_alloc_frames:
  assumes "pool_ok s" and "pp_alloc s = Done p t"
  shows "pmm_frame s t \<and> (mem t = mem s \<and> p = 0 \<or>
      (\<exists>h. hhdm_response s = Some h \<and> mem t = filled (p + h) 0 PAGE_SIZE (mem s)))
    \<and> used_frames s \<subseteq> used_frames t
    \<and> (p \<noteq> 0 \<longrightarrow> p \<notin> used_frames s \<and> p \<in> used_frames t \<and> p mod PAGE_SIZE = 0 \<and> unat p < 2 ^ 52
        \<and> (\<exists>h. hhdm_response s = Some h \<and> mem t = filled (p + h) 0 PAGE_SIZE (mem s)))"
  using pp_alloc_Done [OF assms(2)]
proof (elim disjE exE)
  fix i assume take: "takes_page i p s t"
  then have eq: "page_mappings t = page_mappings s" by (simp add: takes_page_def pmm_frame_def)
  with assms(1) have maps: "frame_of t = frame_of s" "length (page_mappings t) = MAX_SEGMENTS"
    by (auto simp: frame_of_same [of t s] pool_ok_def)
  have sub: "used_frames s \<subseteq> used_frames t" using take by (auto simp: used_frames_def maps takes_page_def)
  have "p \<notin> used_frames s \<and> p \<in> used_frames t \<and> p mod PAGE_SIZE = 0 \<and> unat p < 2 ^ 52" if p: "p \<noteq> 0"
  proof -
    obtain m where m: "current_mapping t = Some m" "page_hit i m = Some p"
      using take p unfolding takes_page_def by blast
    have "frame_of s i p"
      using current_mapping_mem [OF m(1) maps(2)] m(2) by (auto simp: frame_of_def eq)
    moreover have "i \<notin> pages_in_use s" "i \<in> pages_in_use t" using take by (auto simp: takes_page_def)
    moreover from calculation have "p \<notin> used_frames s"
      unfolding used_frames_def by (blast dest: frame_index_unique [OF assms(1)])
    ultimately show ?thesis
      using frame_of_page [OF assms(1)] by (auto simp: used_frames_def maps)
  qed
  moreover obtain h where "hhdm_response s = Some h" "mem t = filled (p + h) 0 PAGE_SIZE (mem s)"
    "pmm_frame s t" using take unfolding takes_page_def by blast
  ultimately show ?thesis using sub by simp
next
  assume "p = 0 \<and> same_pages s t"
  then show ?thesis using used_frames_same [of s t] by (auto simp: same_pages_def)
qed

lemma word_of_unat: "unat w = n \<Longrightarrow> w = of_nat n"
  by auto

lemma ptr_hit_page_hit:
  assumes hit: "ptr_hit p m = Some i" and ok: "mapping_ok m" and p: "p mod PAGE_SIZE = 0"
  shows "page_hit i m = Some p"
proof -
  define a b where "a = unat (pm_offset m)"
    and "b = unat (page_end_index m) - unat (page_start_index m)"
  let ?size = "(page_end_index m - page_start_index m) * PAGE_SIZE"
  have le: "unat (page_start_index m) \<le> unat (page_end_index m)"
    using ok by (simp add: mapping_ok_def word_le_nat_alt)
  have lt: "pm_offset m < p" "p < pm_offset m + ?size"
    and i: "i = page_start_index m + (p - pm_offset m) div PAGE_SIZE"
    using hit by (auto simp: ptr_hit_def Let_def split: if_splits)
  have ab: "a mod 4096 = 0" "a + b * 4096 < 2 ^ 64" using ok by (simp_all add: mapping_ok_def a_def b_def)
  have span: "page_end_index m - page_start_index m = of_nat b"
    using le by (simp add: b_def of_nat_diff)
  have "unat (pm_offset m + ?size) = a + b * 4096"
    using ab unfolding span by (subst unat_word_ariths(1)) (simp add: unat_mult_page a_def)
  then have up: "a < unat p" "unat p < a + b * 4096"
    using lt by (simp_all add: word_less_nat_alt a_def)
  have "unat p mod 4096 = 0"
    using p by (simp add: PAGE_SIZE_def word_unat_eq_iff unat_mod)
  then obtain k where k: "unat p = a + k * 4096"
    using ab(1) up(1) by (metis less_imp_le le_add_diff_inverse mod_0_imp_dvd dvd_diff_nat dvd_def mult.commute)
  with up have kb: "0 < k" "k < b" by simp_all
  have off: "unat (p - pm_offset m) = k * 4096"
    using up(1) k by (simp add: unat_sub_if' a_def)
  then have p': "p - pm_offset m = of_nat k * PAGE_SIZE"
    by (simp add: word_of_unat [OF off] PAGE_SIZE_def)
  have "unat ((p - pm_offset m) div PAGE_SIZE) = k"
    by (simp only: unat_div off) (simp add: PAGE_SIZE_def)
  then have q: "(p - pm_offset m) div PAGE_SIZE = of_nat k" by (rule word_of_unat)
  have ui: "unat i = unat (page_start_index m) + k"
  proof -
    have "unat (page_start_index m) + k < 2 ^ 64"
      using kb(2) unsigned_less [of "page_end_index m", where ?'a = nat] by (simp add: b_def)
    then show ?thesis by (simp add: i q unat_word_ariths unat_of_nat_less)
  qed
  have "page_start_index m < i" "i < page_end_index m"
    using ui kb by (simp_all add: word_less_nat_alt b_def)
  moreover have "pm_offset m + (i - page_start_index m) * PAGE_SIZE = p"
  proof -
    have "i - page_start_index m = of_nat k" unfolding i q by simp
    then show ?thesis using p' by (simp add: algebra_simps)
  qed
  ultimately show ?thesis by (simp add: page_hit_def)
qed

lemma ptr_to_page_hit:
  assumes "ptr_to_page p s = Done i t" and "p \<noteq> 0" and "p mod PAGE_SIZE = 0"
  shows "i = -1 \<or> (\<exists>m. current_mapping t = Some m \<and> ptr_hit p m = Some i)"
proof -
  have "ptr_to_page p s = bindO (search_mapping (ptr_hit p) False s) (\<lambda>r s.
      case r of Some page \<Rightarrow> Done page s | None \<Rightarrow> Done (-1) s)"
    using assms(2,3) by (simp only: ptr_to_page_def if_False not_not simp_thms)
  from assms(1) [unfolded this] obtain r s' where
    run: "search_mapping (ptr_hit p) False s = Done r s'"
    and res: "(case r of Some page \<Rightarrow> Done page s' | None \<Rightarrow> Done (- 1) s') = Done i t"
    by (rule bindO_DoneE)
  show ?thesis using search_mapping_hit [of "ptr_hit p" False s i s'] run res by (cases r) auto
qed

lemma pp_free_frames:
  assumes ok: "pool_ok s" and run: "pp_free p s = Done u t"
  shows "pmm_frame s t \<and> mem t = mem s \<and> used_frames s - {p} \<subseteq> used_frames t
    \<and> used_frames t \<subseteq> used_frames s"
proof -
  obtain i s' where i: "ptr_to_page p s = Done i s'" and free: "pp_free_at i s' = Done u t"
    using run by (auto simp: pp_free_def bindO_Done_iff)
  have same: "same_pages s s'" by (rule ptr_to_page_Done [OF i])
  note frames = used_frames_same [OF same]
  from pp_free_at_Done [OF free] show ?thesis
  proof
    assume "same_pages s' t"
    then have "same_pages s t" by (rule same_pages_trans [OF same])
    then show ?thesis using used_frames_same [of s t] by (simp add: same_pages_def)
  next
    assume gives: "gives_page i s' t"
    note gives_s = gives_page_after_same [OF same gives]
    then have maps: "frame_of t = frame_of s" "frame_of s' = frame_of s"
      using same frame_of_same [of t s] frame_of_same [of s' s]
      by (simp_all add: gives_page_def same_pages_def pmm_frame_def)
    have i_less: "i < MAX_PAGES" using gives by (simp add: gives_page_def pages_in_use_def)
    have only: "q = p" if "frame_of s i q" for q
    proof (cases "p = 0 \<or> p mod PAGE_SIZE \<noteq> 0")
      case True
      then have "i = -1" using i by (auto simp: ptr_to_page_def split: if_splits)
      with i_less show ?thesis by simp
    next
      case False
      have "i \<noteq> -1" using i_less by auto
      then obtain m where m: "current_mapping s' = Some m" "ptr_hit p m = Some i"
        using ptr_to_page_hit [OF i] False by auto
      have "length (page_mappings s') = MAX_SEGMENTS" "\<forall>m \<in> set (page_mappings s'). mapping_ok m"
        using ok same by (simp_all add: same_pages_def pmm_frame_def pool_ok_def)
      with current_mapping_mem [OF m(1)] ptr_hit_page_hit [OF m(2)] False have "frame_of s' i p"
        by (auto simp: frame_of_def)
      then show ?thesis using frame_of_unique [OF ok, of i p i q] that maps by simp
    qed
    show ?thesis
      using gives_s only by (auto simp: used_frames_def gives_page_def maps)
  qed
qed

interpretation pool: page_source pool_ok used_frames pp_alloc pp_free
proof
  show "p \<noteq> 0 \<and> p mod PAGE_SIZE = 0" if "pool_ok s" "p \<in> used_frames s" for s p
    using used_frames_page [OF that] by simp
  show "pool_ok t \<and> used_frames s \<subseteq> used_frames t"
    if "pool_ok s" "pp_alloc s = Done p t" for s p and t :: "'a pmm_scheme"
    using pp_alloc_frames [OF that] pool_ok_frame [of s t] that(1) by simp
  show "p \<in> used_frames t - used_frames s"
    if "pool_ok s" "pp_alloc s = Done p t" "p \<noteq> 0" for s p and t :: "'a pmm_scheme"
    using pp_alloc_frames [OF that(1,2)] that(3) by simp
  show "pool_ok t \<and> used_frames s - {p} \<subseteq> used_frames t \<and> used_frames t \<subseteq> used_frames s"
    if "pool_ok s" "pp_free p s = Done u t" for s p u and t :: "'a pmm_scheme"
    using pp_free_frames [OF that] pool_ok_frame [of s t] that(1) by simp
qed

text \<open>
  C3. No frame is handed out twice: in a pool whose table relates page indices and frames one
  to one (as it does for a single chunk), the addresses that any number of calls of \<open>pp_alloc\<close>
  return are distinct, none of them is the frame of a page that was in use before, and every
  frame in use stays so.
\<close>

theorem allocated_frames_distinct:
  assumes "pool_ok s" and "collect n pp_alloc s = Done ps t"
  shows "distinct ps \<and> set ps \<inter> used_frames s = {} \<and> set ps \<union> used_frames s \<subseteq> used_frames t"
  using pool.alloc_many_distinct [OF assms] by auto

definition single_chunk_pmm :: pmm where
  "single_chunk_pmm = example_pool\<lparr>page_mappings := page_mapping.make 0x100000 0 0x8000 #
     replicate 31 (page_mapping.make 0 0 0), free_pages := 0x7F01,
     pmm_desc := \<lparr>md_length = 0x7F00000, chunk_count = 1,
       chunk_ptr = [\<lparr>chunk_base = 0x100000, chunk_bounds = 0x8000000\<rparr>]\<rparr>\<rparr>"

lemma single_chunk_sel [simp]:
  "page_bitmap single_chunk_pmm = (\<lambda>_. 0)" "last_used_mapping single_chunk_pmm = 0"
  "last_page_used single_chunk_pmm = 0"
  "hhdm_response single_chunk_pmm = Some 0xFFFF800000000000"
  "k_addr_response single_chunk_pmm = Some \<lparr>physical_base = 0x7000000, virtual_base = 0xFFFFFFFF80000000\<rparr>"
  "chunk_count (pmm_desc single_chunk_pmm) = 1" "pages_in_use single_chunk_pmm = {}"
  "page_mappings single_chunk_pmm = page_mapping.make 0x100000 0 0x8000 #
     replicate 31 (page_mapping.make 0 0 0)"
  using example_pool_sel by (simp_all add: single_chunk_pmm_def pages_in_use_def page_used_def)

lemma single_chunk_frame_of:
  "frame_of single_chunk_pmm i p \<longleftrightarrow> 0 < i \<and> i < 0x8000 \<and> p = 0x100000 + i * 0x1000"
  by (auto simp: frame_of_def page_hit_def page_mapping.make_def kernel_consts)

lemma single_chunk_frame_nat:
  "frame_of single_chunk_pmm i p \<Longrightarrow> unat p = 0x100000 + unat i * 0x1000 \<and> unat i < 0x8000"
  by (auto simp: single_chunk_frame_of word_less_nat_alt unat_word_ariths)

lemma single_chunk_ok: "pool_ok single_chunk_pmm"
proof -
  have "frames_one_to_one single_chunk_pmm"
    unfolding frames_one_to_one_def
    by (auto simp: word_unat_eq_iff dest!: single_chunk_frame_nat)
  moreover have "unat p < 2 ^ 52" if "frame_of single_chunk_pmm i p" for i p
    using single_chunk_frame_nat [OF that] by simp
  ultimately show ?thesis
    by (simp add: pool_ok_def mapping_ok_def page_mapping.make_def kernel_consts)
qed

lemma single_chunk_collect: "\<exists>t. collect (Suc (Suc 0)) pp_alloc single_chunk_pmm = Done [0x101000, 0x102000] t"
proof -
  have "\<not> (0x7000 :: u64) \<le> 1" "\<not> (0x100000 :: u64) \<le> 1" by (simp_all add: word_le_nat_alt)
  then show ?thesis
    by (simp add: pp_alloc_def get_free_page_def Let_def page_free_eq example_run page_mapping.make_def)
qed

theorem allocated_frames_distinct_witness:
  "\<exists>t. collect (Suc (Suc 0)) pp_alloc single_chunk_pmm = Done [0x101000, 0x102000] t
    \<and> {0x101000, 0x102000} \<subseteq> used_frames t"
proof -
  obtain t where t: "collect (Suc (Suc 0)) pp_alloc single_chunk_pmm = Done [0x101000, 0x102000] t"
    using single_chunk_collect by blast
  with allocated_frames_distinct [OF single_chunk_ok this] show ?thesis by auto
qed

end
