(* ===== verification/Paging.thy ===== *)
theory Paging
  imports VMM Page_Frames "HOL-Library.Sublist"
begin

text \<open>
  Correctness of the page table operations of \<open>vmm.c\<close>. The tables reached from the root form a
  tree of frames that are in use; a page walk over them is the specification that \<open>map_page\<close> and
  \<open>unmap_page\<close> are proved against.
\<close>

section \<open>Page walks\<close>

text \<open>
  \<open>E T k\<close> is entry \<open>k\<close> of the table in frame \<open>T\<close>. A path is the list of indices followed from the
  root \<open>R\<close>; paths of length up to 3 lead to tables, the fourth index selects the entry of a page.
\<close>

abbreviation present :: "u64 \<Rightarrow> bool" where "present e \<equiv> e AND PTE_PRESENT \<noteq> 0"

lemma present_odd: "present e \<longleftrightarrow> odd e"
  by (simp add: PTE_PRESENT_def and_one_eq odd_iff_mod_2_eq_one)

fun table_at :: "(u64 \<Rightarrow> u64 \<Rightarrow> u64) \<Rightarrow> u64 \<Rightarrow> u64 list \<Rightarrow> u64 option" where
  "table_at E T [] = Some T"
| "table_at E T (k # ks) = (if present (E T k) then table_at E (PTE_GET_ADDR (E T k)) ks else None)"

definition walk :: "(u64 \<Rightarrow> u64 \<Rightarrow> u64) \<Rightarrow> u64 \<Rightarrow> u64 list \<Rightarrow> u64 \<Rightarrow> u64 option" where
  "walk E R ks d = (case table_at E R ks of None \<Rightarrow> None
     | Some T \<Rightarrow> if present (E T d) then Some (E T d) else None)"

definition valid_path :: "u64 list \<Rightarrow> bool" where
  "valid_path ks \<longleftrightarrow> length ks \<le> 3 \<and> (\<forall>k \<in> set ks. k < 512)"

definition tables :: "(u64 \<Rightarrow> u64 \<Rightarrow> u64) \<Rightarrow> u64 \<Rightarrow> u64 set" where
  "tables E R = {T. \<exists>ks. valid_path ks \<and> table_at E R ks = Some T}"

definition tree_shaped :: "(u64 \<Rightarrow> u64 \<Rightarrow> u64) \<Rightarrow> u64 \<Rightarrow> bool" where
  "tree_shaped E R \<longleftrightarrow> (\<forall>ks ks' T. valid_path ks \<longrightarrow> valid_path ks' \<longrightarrow>
     table_at E R ks = Some T \<longrightarrow> table_at E R ks' = Some T \<longrightarrow> ks = ks')"

lemma table_at_append:
  "table_at E R (ks @ ls) = Option.bind (table_at E R ks) (\<lambda>T. table_at E T ls)"
  by (induction ks arbitrary: R) auto

lemma table_at_snoc:
  "table_at E R (ks @ [k]) = Option.bind (table_at E R ks)
     (\<lambda>T. if present (E T k) then Some (PTE_GET_ADDR (E T k)) else None)"
  by (cases "table_at E R ks") (simp_all add: table_at_append)

lemma valid_path_snoc: "valid_path (ks @ [k]) \<longleftrightarrow> valid_path ks \<and> length ks \<le> 2 \<and> k < 512"
  by (auto simp: valid_path_def)

lemma valid_path_prefix: "valid_path (ks @ ls) \<Longrightarrow> valid_path ks"
  by (auto simp: valid_path_def)

lemma tables_mem: "valid_path ks \<Longrightarrow> table_at E R ks = Some T \<Longrightarrow> T \<in> tables E R"
  by (auto simp: tables_def)

lemma tree_shapedD:
  "tree_shaped E R \<Longrightarrow> valid_path ks \<Longrightarrow> valid_path ks' \<Longrightarrow>
    table_at E R ks = Some T \<Longrightarrow> table_at E R ks' = Some T \<Longrightarrow> ks = ks'"
  unfolding tree_shaped_def by blast

text \<open>A change of one entry only affects the paths through it.\<close>

lemma table_at_update:
  assumes tree: "tree_shaped E R" and p: "valid_path p" "table_at E R p = Some T"
    and same: "\<And>T' k'. T' \<in> tables E R \<Longrightarrow> k' < 512 \<Longrightarrow> (T', k') \<noteq> (T, k) \<Longrightarrow> E' T' k' = E T' k'"
  shows "valid_path ks \<Longrightarrow> \<not> prefix (p @ [k]) ks \<Longrightarrow> table_at E' R ks = table_at E R ks"
proof (induction ks rule: rev_induct)
  case Nil
  then show ?case by simp
next
  case (snoc l ks)
  have ks: "valid_path ks" "l < 512" using snoc.prems(1) by (simp_all add: valid_path_snoc)
  have np: "\<not> prefix (p @ [k]) ks" "ks @ [l] \<noteq> p @ [k]"
    using snoc.prems(2) by (auto simp: prefix_def)
  have IH: "table_at E' R ks = table_at E R ks" using snoc.IH ks(1) np(1) by simp
  show ?case
  proof (cases "table_at E R ks")
    case None
    then show ?thesis by (simp add: table_at_snoc IH)
  next
    case (Some T')
    have "(T', l) \<noteq> (T, k)"
      using tree_shapedD [OF tree ks(1) p(1), of T'] Some p(2) np(2) by auto
    with same [of T' l] tables_mem [OF ks(1) Some] ks(2) have "E' T' l = E T' l" by simp
    with Some show ?thesis by (simp add: table_at_snoc IH)
  qed
qed

lemma table_at_cong:
  assumes same: "\<And>T k. T \<in> tables E R \<Longrightarrow> k < 512 \<Longrightarrow> E' T k = E T k"
  shows "valid_path ks \<Longrightarrow> table_at E' R ks = table_at E R ks"
proof (induction ks rule: rev_induct)
  case (snoc l ks)
  then have ks: "valid_path ks" "l < 512" by (simp_all add: valid_path_snoc)
  with snoc.IH have IH: "table_at E' R ks = table_at E R ks" by simp
  show ?case
  proof (cases "table_at E R ks")
    case (Some T)
    with same [OF tables_mem [OF ks(1) Some] ks(2)] show ?thesis by (simp add: table_at_snoc IH)
  qed (simp add: table_at_snoc IH)
qed simp

text \<open>Two entry functions that agree on the tables of one describe the same tables and pages.\<close>

definition same_tables :: "(u64 \<Rightarrow> u64 \<Rightarrow> u64) \<Rightarrow> (u64 \<Rightarrow> u64 \<Rightarrow> u64) \<Rightarrow> u64 \<Rightarrow> bool" where
  "same_tables E E' R \<longleftrightarrow> (\<forall>ks. valid_path ks \<longrightarrow> table_at E' R ks = table_at E R ks)"

lemma same_tables_tree:
  "same_tables E E' R \<Longrightarrow> tables E' R = tables E R \<and> tree_shaped E' R = tree_shaped E R"
  unfolding same_tables_def tables_def tree_shaped_def
  by (intro conjI Collect_cong) (simp_all cong: conj_cong imp_cong)

text \<open>A new, empty table is linked at an entry that was not present.\<close>

lemma link_table:
  assumes tree: "tree_shaped E R" and p: "valid_path (p @ [k])" "table_at E R p = Some T"
    and absent: "\<not> present (E T k)" and fresh: "P \<notin> tables E R"
    and new: "present (E' T k)" "PTE_GET_ADDR (E' T k) = P" and empty: "\<And>l. l < 512 \<Longrightarrow> E' P l = 0"
    and same: "\<And>T' k'. T' \<in> tables E R \<Longrightarrow> k' < 512 \<Longrightarrow> (T', k') \<noteq> (T, k) \<Longrightarrow> E' T' k' = E T' k'"
  shows "tree_shaped E' R \<and> tables E' R \<subseteq> insert P (tables E R) \<and> table_at E' R (p @ [k]) = Some P
    \<and> (\<forall>ks d. valid_path ks \<longrightarrow> length ks = 3 \<longrightarrow> d < 512 \<longrightarrow> walk E' R ks d = walk E R ks d)"
proof -
  have vp: "valid_path p" using p(1) by (rule valid_path_prefix)
  have other: "table_at E' R ks = table_at E R ks" if "valid_path ks" "\<not> prefix (p @ [k]) ks" for ks
    using table_at_update [OF tree vp p(2) same that] by simp
  have "table_at E' R p = Some T"
    using other [OF vp] p(2) by (simp add: prefix_def)
  then have at: "table_at E' R (p @ [k]) = Some P" by (simp add: table_at_snoc new)
  have under: "table_at E' R ks = (if ks = p @ [k] then Some P else None) \<and> table_at E R ks = None"
    if ks: "valid_path ks" and pre: "prefix (p @ [k]) ks" for ks
  proof -
    obtain ls where ls: "ks = (p @ [k]) @ ls" using pre by (auto simp: prefix_def)
    have "table_at E R (p @ [k]) = None" using absent by (simp add: table_at_snoc p(2))
    then have "table_at E R ks = None" by (simp only: ls table_at_append [of _ _ "p @ [k]"]) simp
    moreover have "table_at E' R ks = (if ls = [] then Some P else None)"
    proof (cases ls)
      case Nil
      then show ?thesis using at by (simp add: ls)
    next
      case (Cons l ls')
      with ks have "l < 512" by (simp add: ls valid_path_def)
      then show ?thesis
        using at empty [of l] by (simp only: ls table_at_append [of _ _ "p @ [k]"] Cons) simp
    qed
    ultimately show ?thesis by (simp add: ls)
  qed
  have cases: "table_at E' R ks = (if ks = p @ [k] then Some P else table_at E R ks)"
    if "valid_path ks" for ks
    using other [OF that] under [OF that] by (cases "prefix (p @ [k]) ks") auto
  have "tables E' R \<subseteq> insert P (tables E R)"
    using cases unfolding tables_def by (auto split: if_splits)
  moreover have "tree_shaped E' R"
    unfolding tree_shaped_def
  proof (intro allI impI)
    fix ks ks' U
    assume v: "valid_path ks" "valid_path ks'" and at: "table_at E' R ks = Some U" "table_at E' R ks' = Some U"
    have fresh': "table_at E R js \<noteq> Some P" if "valid_path js" for js
      using fresh tables_mem [OF that] by auto
    show "ks = ks'"
      using at cases [OF v(1)] cases [OF v(2)] fresh' [OF v(1)] fresh' [OF v(2)]
        tree_shapedD [OF tree v] by (auto split: if_splits)
  qed
  moreover have "walk E' R ks d = walk E R ks d" if ks: "valid_path ks" "length ks = 3" "d < 512" for ks d
  proof (cases "ks = p @ [k]")
    case True
    then have "table_at E R ks = None" using under [OF ks(1)] by simp
    then show ?thesis using True at empty [OF ks(3)] by (simp add: walk_def)
  next
    case False
    then have "table_at E' R ks = table_at E R ks" using cases [OF ks(1)] by simp
    moreover have "E' U d = E U d" if "table_at E R ks = Some U" for U
    proof (rule same)
      show "U \<in> tables E R" by (rule tables_mem [OF ks(1) that])
      show "(U, d) \<noteq> (T, k)"
        using tree_shapedD [OF tree ks(1) vp, of U] that p ks(2) by (auto simp: valid_path_snoc)
    qed (rule ks(3))
    ultimately show ?thesis by (auto simp: walk_def split: option.split)
  qed
  ultimately show ?thesis using at by blast
qed

text \<open>A page entry is written: the tables stay, only the walk to this page changes.\<close>

lemma set_page_entry:
  assumes tree: "tree_shaped E R" and p: "valid_path p" "length p = 3" "table_at E R p = Some T"
    and same: "\<And>T' k'. T' \<in> tables E R \<Longrightarrow> k' < 512 \<Longrightarrow> (T', k') \<noteq> (T, k) \<Longrightarrow> E' T' k' = E T' k'"
  shows "same_tables E E' R \<and> (\<forall>ks d. valid_path ks \<longrightarrow> length ks = 3 \<longrightarrow> d < 512 \<longrightarrow>
    walk E' R ks d = (if ks = p \<and> d = k then (if present (E' T k) then Some (E' T k) else None)
      else walk E R ks d))"
proof -
  have at: "table_at E' R ks = table_at E R ks" if "valid_path ks" for ks
  proof (rule table_at_update [OF tree p(1,3) same that])
    show "\<not> prefix (p @ [k]) ks" using that p(2) by (auto simp: prefix_def valid_path_def)
  qed
  have "walk E' R ks d = (if ks = p \<and> d = k then (if present (E' T k) then Some (E' T k) else None)
      else walk E R ks d)" if ks: "valid_path ks" "d < 512" for ks d
  proof (cases "ks = p \<and> d = k")
    case True
    then show ?thesis using at [OF p(1)] p(3) by (simp add: walk_def)
  next
    case False
    have "E' U d = E U d" if "table_at E R ks = Some U" for U
    proof (rule same [OF tables_mem [OF ks(1) that] ks(2)])
      show "(U, d) \<noteq> (T, k)" using tree_shapedD [OF tree ks(1) p(1) that] p(3) False by auto
    qed
    then show ?thesis using False at [OF ks(1)] by (auto simp: walk_def split: option.split)
  qed
  with at show ?thesis by (simp add: same_tables_def)
qed

text \<open>A table without entries is taken out: no page is affected.\<close>

lemma unlink_table:
  assumes tree: "tree_shaped E R" and p: "valid_path (p @ [k])" "table_at E R p = Some T"
    and child: "table_at E R (p @ [k]) = Some C" and empty: "\<And>l. l < 512 \<Longrightarrow> E C l = 0"
    and gone: "E' T k = 0"
    and same: "\<And>T' k'. T' \<in> tables E R \<Longrightarrow> k' < 512 \<Longrightarrow> (T', k') \<noteq> (T, k) \<Longrightarrow> E' T' k' = E T' k'"
  shows "tree_shaped E' R \<and> tables E' R = tables E R - {C}
    \<and> (\<forall>ks. valid_path ks \<longrightarrow> table_at E' R ks = (if ks = p @ [k] then None else table_at E R ks))
    \<and> (\<forall>ks d. valid_path ks \<longrightarrow> length ks = 3 \<longrightarrow> d < 512 \<longrightarrow> walk E' R ks d = walk E R ks d)"
proof -
  have vp: "valid_path p" using p(1) by (rule valid_path_prefix)
  have other: "table_at E' R ks = table_at E R ks" if "valid_path ks" "\<not> prefix (p @ [k]) ks" for ks
    using table_at_update [OF tree vp p(2) same that] by simp
  have "table_at E' R p = Some T"
    using other [OF vp] p(2) by (simp add: prefix_def)
  then have none: "table_at E' R (p @ [k]) = None" by (simp add: table_at_snoc gone)
  have cases: "table_at E' R ks = (if ks = p @ [k] then None else table_at E R ks)"
    if ks: "valid_path ks" for ks
  proof (cases "prefix (p @ [k]) ks")
    case False
    then show ?thesis using other [OF ks] by auto
  next
    case True
    then obtain ls where ls: "ks = (p @ [k]) @ ls" by (auto simp: prefix_def)
    have "table_at E' R ks = None" by (simp only: ls table_at_append [of _ _ "p @ [k]"] none) simp
    moreover have "table_at E R ks = None" if neq: "ks \<noteq> p @ [k]"
    proof -
      obtain l ls' where l: "ls = l # ls'" using neq ls by (cases ls) auto
      with ks have "l < 512" by (simp add: ls valid_path_def)
      then show ?thesis using empty [of l] by (simp only: ls l table_at_append [of _ _ "p @ [k]"] child) simp
    qed
    ultimately show ?thesis by auto
  qed
  have only: "ks = p @ [k]" if "valid_path ks" "table_at E R ks = Some C" for ks
    by (rule tree_shapedD [OF tree that(1) p(1) that(2) child])
  have tabs: "tables E' R = tables E R - {C}"
  proof (intro set_eqI iffI)
    fix U assume "U \<in> tables E' R"
    then obtain ks where ks: "valid_path ks" "table_at E' R ks = Some U" by (auto simp: tables_def)
    then have "ks \<noteq> p @ [k]" "table_at E R ks = Some U"
      using none cases [OF ks(1)] by (auto split: if_splits)
    then show "U \<in> tables E R - {C}" using only [OF ks(1)] tables_mem [OF ks(1)] by auto
  next
    fix U assume "U \<in> tables E R - {C}"
    then obtain ks where ks: "valid_path ks" "table_at E R ks = Some U" and "U \<noteq> C" by (auto simp: tables_def)
    then have "table_at E' R ks = Some U" using cases [OF ks(1)] child by auto
    then show "U \<in> tables E' R" by (rule tables_mem [OF ks(1)])
  qed
  have "tree_shaped E' R"
    unfolding tree_shaped_def
  proof (intro allI impI)
    fix ks ks' U
    assume v: "valid_path ks" "valid_path ks'" and at: "table_at E' R ks = Some U" "table_at E' R ks' = Some U"
    show "ks = ks'"
      using at cases [OF v(1)] cases [OF v(2)] tree_shapedD [OF tree v] by (auto split: if_splits)
  qed
  moreover have "walk E' R ks d = walk E R ks d" if ks: "valid_path ks" "length ks = 3" "d < 512" for ks d
  proof (cases "ks = p @ [k]")
    case True
    then show ?thesis using cases [OF ks(1)] child empty [OF ks(3)] by (simp add: walk_def)
  next
    case False
    then have "table_at E' R ks = table_at E R ks" using cases [OF ks(1)] by simp
    moreover have "E' U d = E U d" if "table_at E R ks = Some U" for U
    proof (rule same [OF tables_mem [OF ks(1) that] ks(3)])
      show "(U, d) \<noteq> (T, k)"
        using tree_shapedD [OF tree ks(1) vp, of U] that p ks(2) by (auto simp: valid_path_snoc)
    qed
    ultimately show ?thesis by (auto simp: walk_def split: option.split)
  qed
  ultimately show ?thesis using tabs cases by blast
qed

section \<open>Entries in memory\<close>

lemma page_cells_disjoint:
  fixes a b :: u64
  assumes "a mod PAGE_SIZE = 0" and "b mod PAGE_SIZE = 0" and "a \<noteq> b"
    and "x + n \<le> 4096" and "y + k \<le> 4096" and "0 < n" and "0 < k"
  shows "disjoint_ranges (a + h + of_nat x) n (b + h + of_nat y) k"
proof -
  have far: "n \<le> unat ((b + h + of_nat y) - (a + h + of_nat x))"
    if ab: "a mod PAGE_SIZE = 0" "b mod PAGE_SIZE = 0" "a \<noteq> b"
      and xy: "x + n \<le> 4096" "y + k \<le> 4096" "0 < k" for a b :: u64 and x n y k :: nat
  proof -
    have ua: "unat a mod 4096 = 0" "unat b mod 4096 = 0"
      using ab by (simp_all add: PAGE_SIZE_def word_unat_eq_iff unat_mod)
    define d where "d = unat (b - a)"
    have dm: "d mod 4096 = 0"
    proof -
      have "unat b - unat a = d \<or> (2 ^ 64 + unat b) - unat a = d"
        by (auto simp: d_def word_diff_cases)
      moreover have "4096 dvd unat b - unat a" "4096 dvd (2 ^ 64 + unat b) - unat a"
        using ua by (auto intro!: dvd_diff_nat dvd_add simp: mod_eq_0_iff_dvd)
      ultimately show ?thesis by auto
    qed
    have "d \<noteq> 0" using ab(3) by (simp add: d_def unat_eq_0)
    moreover have "d < 2 ^ 64" using unsigned_less [of "b - a", where ?'a = nat] by (simp add: d_def)
    ultimately have bounds: "4096 \<le> d" "d \<le> 2 ^ 64 - 4096" using dm by (auto elim!: dvdE simp: mod_eq_0_iff_dvd)
    have "(b + h + of_nat y) - (a + h + of_nat x) = of_nat (d + y - x)"
    proof -
      have "(b + h + of_nat y) - (a + h + of_nat x) = (b - a) + of_nat y - of_nat x" by simp
      also have "b - a = of_nat d" by (simp add: d_def)
      also have "of_nat d + of_nat y - of_nat x = (of_nat (d + y - x) :: u64)"
        using bounds(1) xy by (simp add: of_nat_diff)
      finally show ?thesis .
    qed
    moreover have "d + y - x < 2 ^ 64" using bounds xy by linarith
    ultimately have "unat ((b + h + of_nat y) - (a + h + of_nat x)) = d + y - x"
      by (simp add: unat_of_nat_less)
    then show ?thesis using bounds xy by linarith
  qed
  show ?thesis
    unfolding disjoint_ranges_def using far [of a b x n y k] far [of b a y k x n] assms by auto
qed

text \<open>The entries of the tables in frames, at offset \<open>h\<close> in the direct map.\<close>

definition entries :: "memory \<Rightarrow> u64 \<Rightarrow> u64 \<Rightarrow> u64 \<Rightarrow> u64" where
  "entries m h T k = table_get m (T + h) k"

lemma entry_address: "T + h + 8 * k = T + h + of_nat (8 * unat k)" for k :: u64
  by simp

lemma entry_index: "k < 512 \<Longrightarrow> unat k < 512" for k :: u64
  by (simp add: word_less_nat_alt)

lemma entries_write:
  assumes "T mod PAGE_SIZE = 0" and "U mod PAGE_SIZE = 0" and "k < 512" and "l < 512"
  shows "entries (write64 m (T + h + 8 * k) v) h U l = (if U = T \<and> l = k then v else entries m h U l)"
proof (cases "U = T")
  case True
  show ?thesis
    unfolding entries_def table_get_def True entry_address
    using cells64.ld_st_index [of "unat k" 512 "unat l" m "T + h" v] entry_index [OF assms(3)] entry_index [OF assms(4)]
    by (auto simp: word_unat_eq_iff)
next
  case False
  then have "disjoint_ranges (T + h + 8 * k) 8 (U + h + 8 * l) 8"
    unfolding entry_address using entry_index [OF assms(3)] entry_index [OF assms(4)] assms(1,2)
    by (intro page_cells_disjoint) auto
  then show ?thesis using False by (simp add: entries_def table_get_def load_store_other)
qed

lemma entries_fill:
  assumes "P mod PAGE_SIZE = 0" and "U mod PAGE_SIZE = 0" and "l < 512"
  shows "entries (filled (P + h) 0 PAGE_SIZE m) h U l = (if U = P then 0 else entries m h U l)"
proof (cases "U = P")
  case True
  have "load_le (filled (P + h) 0 PAGE_SIZE m) (P + h + 8 * l) 8 =
      (load_le (\<lambda>_. 0) (P + h + 8 * l) 8 :: u64)"
  proof (rule load_le_cong)
    fix i :: nat assume i: "i < 8"
    have "unat (P + h + 8 * l + of_nat i - (P + h)) = 8 * unat l + i"
    proof -
      have "P + h + 8 * l + of_nat i - (P + h) = of_nat (8 * unat l + i)" by simp
      also have "unat (of_nat (8 * unat l + i) :: u64) = 8 * unat l + i"
        using entry_index [OF assms(3)] i by (intro unat_of_nat_less) simp
      finally show ?thesis .
    qed
    then show "filled (P + h) 0 PAGE_SIZE m (P + h + 8 * l + of_nat i) = 0"
      using entry_index [OF assms(3)] i by (simp add: filled_def word_less_nat_alt PAGE_SIZE_def)
  qed
  also have "\<dots> = 0" by (rule bit_word_eqI) (simp add: bit_load_le)
  finally show ?thesis using True by (simp add: entries_def table_get_def)
next
  case False
  then have dis: "disjoint_ranges (P + h + of_nat 0) 4096 (U + h + of_nat (8 * unat l)) 8"
    using entry_index [OF assms(3)] assms(1,2) by (intro page_cells_disjoint) auto
  have "load_le (filled (P + h) 0 PAGE_SIZE m) (U + h + 8 * l) 8 = (load_le m (U + h + 8 * l) 8 :: u64)"
  proof (rule load_le_cong)
    fix i :: nat assume i: "i < 8"
    have "4096 \<le> unat (U + h + of_nat (8 * unat l) + of_nat i - (P + h + of_nat 0))"
      by (rule unat_offset_other [OF dis i])
    then show "filled (P + h) 0 PAGE_SIZE m (U + h + 8 * l + of_nat i) = m (U + h + 8 * l + of_nat i)"
      by (simp add: filled_def word_less_nat_alt PAGE_SIZE_def)
  qed
  then show ?thesis using False by (simp add: entries_def table_get_def)
qed

section \<open>The invariant of the page tables\<close>

text \<open>
  The tables reached from the root \<open>R\<close> form a tree, and their frames are in use; the frame pool
  is sound. \<open>page_entry\<close> is the walk for a virtual address: its result is the entry of the last
  level when all levels are present.
\<close>

definition vm_inv :: "u64 \<Rightarrow> u64 \<Rightarrow> 'z pmm_scheme \<Rightarrow> bool" where
  "vm_inv h R s \<longleftrightarrow> hhdm_response s = Some h \<and> pool_ok s
     \<and> tree_shaped (entries (mem s) h) R \<and> tables (entries (mem s) h) R \<subseteq> used_frames s"

definition table_path :: "u64 \<Rightarrow> u64 list" where
  "table_path v = [pml4_index v, pdpt_index v, pd_index v]"

definition page_entry :: "u64 \<Rightarrow> u64 \<Rightarrow> 'z machine_scheme \<Rightarrow> u64 \<Rightarrow> u64 option" where
  "page_entry h R s v = walk (entries (mem s) h) R (table_path v) (pt_index v)"

lemma index_less [simp]: "pml4_index v < 512" "pdpt_index v < 512" "pd_index v < 512" "pt_index v < 512"
  unfolding pml4_index_def pdpt_index_def pd_index_def pt_index_def
  by (rule le_less_trans [OF word_and_le1], simp)+

lemma table_path_valid [simp]: "valid_path (table_path v)" "length (table_path v) = 3"
  by (simp_all add: table_path_def valid_path_def)

lemma vm_inv_table:
  assumes "vm_inv h R s" and "T \<in> tables (entries (mem s) h) R"
  shows "T \<noteq> 0 \<and> T mod PAGE_SIZE = 0"
  using assms used_frames_page [of s T] by (auto simp: vm_inv_def)

text \<open>What the levels of a walk rely on: a step keeps the invariant and every page.\<close>

definition same_pages_mapped :: "u64 \<Rightarrow> u64 \<Rightarrow> 'z machine_scheme \<Rightarrow> 'z machine_scheme \<Rightarrow> bool" where
  "same_pages_mapped h R s t \<longleftrightarrow> (\<forall>v. page_entry h R t v = page_entry h R s v)"

lemma pte_addr_mask: "PTE_ADDR_MASK = push_bit 12 (mask 40)"
  by (simp add: PTE_ADDR_MASK_def mask_eq_exp_minus_1 push_bit_eq_mult)

lemma pte_get_addr_frame:
  assumes "P mod PAGE_SIZE = 0" and "unat P < 2 ^ 52" and "fl AND PTE_ADDR_MASK = 0"
  shows "PTE_GET_ADDR (P OR fl) = P"
proof -
  have "P AND PTE_ADDR_MASK = P"
  proof (rule bit_word_eqI)
    fix n assume n: "n < LENGTH(64)"
    have "take_bit 12 P = 0" using assms(1) by (simp add: take_bit_eq_mod PAGE_SIZE_def)
    then have low: "\<not> bit P n" if "n < 12" using that by (metis bit_take_bit_iff bit_0_eq bot_apply bot_bool_def)
    have "take_bit 52 P = P"
      using assms(2) by (simp add: take_bit_word_eq_self word_unat_eq_iff unsigned_take_bit_eq take_bit_nat_eq_self)
    then have high: "\<not> bit P n" if "52 \<le> n" using that by (metis bit_take_bit_iff not_less)
    show "bit (P AND PTE_ADDR_MASK) n \<longleftrightarrow> bit P n"
      using low high n
      by (cases "n < 12"; cases "52 \<le> n")
        (auto simp: bit_and_iff pte_addr_mask bit_push_bit_iff bit_mask_iff)
  qed
  then show ?thesis
    using assms(3) by (simp add: PTE_GET_ADDR_def bit.conj_disj_distrib2)
qed

lemma vm_inv_same_tables:
  assumes inv: "vm_inv h R s" and t: "hhdm_response t = Some h" "pool_ok t" "used_frames s \<subseteq> used_frames t"
    and same: "\<And>T k. T \<in> tables (entries (mem s) h) R \<Longrightarrow> k < 512 \<Longrightarrow>
      entries (mem t) h T k = entries (mem s) h T k"
  shows "vm_inv h R t \<and> same_pages_mapped h R s t \<and>
    (\<forall>ks. valid_path ks \<longrightarrow> table_at (entries (mem t) h) R ks = table_at (entries (mem s) h) R ks)"
proof -
  have at: "table_at (entries (mem t) h) R ks = table_at (entries (mem s) h) R ks" if "valid_path ks" for ks
    using table_at_cong [OF same that] .
  then have st: "same_tables (entries (mem s) h) (entries (mem t) h) R" by (simp add: same_tables_def)
  have "page_entry h R t v = page_entry h R s v" for v
    using at [OF table_path_valid(1), of v] same [OF tables_mem [OF table_path_valid(1) [of v]] index_less(4)]
    by (auto simp: page_entry_def walk_def split: option.split)
  then show ?thesis
    using same_tables_tree [OF st] inv t at by (auto simp: vm_inv_def same_pages_mapped_def)
qed

text \<open>One step down: the next table exists or is allocated and linked.\<close>

lemma get_or_allocate_step:
  fixes s :: "'z vmm_scheme"
  assumes inv: "vm_inv h R s" and p: "valid_path (p @ [k])" "table_at (entries (mem s) h) R p = Some T"
    and flags: "fl AND PTE_ADDR_MASK = 0" "present fl"
    and run: "get_or_allocate_next_level (T + h) k fl s = Done v t"
  shows "vm_inv h R t \<and> same_pages_mapped h R s t
    \<and> (v \<noteq> 0 \<longrightarrow> (\<exists>U. v = U + h \<and> table_at (entries (mem t) h) R (p @ [k]) = Some U))"
proof (cases "present (table_get (mem s) (T + h) k)")
  case True
  then have "t = s" "v = PTE_GET_ADDR (table_get (mem s) (T + h) k) + h"
    using run inv by (auto simp: get_or_allocate_next_level_def vm_inv_def)
  with True inv p show ?thesis by (auto simp: same_pages_mapped_def table_at_snoc entries_def)
next
  case False
  let ?E = "entries (mem s) h"
  have vp: "valid_path p" and k: "k < 512" using p(1) by (simp_all add: valid_path_snoc)
  note T = vm_inv_table [OF inv tables_mem [OF vp p(2)]]
  have h: "hhdm_response s = Some h" and pool: "pool_ok s" and tree: "tree_shaped ?E R"
    and sub: "tables ?E R \<subseteq> used_frames s" using inv by (simp_all add: vm_inv_def)
  have run': "allocate_next_level (T + h) k fl s = Done v t"
    using run False by (simp add: get_or_allocate_next_level_def)
  then obtain P s1 where alloc: "pp_alloc s = Done P s1" by (auto simp: allocate_next_level_def bindO_Done_iff)
  note frames = pp_alloc_frames [OF pool alloc]
  have h1: "hhdm_response s1 = Some h" and pool1: "pool_ok s1"
    using frames h pool pool_ok_frame [of s s1] by (auto simp: pmm_frame_def)
  show ?thesis
  proof (cases "P = 0")
    case True
    have v: "v = 0" and t: "mem t = mem s1" "hhdm_response t = Some h" "page_mappings t = page_mappings s1"
        "page_bitmap t = page_bitmap s1"
      using run' alloc h1 by (auto simp: allocate_next_level_def True)
    have pool_t: "pool_ok t" using pool_ok_same [OF t(3)] pool1 by simp
    have "used_frames t = used_frames s1"
      using t frame_of_same [OF t(3)] by (simp add: used_frames_def pages_in_use_def)
    then have ft: "used_frames s \<subseteq> used_frames t" using frames by simp
    have "entries (mem t) h U l = ?E U l" if "U \<in> tables ?E R" "l < 512" for U l
      using frames vm_inv_table [OF inv that(1)] that(2) entries_fill [of 0 U l h "mem s"] h
      by (auto simp: t(1) True)
    with vm_inv_same_tables [OF inv t(2) pool_t ft] v show ?thesis by blast
  next
    case False
    let ?m = "filled (P + h) 0 PAGE_SIZE (write64 (filled (P + h) 0 PAGE_SIZE (mem s)) (T + h + 8 * k) (P OR fl))"
    have P: "P \<notin> used_frames s" "P \<in> used_frames s1" "P mod PAGE_SIZE = 0" "unat P < 2 ^ 52"
      and mem1: "mem s1 = filled (P + h) 0 PAGE_SIZE (mem s)"
      using frames h False by auto
    have fl0: "fl \<noteq> 0" using flags(2) by auto
    have v: "v = P + h" and t: "mem t = ?m" "hhdm_response t = Some h" "page_mappings t = page_mappings s1"
        "page_bitmap t = page_bitmap s1"
      using run' alloc h1 False fl0 mem1
      by (auto simp: allocate_next_level_def table_set_def Let_def)
    have pool_t: "pool_ok t" using pool_ok_same [OF t(3)] pool1 by simp
    have "used_frames t = used_frames s1"
      using t frame_of_same [OF t(3)] by (simp add: used_frames_def pages_in_use_def)
    then have ft: "used_frames s \<subseteq> used_frames t" "P \<in> used_frames t" using frames P by simp_all
    have PT: "P \<noteq> T" using P(1) sub tables_mem [OF vp p(2)] by auto
    have ent: "entries (mem t) h U l = (if U = P then 0 else if U = T \<and> l = k then P OR fl else ?E U l)"
      if "U mod PAGE_SIZE = 0" "l < 512" for U l
      using that T P(3) k by (simp add: t(1) entries_fill entries_write)
    have link: "tree_shaped (entries (mem t) h) R \<and> tables (entries (mem t) h) R \<subseteq> insert P (tables ?E R)
      \<and> table_at (entries (mem t) h) R (p @ [k]) = Some P
      \<and> (\<forall>ks d. valid_path ks \<longrightarrow> length ks = 3 \<longrightarrow> d < 512 \<longrightarrow> walk (entries (mem t) h) R ks d = walk ?E R ks d)"
    proof (rule link_table [OF tree p])
      show "\<not> present (?E T k)"
        using \<open>\<not> present (table_get (mem s) (T + h) k)\<close> by (simp add: entries_def)
      show "P \<notin> tables ?E R" using P(1) sub by auto
      have "entries (mem t) h T k = P OR fl" using ent [of T k] T k PT by simp
      then show "present (entries (mem t) h T k)" "PTE_GET_ADDR (entries (mem t) h T k) = P"
        using pte_get_addr_frame [OF P(3,4) flags(1)] flags(2)
        by (simp_all add: present_odd even_or_iff)
      show "entries (mem t) h P l = 0" if "l < 512" for l using ent [of P l] P(3) that by simp
      show "entries (mem t) h U l = ?E U l" if "U \<in> tables ?E R" "l < 512" "(U, l) \<noteq> (T, k)" for U l
        using ent [of U l] vm_inv_table [OF inv that(1)] that P(1) sub by auto
    qed
    then have "vm_inv h R t" using t(2) pool_t ft sub by (auto simp: vm_inv_def)
    moreover have "same_pages_mapped h R s t" using link by (simp add: same_pages_mapped_def page_entry_def)
    ultimately show ?thesis using v link by auto
  qed
qed

section \<open>Mapping and unmapping\<close>

text \<open>
  Two addresses are in the same page when bits 12 to 47 agree, the bits the four indices hold.
\<close>

definition same_page :: "u64 \<Rightarrow> u64 \<Rightarrow> bool" where
  "same_page v w \<longleftrightarrow> drop_bit 12 (take_bit 48 v) = drop_bit 12 (take_bit 48 w)"

lemma nine_bits: "(0x1FF :: u64) = mask 9"
  by (simp add: mask_eq_exp_minus_1)

lemma bits_cut_eq_iff:
  "drop_bit n (take_bit (n + k) v) = drop_bit n (take_bit (n + k) w) \<longleftrightarrow>
    (\<forall>i. n \<le> i \<and> i < n + k \<longrightarrow> bit v i = bit w i)" for v w :: u64
proof
  assume eq: "drop_bit n (take_bit (n + k) v) = drop_bit n (take_bit (n + k) w)"
  show "\<forall>i. n \<le> i \<and> i < n + k \<longrightarrow> bit v i = bit w i"
  proof (intro allI impI)
    fix i assume i: "n \<le> i \<and> i < n + k"
    have "bit (drop_bit n (take_bit (n + k) v)) (i - n) = bit (drop_bit n (take_bit (n + k) w)) (i - n)"
      by (simp only: eq)
    then show "bit v i = bit w i" using i by (auto simp: bit_drop_bit_eq bit_take_bit_iff)
  qed
next
  assume "\<forall>i. n \<le> i \<and> i < n + k \<longrightarrow> bit v i = bit w i"
  then show "drop_bit n (take_bit (n + k) v) = drop_bit n (take_bit (n + k) w)"
    by (intro bit_word_eqI) (auto simp: bit_drop_bit_eq bit_take_bit_iff)
qed

lemma index_eq_iff:
  "drop_bit n v AND 0x1FF = drop_bit n w AND 0x1FF \<longleftrightarrow>
    (\<forall>i. n \<le> i \<and> i < n + 9 \<longrightarrow> bit v i = bit w i)" for v w :: u64
proof -
  have "drop_bit n x AND 0x1FF = drop_bit n (take_bit (n + 9) x)" for x :: u64
    by (simp add: nine_bits take_bit_eq_mask [symmetric] drop_bit_take_bit)
  then show ?thesis using bits_cut_eq_iff [of n 9 v w] by simp
qed

lemma same_page_iff:
  "same_page v w \<longleftrightarrow> table_path v = table_path w \<and> pt_index v = pt_index w"
proof -
  have "same_page v w \<longleftrightarrow> (\<forall>i. 12 \<le> i \<and> i < 48 \<longrightarrow> bit v i = bit w i)"
    using bits_cut_eq_iff [of 12 36 v w] by (simp add: same_page_def)
  also have "\<dots> \<longleftrightarrow> (\<forall>i. 39 \<le> i \<and> i < 48 \<longrightarrow> bit v i = bit w i) \<and> (\<forall>i. 30 \<le> i \<and> i < 39 \<longrightarrow> bit v i = bit w i)
    \<and> (\<forall>i. 21 \<le> i \<and> i < 30 \<longrightarrow> bit v i = bit w i) \<and> (\<forall>i. 12 \<le> i \<and> i < 21 \<longrightarrow> bit v i = bit w i)"
    (is "?l \<longleftrightarrow> ?r")
  proof
    assume r: ?r
    show ?l
    proof (intro allI impI)
      fix i :: nat assume "12 \<le> i \<and> i < 48"
      then consider "12 \<le> i \<and> i < 21" | "21 \<le> i \<and> i < 30" | "30 \<le> i \<and> i < 39" | "39 \<le> i \<and> i < 48"
        by linarith
      then show "bit v i = bit w i" by cases (use r in blast)+
    qed
  qed auto
  finally show ?thesis
    using index_eq_iff [of 39 v w] index_eq_iff [of 30 v w] index_eq_iff [of 21 v w] index_eq_iff [of 12 v w]
    by (simp add: table_path_def pml4_index_def pdpt_index_def pd_index_def pt_index_def)
qed

lemma page_align_bits: "bit (v AND NOT (PAGE_SIZE - 1)) i \<longleftrightarrow> 12 \<le> i \<and> bit v i" for v :: u64
proof -
  have "PAGE_SIZE - 1 = mask 12" by (simp add: PAGE_SIZE_def mask_eq_exp_minus_1)
  then show ?thesis
    by (auto simp: bit_and_iff bit_not_iff bit_mask_iff not_less dest: bit_imp_le_length)
qed

lemma same_page_align: "same_page (v AND NOT (PAGE_SIZE - 1)) v"
  using bits_cut_eq_iff [of 12 36 "v AND NOT (PAGE_SIZE - 1)" v]
  by (simp add: same_page_def page_align_bits)

lemma same_pages_mapped_trans:
  "same_pages_mapped h R s t \<Longrightarrow> same_pages_mapped h R t u \<Longrightarrow> same_pages_mapped h R s u"
  by (simp add: same_pages_mapped_def)

lemma vm_inv_cong:
  "mem t = mem s \<Longrightarrow> hhdm_response t = hhdm_response s \<Longrightarrow> page_mappings t = page_mappings s \<Longrightarrow>
    page_bitmap t = page_bitmap s \<Longrightarrow> vm_inv h R t = vm_inv h R s"
  using pool_ok_same [of t s] frame_of_same [of t s]
  by (simp add: vm_inv_def used_frames_def pages_in_use_def)

lemma vm_inv_emit [simp]: "vm_inv h R (emit e s) = vm_inv h R s"
  by (rule vm_inv_cong) simp_all

lemma page_entry_emit [simp]: "page_entry h R (emit e s) v = page_entry h R s v"
  by (simp add: page_entry_def)

text \<open>The last step: the entry of a page is written.\<close>

lemma write_page_entry:
  fixes s t :: "'z vmm_scheme"
  assumes inv: "vm_inv h R s" and T: "table_at (entries (mem s) h) R (table_path v) = Some T"
    and t: "t = invlpg w (table_set (T + h) (pt_index v) e s)"
  shows "vm_inv h R t \<and> page_entry h R t x =
    (if same_page x v then (if present e then Some e else None) else page_entry h R s x)"
proof -
  let ?E = "entries (mem s) h" and ?E' = "entries (mem t) h"
  have tree: "tree_shaped ?E R" using inv by (simp add: vm_inv_def)
  note Tp = vm_inv_table [OF inv tables_mem [OF table_path_valid(1) T]]
  have ent: "?E' U l = (if U = T \<and> l = pt_index v then e else ?E U l)" if "U mod PAGE_SIZE = 0" "l < 512" for U l
    using entries_write [of T U "pt_index v" l "mem s" h e] Tp that by (simp add: t invlpg_def table_set_def)
  have other: "?E' U l = ?E U l" if "U \<in> tables ?E R" "l < 512" "(U, l) \<noteq> (T, pt_index v)" for U l
    using ent [of U l] vm_inv_table [OF inv that(1)] that by auto
  have set: "same_tables ?E ?E' R" "\<forall>ks d. valid_path ks \<longrightarrow> length ks = 3 \<longrightarrow> d < 512 \<longrightarrow>
      walk ?E' R ks d = (if ks = table_path v \<and> d = pt_index v
        then (if present (?E' T (pt_index v)) then Some (?E' T (pt_index v)) else None) else walk ?E R ks d)"
    using set_page_entry [OF tree table_path_valid T, of "pt_index v" ?E'] other by auto
  have tf: "hhdm_response t = hhdm_response s" "page_mappings t = page_mappings s"
      "page_bitmap t = page_bitmap s"
    by (simp_all add: t invlpg_def table_set_def)
  then have "pool_ok t = pool_ok s" "used_frames t = used_frames s"
    using pool_ok_same [of t s] frame_of_same [of t s] by (simp_all add: used_frames_def pages_in_use_def)
  then have "vm_inv h R t"
    using same_tables_tree [OF set(1)] inv tf(1) by (simp add: vm_inv_def)
  moreover have "?E' T (pt_index v) = e" using ent [of T "pt_index v"] Tp by simp
  ultimately show ?thesis using set(2) by (simp add: page_entry_def same_page_iff)
qed

definition map_alloc_flags :: "u64 \<Rightarrow> u64" where
  "map_alloc_flags flags = (if flags AND PTE_USER \<noteq> 0 then PTE_PRESENT OR PTE_WRITABLE OR PTE_USER
     else PTE_PRESENT OR PTE_WRITABLE)"

lemma map_alloc_flags_ok: "map_alloc_flags fl AND PTE_ADDR_MASK = 0" "present (map_alloc_flags fl)"
  by (simp_all add: map_alloc_flags_def kernel_consts)

text \<open>Following or building the three upper levels.\<close>

definition map_levels :: "pagemap \<Rightarrow> u64 \<Rightarrow> u64 \<Rightarrow> 'z vmm_scheme \<Rightarrow> (u64, 'z vmm_scheme) outcome" where
  "map_levels pm v fl s =
     bindO (get_or_allocate_next_level (top_level pm) (pml4_index v) fl s) (\<lambda>pdpt s.
     if pdpt = 0 then Done 0 s else
     bindO (get_or_allocate_next_level pdpt (pdpt_index v) fl s) (\<lambda>pd s.
     if pd = 0 then Done 0 s else get_or_allocate_next_level pd (pd_index v) fl s))"

lemma map_page_levels:
  "map_page pm virt phys flags s =
    (let v = virt AND NOT (PAGE_SIZE - 1); p = phys AND NOT (PAGE_SIZE - 1) in
     bindO (map_levels pm v (map_alloc_flags flags) s) (\<lambda>pt s.
       if pt = 0 then
         Done False (k_err ''Failed to map virtual addr %p -> physical addr %p!'' [Num v, Num p] s)
       else Done True (invlpg v (table_set pt (pt_index v) (p OR flags OR PTE_PRESENT) s))))"
  by (auto simp: map_page_def map_levels_def map_alloc_flags_def Let_def bindO_assoc or.assoc
      intro!: bindO_cong)

lemma map_levels_Done:
  fixes s :: "'z vmm_scheme"
  assumes inv: "vm_inv h R s" and root: "top_level pm = R + h"
    and flags: "fl AND PTE_ADDR_MASK = 0" "present fl"
    and run: "map_levels pm v fl s = Done pt t"
  shows "vm_inv h R t \<and> same_pages_mapped h R s t
    \<and> (pt \<noteq> 0 \<longrightarrow> (\<exists>T. pt = T + h \<and> table_at (entries (mem t) h) R (table_path v) = Some T))"
proof -
  obtain pdpt s1 where r1: "get_or_allocate_next_level (R + h) (pml4_index v) fl s = Done pdpt s1"
    and k1: "(if pdpt = 0 then Done 0 s1 else
       bindO (get_or_allocate_next_level pdpt (pdpt_index v) fl s1) (\<lambda>pd s.
       if pd = 0 then Done 0 s else get_or_allocate_next_level pd (pd_index v) fl s)) = Done pt t"
    using run by (auto simp only: map_levels_def root elim!: bindO_DoneE)
  have "valid_path ([] @ [pml4_index v])" "valid_path ([pml4_index v] @ [pdpt_index v])"
      "valid_path ([pml4_index v, pdpt_index v] @ [pd_index v])"
    by (simp_all add: valid_path_def)
  note vp = this
  note 1 = get_or_allocate_step [OF inv vp(1) _ flags r1, simplified]
  show ?thesis
  proof (cases "pdpt = 0")
    case True
    then show ?thesis using 1 k1 by simp
  next
    case False
    then obtain T1 where T1: "pdpt = T1 + h" "table_at (entries (mem s1) h) R [pml4_index v] = Some T1"
      using 1 by auto
    obtain pd s2 where r2: "get_or_allocate_next_level (T1 + h) (pdpt_index v) fl s1 = Done pd s2"
      and k2: "(if pd = 0 then Done 0 s2 else get_or_allocate_next_level pd (pd_index v) fl s2) = Done pt t"
      using k1 False by (auto simp only: if_False T1(1) elim!: bindO_DoneE)
    have "vm_inv h R s1" using 1 by simp
    note 2 = get_or_allocate_step [OF this vp(2) T1(2) flags r2, simplified]
    show ?thesis
    proof (cases "pd = 0")
      case True
      then show ?thesis using 1 2 k2 same_pages_mapped_trans [of h R s s1 s2] by auto
    next
      case False
      then obtain T2 where T2: "pd = T2 + h"
          "table_at (entries (mem s2) h) R [pml4_index v, pdpt_index v] = Some T2"
        using 2 by auto
      have r3: "get_or_allocate_next_level (T2 + h) (pd_index v) fl s2 = Done pt t"
        using k2 False by (simp only: if_False T2(1))
      have "vm_inv h R s2" using 2 by simp
      note 3 = get_or_allocate_step [OF this vp(3) T2(2) flags r3, simplified]
      then show ?thesis
        using 1 2 same_pages_mapped_trans [of h R s s1 s2] same_pages_mapped_trans [of h R s s2 t]
        by (auto simp: table_path_def)
    qed
  qed
qed

lemma map_page_Done:
  assumes "vm_inv h R s" and "top_level pm = R + h" and "map_page pm virt phys flags s = Done ok t"
  shows "vm_inv h R t \<and> (\<forall>x. page_entry h R t x =
    (if ok \<and> same_page x virt then Some ((phys AND NOT (PAGE_SIZE - 1)) OR flags OR PTE_PRESENT)
     else page_entry h R s x))"
proof -
  define v where "v = virt AND NOT (PAGE_SIZE - 1)"
  define e where "e = (phys AND NOT (PAGE_SIZE - 1)) OR flags OR PTE_PRESENT"
  have same: "same_page x v = same_page x virt" for x
    using same_page_align [of virt] by (simp add: same_page_def v_def)
  have pe: "present e" unfolding present_odd e_def by (simp add: even_or_iff PTE_PRESENT_def)
  obtain pt s1 where run: "map_levels pm v (map_alloc_flags flags) s = Done pt s1"
    and rest: "(if pt = 0 then Done False (k_err ''Failed to map virtual addr %p -> physical addr %p!''
        [Num v, Num (phys AND NOT (PAGE_SIZE - 1))] s1)
      else Done True (invlpg v (table_set pt (pt_index v) e s1))) = Done ok t"
    using assms(3) by (auto simp only: map_page_levels Let_def v_def e_def elim!: bindO_DoneE)
  note levels = map_levels_Done [OF assms(1,2) map_alloc_flags_ok run]
  show ?thesis
  proof (cases "pt = 0")
    case True
    then show ?thesis using rest levels by (auto simp: same_pages_mapped_def)
  next
    case False
    then obtain T where T: "pt = T + h" "table_at (entries (mem s1) h) R (table_path v) = Some T"
      using levels by auto
    have "t = invlpg v (table_set (T + h) (pt_index v) e s1)" "ok" using rest False T(1) by auto
    with write_page_entry [OF _ T(2) this(1)] levels show ?thesis
      by (simp add: same_pages_mapped_def same pe e_def [symmetric])
  qed
qed

text \<open>The steps of \<open>unmap_page\<close>: following a level, unlinking an empty table, releasing its frame.\<close>

lemma table_empty_from_iff:
  "table_empty_from m T i \<longleftrightarrow> (\<forall>l. i \<le> l \<and> l < 512 \<longrightarrow> table_get m T l = 0)"
proof (induction m T i rule: table_empty_from.induct)
  case (1 m T i)
  show ?case
  proof (cases "i < 512")
    case False
    then show ?thesis by (auto simp: table_empty_from.simps [of m T i])
  next
    case True
    have "i \<le> l \<longleftrightarrow> l = i \<or> i + 1 \<le> l" for l
      using unat_inc [OF True] by (auto simp: word_le_nat_alt word_unat_eq_iff)
    then show ?thesis
      using 1 True by (auto simp: table_empty_from.simps [of m T i])
  qed
qed

lemma is_table_empty_iff: "is_table_empty m (T + h) \<longleftrightarrow> (\<forall>l < 512. entries m h T l = 0)"
  by (simp add: is_table_empty_def table_empty_from_iff entries_def)

lemma get_next_level_step:
  fixes s :: "'z vmm_scheme"
  assumes "hhdm_response s = Some h" and "table_at (entries (mem s) h) R p = Some T"
    and "get_next_level (T + h) k s = Done v t"
  shows "(\<exists>U. table_at (entries (mem s) h) R (p @ [k]) = Some U \<and> v = U + h \<and> t = s
      \<and> U = PTE_GET_ADDR (table_get (mem s) (T + h) k))
    \<or> (table_at (entries (mem s) h) R (p @ [k]) = None \<and> v = 0 \<and> (\<exists>e. t = emit e s))"
  using assms by (auto simp: get_next_level_def table_at_snoc entries_def split: if_splits)

lemma unlink_step:
  fixes s t :: "'z vmm_scheme"
  assumes inv: "vm_inv h R s" and p: "valid_path (p @ [k])" "table_at (entries (mem s) h) R p = Some T"
    and C: "table_at (entries (mem s) h) R (p @ [k]) = Some C" and empty: "is_table_empty (mem s) (C + h)"
    and t: "t = table_set (T + h) k 0 s"
  shows "vm_inv h R t \<and> same_pages_mapped h R s t \<and> C \<notin> tables (entries (mem t) h) R
    \<and> (\<forall>ks. valid_path ks \<longrightarrow> table_at (entries (mem t) h) R ks =
        (if ks = p @ [k] then None else table_at (entries (mem s) h) R ks))"
proof -
  let ?E = "entries (mem s) h" and ?E' = "entries (mem t) h"
  have tree: "tree_shaped ?E R" using inv by (simp add: vm_inv_def)
  have vp: "valid_path p" and k: "k < 512" using p(1) by (simp_all add: valid_path_snoc)
  note Tp = vm_inv_table [OF inv tables_mem [OF vp p(2)]]
  have ent: "?E' U l = (if U = T \<and> l = k then 0 else ?E U l)" if "U mod PAGE_SIZE = 0" "l < 512" for U l
    using entries_write [of T U k l "mem s" h 0] Tp k that by (simp add: t table_set_def)
  have "tree_shaped ?E' R \<and> tables ?E' R = tables ?E R - {C}
    \<and> (\<forall>ks. valid_path ks \<longrightarrow> table_at ?E' R ks = (if ks = p @ [k] then None else table_at ?E R ks))
    \<and> (\<forall>ks d. valid_path ks \<longrightarrow> length ks = 3 \<longrightarrow> d < 512 \<longrightarrow> walk ?E' R ks d = walk ?E R ks d)"
  proof (rule unlink_table [OF tree p C])
    show "?E C l = 0" if "l < 512" for l using empty that by (simp add: is_table_empty_iff)
    show "?E' T k = 0" using ent [of T k] Tp k by simp
    show "?E' U l = ?E U l" if "U \<in> tables ?E R" "l < 512" "(U, l) \<noteq> (T, k)" for U l
      using ent [of U l] vm_inv_table [OF inv that(1)] that by auto
  qed
  moreover have tf: "hhdm_response t = hhdm_response s" "page_mappings t = page_mappings s"
      "page_bitmap t = page_bitmap s"
    by (simp_all add: t table_set_def)
  then have "pool_ok t = pool_ok s" "used_frames t = used_frames s"
    using pool_ok_same [of t s] frame_of_same [of t s] by (simp_all add: used_frames_def pages_in_use_def)
  ultimately show ?thesis
    using inv tf(1) by (auto simp: vm_inv_def same_pages_mapped_def page_entry_def)
qed

lemma release_step:
  fixes s t :: "'z vmm_scheme"
  assumes "vm_inv h R s" and "C \<notin> tables (entries (mem s) h) R" and "pp_free C s = Done u t"
  shows "vm_inv h R t \<and> mem t = mem s"
proof -
  have "pool_ok s" using assms(1) by (simp add: vm_inv_def)
  note free = pp_free_frames [OF this assms(3)]
  then have "pool_ok t" "hhdm_response t = hhdm_response s"
    using pool_ok_frame [of s t] \<open>pool_ok s\<close> by (simp_all add: pmm_frame_def)
  with free assms(1,2) show ?thesis by (auto simp: vm_inv_def)
qed

lemma same_pages_mapped_mem: "mem t = mem s \<Longrightarrow> same_pages_mapped h R s t"
  by (simp add: same_pages_mapped_def page_entry_def)

lemma free_empty_tables_Done:
  fixes s t :: "'z vmm_scheme"
  assumes inv: "vm_inv h R s"
    and T: "table_at (entries (mem s) h) R [pml4_index v] = Some T1"
      "table_at (entries (mem s) h) R [pml4_index v, pdpt_index v] = Some T2"
      "table_at (entries (mem s) h) R (table_path v) = Some T3"
    and addr: "PTE_GET_ADDR e1 = T1" "PTE_GET_ADDR e2 = T2" "PTE_GET_ADDR e3 = T3"
    and run: "free_empty_tables (R + h) (T1 + h) (T2 + h) (T3 + h) v e1 e2 e3 s = Done ok t"
  shows "ok \<and> vm_inv h R t \<and> same_pages_mapped h R s t"
proof (cases "is_table_empty (mem s) (T3 + h)")
  case False
  with run inv show ?thesis by (simp add: free_empty_tables_def same_pages_mapped_def)
next
  case True
  have vp: "valid_path ([] @ [pml4_index v])" "valid_path ([pml4_index v] @ [pdpt_index v])"
      "valid_path ([pml4_index v, pdpt_index v] @ [pd_index v])"
    by (simp_all add: valid_path_def)
  define s1 where "s1 = table_set (T2 + h) (pd_index v) 0 s"
  obtain u2 s2 where f1: "pp_free T3 s1 = Done u2 s2"
    and k1: "(if is_table_empty (mem s2) (T2 + h) then
          bindO (pp_free T2 (table_set (T1 + h) (pdpt_index v) 0 s2)) (\<lambda>_ s.
          if is_table_empty (mem s) (T1 + h) then
            (if pml4_index v \<ge> 256 then Done True s
             else bindO (pp_free T1 (table_set (R + h) (pml4_index v) 0 s)) (\<lambda>_ s. Done True s))
          else Done True s)
        else Done True s2) = Done ok t"
    using run True by (auto simp only: free_empty_tables_def if_True addr s1_def elim!: bindO_DoneE)
  note 1 = unlink_step [OF inv vp(3), simplified append.simps, OF T(2) T(3) [unfolded table_path_def] True s1_def]
  note f1 = release_step [OF _ _ f1]
  have s2: "vm_inv h R s2" "mem s2 = mem s1" using 1 f1 by auto
  have m2: "same_pages_mapped h R s s2"
    using 1 same_pages_mapped_mem [OF s2(2), of h R] by (blast intro: same_pages_mapped_trans)
  have T2: "table_at (entries (mem s2) h) R [pml4_index v] = Some T1"
      "table_at (entries (mem s2) h) R [pml4_index v, pdpt_index v] = Some T2"
    using 1 T(1,2) vp(1,2) by (simp_all add: s2(2) del: table_at.simps)
  show ?thesis
  proof (cases "is_table_empty (mem s2) (T2 + h)")
    case False
    with k1 s2 m2 show ?thesis by simp
  next
    case empty2: True
    define s3 where "s3 = table_set (T1 + h) (pdpt_index v) 0 s2"
    obtain u4 s4 where f2: "pp_free T2 s3 = Done u4 s4"
      and k2: "(if is_table_empty (mem s4) (T1 + h) then
            (if pml4_index v \<ge> 256 then Done True s4
             else bindO (pp_free T1 (table_set (R + h) (pml4_index v) 0 s4)) (\<lambda>_ s. Done True s))
          else Done True s4) = Done ok t"
      using k1 empty2 by (auto simp only: if_True s3_def elim!: bindO_DoneE)
    note 2 = unlink_step [OF s2(1) vp(2), simplified append.simps, OF T2 empty2 s3_def]
    note f2 = release_step [OF _ _ f2]
    have s4: "vm_inv h R s4" "mem s4 = mem s3" using 2 f2 by auto
    have m4: "same_pages_mapped h R s s4"
      using 2 m2 same_pages_mapped_mem [OF s4(2), of h R] by (blast intro: same_pages_mapped_trans)
    have T1: "table_at (entries (mem s4) h) R [pml4_index v] = Some T1"
      using 2 T2(1) vp(1) by (simp add: s4(2) del: table_at.simps)
    show ?thesis
    proof (cases "is_table_empty (mem s4) (T1 + h) \<and> \<not> pml4_index v \<ge> 256")
      case False
      with k2 s4 m4 show ?thesis by (auto split: if_splits)
    next
      case empty1: True
      define s5 where "s5 = table_set (R + h) (pml4_index v) 0 s4"
      obtain u6 where f3: "pp_free T1 s5 = Done u6 t" and ok: "ok"
        using k2 empty1 by (auto simp: s5_def bindO_Done_iff)
      note 3 = unlink_step [OF s4(1) vp(1), simplified append.simps, OF table_at.simps(1) T1 _ s5_def]
      have "vm_inv h R t" "mem t = mem s5"
        using 3 empty1 release_step [OF _ _ f3] by auto
      moreover have "same_pages_mapped h R s4 s5" using 3 empty1 by auto
      moreover have "same_pages_mapped h R s5 t" by (rule same_pages_mapped_mem) fact
      ultimately show ?thesis using ok m4 by (blast intro: same_pages_mapped_trans)
    qed
  qed
qed

text \<open>An example: an empty root table in the second page frame of the pool.\<close>

definition example_vmm :: vmm where
  "example_vmm = pmm.extend (single_chunk_pmm\<lparr>page_bitmap := (\<lambda>_. 0)(0 := 2), last_page_used := 2\<rparr>) (vmm.fields None [])"

lemma example_vmm_sel [simp]:
  "mem example_vmm = (\<lambda>_. 0)" "page_bitmap example_vmm = (\<lambda>_. 0)(0 := 2)" "last_used_mapping example_vmm = 0"
  "last_page_used example_vmm = 2" "hhdm_response example_vmm = Some 0xFFFF800000000000"
  "k_addr_response example_vmm = Some \<lparr>physical_base = 0x7000000, virtual_base = 0xFFFFFFFF80000000\<rparr>"
  "chunk_count (pmm_desc example_vmm) = 1"
  "page_mappings example_vmm = page_mapping.make 0x100000 0 0x8000 #
     replicate 31 (page_mapping.make 0 0 0)"
  by (simp_all add: example_vmm_def single_chunk_pmm_def example_pool_def example_machine_def
     pmm.defs machine.defs vmm.defs)

lemma entries_zero [simp]: "entries (\<lambda>_. 0) h T k = 0"
  unfolding entries_def table_get_def by (rule bit_word_eqI) (simp add: bit_load_le)

lemma example_vm_inv: "vm_inv 0xFFFF800000000000 0x101000 example_vmm"
proof -
  have at: "table_at (entries (\<lambda>_. 0) h) R ks = (if ks = [] then Some R else None)" for h R ks
    by (cases ks) simp_all
  have fo: "frame_of example_vmm = frame_of single_chunk_pmm"
    by (simp add: frame_of_def fun_eq_iff)
  have "pool_ok example_vmm = pool_ok single_chunk_pmm"
    by (simp add: pool_ok_def frames_one_to_one_def fo)
  moreover have "0x101000 \<in> used_frames example_vmm"
    by (auto simp: used_frames_def pages_in_use_def page_used_def fo single_chunk_frame_of kernel_consts
        intro!: exI [of _ 1])
  moreover have "tables (entries (\<lambda>_. 0) h) R = {R}" for h R
    by (auto simp: tables_def at valid_path_def split: if_splits intro!: exI [of _ "[]"])
  ultimately show ?thesis
    using single_chunk_ok by (simp add: vm_inv_def tree_shaped_def at)
qed

lemma read64_bytes:
  "read64 m a = ucast (m a) OR push_bit 8 (ucast (m (a + 1)) OR push_bit 8 (ucast (m (a + 2)) OR
     push_bit 8 (ucast (m (a + 3)) OR push_bit 8 (ucast (m (a + 4)) OR push_bit 8 (ucast (m (a + 5)) OR
     push_bit 8 (ucast (m (a + 6)) OR push_bit 8 (ucast (m (a + 7)))))))))"
  by (simp add: numeral_eq_Suc add.assoc)

text \<open>Evaluation of an allocation when the next page is free and in the first mapping.\<close>

lemma pp_alloc_run:
  assumes "k_addr_response s = Some k" and "hhdm_response s = Some h"
    and "l = last_page_used s + 1" and "\<not> physical_base k div PAGE_SIZE \<le> last_page_used s"
    and "\<not> MAX_PAGES \<le> last_page_used s"
    and "l < physical_base k" and "l < MAX_PAGES" and "\<not> page_used (page_bitmap s) l"
    and "last_used_mapping s = 0" and "page_hit l (hd (page_mappings s)) = Some p" and "page_mappings s \<noteq> []"
  shows "pp_alloc s = Done p (s\<lparr>page_bitmap := (page_bitmap s)(l div 8 :=
        page_bitmap s (l div 8) OR 2 ^ unat (l mod 8)), last_page_used := l,
        free_pages := free_pages s - 1, used_pages := used_pages s + 1,
        mem := filled (p + h) 0 PAGE_SIZE (mem s)\<rparr>)"
proof -
  have "get_free_page s = Done l (s\<lparr>last_page_used := l\<rparr>)"
    using assms by (simp add: get_free_page_def Let_def page_free_eq)
  moreover have "pp_alloc_at l (s\<lparr>last_page_used := l\<rparr>) = Done p (s\<lparr>page_bitmap := (page_bitmap s)(l div 8 :=
        page_bitmap s (l div 8) OR 2 ^ unat (l mod 8)), last_page_used := l,
        free_pages := free_pages s - 1, used_pages := used_pages s + 1,
        mem := filled (p + h) 0 PAGE_SIZE (mem s)\<rparr>)"
  proof (rule pp_alloc_at_run [THEN trans])
  qed (use assms in \<open>auto simp: pages_in_use_def search_mapping.simps current_mapping_def kernel_consts hd_conv_nth\<close>)
  ultimately show ?thesis by (simp add: pp_alloc_def)
qed

lemmas paging_run = map_page_def unmap_page_def get_next_level_def
  pml4_index_def pdpt_index_def pd_index_def pt_index_def
  get_or_allocate_next_level_def allocate_next_level_def table_get_def table_set_def invlpg_def
  read64_bytes pp_alloc_run page_hit_def page_mapping.make_def filled_def store_le_def page_used_def
  PTE_GET_ADDR_def kernel_consts Let_def

lemma example_map:
  "\<exists>t. map_page \<lparr>top_level = 0xFFFF800000101000\<rparr> 0xFFFFFFFF80000000 0x7000000 3 example_vmm = Done True t"
  by (simp add: paging_run)

lemma example_map_unmap:
  "\<exists>t. bindO (map_page \<lparr>top_level = 0xFFFF800000101000\<rparr> 0xFFFFFFFF80000000 0x7000000 3 example_vmm) (\<lambda>_.
     unmap_page \<lparr>top_level = 0xFFFF800000101000\<rparr> 0xFFFFFFFF80001000) = Done True t"
  by (simp add: paging_run)

lemma get_or_allocate_mappings:
  "get_or_allocate_next_level T k fl s = Done v t \<Longrightarrow> page_mappings t = page_mappings s"
  using pp_alloc_Done [of s]
  by (auto simp: get_or_allocate_next_level_def allocate_next_level_def bindO_Done_iff table_set_def
      takes_page_def same_pages_def pmm_frame_def Let_def split: if_splits)

lemma map_page_mappings:
  assumes "map_page pm v p fl s = Done ok t"
  shows "page_mappings t = page_mappings s"
  using assms
  by (auto simp: map_page_def Let_def bindO_Done_iff invlpg_def table_set_def
      dest!: get_or_allocate_mappings split: if_splits)

text \<open>The three levels that \<open>unmap_page\<close> walks down: a table is missing, or it finds the page table.\<close>

lemma unmap_page_walk:
  fixes s :: "'z vmm_scheme"
  assumes inv: "vm_inv h R s" and root: "top_level pm = R + h" and null: "\<forall>T \<in> used_frames s. T + h \<noteq> 0"
    and aligned: "v mod PAGE_SIZE = 0" and run: "unmap_page pm v s = Done ok t"
  obtains (missing) e where "table_at (entries (mem s) h) R (table_path v) = None" "t = emit e s" "ok"
    | (found) T1 T2 T3 where "table_at (entries (mem s) h) R [pml4_index v] = Some T1"
        "table_at (entries (mem s) h) R [pml4_index v, pdpt_index v] = Some T2"
        "table_at (entries (mem s) h) R (table_path v) = Some T3"
        "T1 = PTE_GET_ADDR (table_get (mem s) (R + h) (pml4_index v))"
        "T2 = PTE_GET_ADDR (table_get (mem s) (T1 + h) (pdpt_index v))"
        "T3 = PTE_GET_ADDR (table_get (mem s) (T2 + h) (pd_index v))"
        "(if table_get (mem s) (T3 + h) (pt_index v) AND PTE_PRESENT = 0 then Done True s
          else free_empty_tables (R + h) (T1 + h) (T2 + h) (T3 + h) v (table_get (mem s) (R + h) (pml4_index v))
            (table_get (mem s) (T1 + h) (pdpt_index v)) (table_get (mem s) (T2 + h) (pd_index v))
            (invlpg v (table_set (T3 + h) (pt_index v) 0 s))) = Done ok t"
proof -
  let ?E = "entries (mem s) h"
  have h: "hhdm_response s = Some h" using inv by (simp add: vm_inv_def)
  have nonnull: "T + h \<noteq> 0" if "valid_path p" "table_at ?E R p = Some T" for p T
    using null tables_mem [OF that] inv by (auto simp: vm_inv_def)
  have vp: "valid_path [pml4_index v]" "valid_path [pml4_index v, pdpt_index v]"
    by (simp_all add: valid_path_def)
  note step = get_next_level_step [OF h]
  note [simp del] = table_at.simps
  obtain a s1 where r1: "get_next_level (R + h) (pml4_index v) s = Done a s1"
    and k1: "(if a = 0 then Done True s1 else
        let pdpt_entry = table_get (mem s1) (R + h) (pml4_index v) in
        bindO (get_next_level a (pdpt_index v) s1) (\<lambda>pd s.
        if pd = 0 then Done True s else
        let pd_entry = table_get (mem s) a (pdpt_index v) in
        bindO (get_next_level pd (pd_index v) s) (\<lambda>pt s.
        if pt = 0 then Done True s else
        let pt_entry = table_get (mem s) pd (pd_index v) in
        if table_get (mem s) pt (pt_index v) AND PTE_PRESENT = 0 then Done True s
        else free_empty_tables (R + h) a pd pt v pdpt_entry pd_entry pt_entry
          (invlpg v (table_set pt (pt_index v) 0 s))))) = Done ok t"
    using run aligned
    by (auto simp only: unmap_page_def root Let_def if_False if_True not_True_eq_False simp_thms elim!: bindO_DoneE)
  show thesis
  proof (cases "table_at ?E R [pml4_index v]")
    case None
    then have "table_at ?E R (table_path v) = None"
      using table_at_append [of ?E R "[pml4_index v]" "[pdpt_index v, pd_index v]"] by (simp add: table_path_def)
    moreover obtain e where "t = emit e s" "ok"
      using step [OF table_at.simps(1) r1] None k1 by auto
    ultimately show thesis by (rule missing)
  next
    case T1: (Some T1)
    have a: "a = T1 + h" "s1 = s" "T1 = PTE_GET_ADDR (table_get (mem s) (R + h) (pml4_index v))"
      using step [OF table_at.simps(1) r1] T1 by auto
    have "a \<noteq> 0" using nonnull [OF vp(1) T1] a(1) by simp
    then obtain b s2 where r2: "get_next_level (T1 + h) (pdpt_index v) s = Done b s2"
      and k2: "(if b = 0 then Done True s2 else
        let pd_entry = table_get (mem s2) (T1 + h) (pdpt_index v) in
        bindO (get_next_level b (pd_index v) s2) (\<lambda>pt s'.
        if pt = 0 then Done True s' else
        let pt_entry = table_get (mem s') b (pd_index v) in
        if table_get (mem s') pt (pt_index v) AND PTE_PRESENT = 0 then Done True s'
        else free_empty_tables (R + h) (T1 + h) b pt v (table_get (mem s) (R + h) (pml4_index v)) pd_entry pt_entry
          (invlpg v (table_set pt (pt_index v) 0 s')))) = Done ok t"
      using k1 by (simp only: a(1,2) Let_def if_False) (erule bindO_DoneE, blast)
    show thesis
    proof (cases "table_at ?E R [pml4_index v, pdpt_index v]")
      case None
      then have "table_at ?E R (table_path v) = None"
        using table_at_append [of ?E R "[pml4_index v, pdpt_index v]" "[pd_index v]"] by (simp add: table_path_def)
      moreover obtain e where "t = emit e s" "ok" using step [OF T1 r2] None k2 by auto
      ultimately show thesis by (rule missing)
    next
      case T2: (Some T2)
      have b: "b = T2 + h" "s2 = s" "T2 = PTE_GET_ADDR (table_get (mem s) (T1 + h) (pdpt_index v))"
        using step [OF T1 r2] T2 by auto
      have "b \<noteq> 0" using nonnull [OF vp(2) T2] b(1) by simp
      then obtain c s3 where r3: "get_next_level (T2 + h) (pd_index v) s = Done c s3"
        and k3: "(if c = 0 then Done True s3 else
          if table_get (mem s3) c (pt_index v) AND PTE_PRESENT = 0 then Done True s3
          else free_empty_tables (R + h) (T1 + h) (T2 + h) c v (table_get (mem s) (R + h) (pml4_index v))
            (table_get (mem s) (T1 + h) (pdpt_index v)) (table_get (mem s3) (T2 + h) (pd_index v))
            (invlpg v (table_set c (pt_index v) 0 s3))) = Done ok t"
        using k2 by (simp only: b(1,2) Let_def if_False) (erule bindO_DoneE, blast)
      show thesis
      proof (cases "table_at ?E R (table_path v)")
        case None
        moreover obtain e where "t = emit e s" "ok"
          using step [OF T2 r3] None k3 by (auto simp: table_path_def)
        ultimately show thesis by (rule missing)
      next
        case T3: (Some T3)
        have c: "c = T3 + h" "s3 = s" "T3 = PTE_GET_ADDR (table_get (mem s) (T2 + h) (pd_index v))"
          using step [OF T2 r3] T3 by (auto simp: table_path_def)
        have "c \<noteq> 0" using nonnull [OF table_path_valid(1) T3] c(1) by simp
        have "(if table_get (mem s) (T3 + h) (pt_index v) AND PTE_PRESENT = 0 then Done True s
          else free_empty_tables (R + h) (T1 + h) (T2 + h) (T3 + h) v (table_get (mem s) (R + h) (pml4_index v))
            (table_get (mem s) (T1 + h) (pdpt_index v)) (table_get (mem s) (T2 + h) (pd_index v))
            (invlpg v (table_set (T3 + h) (pt_index v) 0 s))) = Done ok t"
          using k3 \<open>c \<noteq> 0\<close> by (simp only: c(1,2) if_False)
        then show thesis using found [OF T1 T2 T3 a(3) b(3) c(3)] by blast
      qed
    qed
  qed
qed

text \<open>A present entry is cleared, and the tables that this empties are released.\<close>

lemma clear_page_entry:
  fixes s :: "'z vmm_scheme"
  assumes inv: "vm_inv h R s"
    and T: "table_at (entries (mem s) h) R [pml4_index v] = Some T1"
      "table_at (entries (mem s) h) R [pml4_index v, pdpt_index v] = Some T2"
      "table_at (entries (mem s) h) R (table_path v) = Some T3"
    and E: "T1 = PTE_GET_ADDR (table_get (mem s) (R + h) (pml4_index v))"
      "T2 = PTE_GET_ADDR (table_get (mem s) (T1 + h) (pdpt_index v))"
      "T3 = PTE_GET_ADDR (table_get (mem s) (T2 + h) (pd_index v))"
    and run: "free_empty_tables (R + h) (T1 + h) (T2 + h) (T3 + h) v (table_get (mem s) (R + h) (pml4_index v))
      (table_get (mem s) (T1 + h) (pdpt_index v)) (table_get (mem s) (T2 + h) (pd_index v))
      (invlpg v (table_set (T3 + h) (pt_index v) 0 s)) = Done ok t"
  shows "ok \<and> vm_inv h R t \<and> (\<forall>x. page_entry h R t x = (if same_page x v then None else page_entry h R s x))"
proof -
  let ?E = "entries (mem s) h"
  have vp: "valid_path [pml4_index v]" "valid_path [pml4_index v, pdpt_index v]"
    by (simp_all add: valid_path_def)
  define s4 where "s4 = invlpg v (table_set (T3 + h) (pt_index v) 0 s)"
  note w = write_page_entry [OF inv T(3) s4_def]
  have tree: "tree_shaped ?E R" using inv by (simp add: vm_inv_def)
  note T3p = vm_inv_table [OF inv tables_mem [OF table_path_valid(1) T(3)]]
  have "entries (mem s4) h U l = ?E U l" if "U \<in> tables ?E R" "l < 512" "(U, l) \<noteq> (T3, pt_index v)" for U l
    using entries_write [of T3 U "pt_index v" l "mem s" h 0] T3p vm_inv_table [OF inv that(1)] that
    by (auto simp: s4_def invlpg_def table_set_def)
  then have "same_tables ?E (entries (mem s4) h) R"
    using set_page_entry [OF tree table_path_valid T(3), of "pt_index v" "entries (mem s4) h"] by auto
  then have at: "table_at (entries (mem s4) h) R ks = table_at ?E R ks" if "valid_path ks" for ks
    using that by (simp add: same_tables_def)
  note [simp del] = table_at.simps
  from free_empty_tables_Done [OF _ _ _ _ E(1) [symmetric] E(2) [symmetric] E(3) [symmetric] run [folded s4_def]]
  have "ok \<and> vm_inv h R t \<and> same_pages_mapped h R s4 t"
    using w at [OF vp(1)] at [OF vp(2)] at [OF table_path_valid(1)] T by simp
  then show ?thesis using w by (simp add: same_pages_mapped_def)
qed

text \<open>
  C4. Mapping a page maps this page and no other: from a state in which the tables are a tree of
  frames in use, \<open>map_page\<close> keeps that invariant; when it returns true, the walk for every address
  in the page of \<open>virt\<close> finds the frame of \<open>phys\<close> with the given flags and the present bit, and
  the walk for every other address finds what it found before; when it returns false (no memory
  for a table), every walk is as before.
\<close>

theorem map_page_maps_one_page:
  assumes "vm_inv h R s" and "top_level pm = R + h" and "map_page pm virt phys flags s = Done ok t"
  shows "vm_inv h R t \<and> (\<forall>x. page_entry h R t x =
    (if ok \<and> same_page x virt then Some ((phys AND NOT (PAGE_SIZE - 1)) OR flags OR PTE_PRESENT)
     else page_entry h R s x))"
  using assms by (rule map_page_Done)

theorem map_page_maps_one_page_witness:
  "\<exists>t. page_entry 0xFFFF800000000000 0x101000 t 0xFFFFFFFF80000ABC = Some 0x7000003
    \<and> map_page \<lparr>top_level = 0xFFFF800000101000\<rparr> 0xFFFFFFFF80000000 0x7000000 3 example_vmm = Done True t"
proof -
  obtain t where t: "map_page \<lparr>top_level = 0xFFFF800000101000\<rparr> 0xFFFFFFFF80000000 0x7000000 3 example_vmm
      = Done True t" using example_map by blast
  have "same_page 0xFFFFFFFF80000ABC 0xFFFFFFFF80000000" by (simp add: same_page_def)
  with map_page_maps_one_page [OF example_vm_inv _ t] have
    "page_entry 0xFFFF800000000000 0x101000 t 0xFFFFFFFF80000ABC = Some 0x7000003"
    by (simp add: kernel_consts)
  with t show ?thesis by blast
qed

text \<open>
  C5. Unmapping a page unmaps this page and no other: for a page-aligned address, \<open>unmap_page\<close>
  returns true, no address of the page has a walk any more, every other walk is as before, and
  the tables are again a tree of frames in use although emptied tables were released. An
  address that is not page aligned is refused without a change. The direct map must not place a
  frame in use at address 0, which the code takes for a missing table.
\<close>

theorem unmap_page_unmaps_one_page:
  fixes s :: "'z vmm_scheme"
  assumes inv: "vm_inv h R s" and root: "top_level pm = R + h" and null: "\<forall>T \<in> used_frames s. T + h \<noteq> 0"
    and run: "unmap_page pm v s = Done ok t"
  shows "vm_inv h R t \<and> (ok \<longleftrightarrow> v mod PAGE_SIZE = 0) \<and>
    (\<forall>x. page_entry h R t x = (if ok \<and> same_page x v then None else page_entry h R s x))"
proof (cases "v mod PAGE_SIZE = 0")
  case False
  with run inv show ?thesis by (auto simp: unmap_page_def)
next
  case True
  from inv root null True run show ?thesis
  proof (cases rule: unmap_page_walk)
    case (missing e)
    then show ?thesis using inv True by (auto simp: page_entry_def walk_def same_page_iff)
  next
    case (found T1 T2 T3)
    show ?thesis
    proof (cases "present (entries (mem s) h T3 (pt_index v))")
      case False
      then have "t = s" "ok" using found(7) by (auto simp: entries_def)
      then show ?thesis using inv True False found(3) by (auto simp: page_entry_def walk_def same_page_iff)
    next
      case pres: True
      then show ?thesis using clear_page_entry [OF inv found(1-6)] found(7) True by (simp add: entries_def)
    qed
  qed
qed

theorem unmap_page_unmaps_one_page_witness:
  "\<exists>(s :: vmm) t. unmap_page \<lparr>top_level = 0xFFFF800000101000\<rparr> 0xFFFFFFFF80001000 s = Done True t
    \<and> page_entry 0xFFFF800000000000 0x101000 s 0xFFFFFFFF80000000 = Some 0x7000003
    \<and> page_entry 0xFFFF800000000000 0x101000 t 0xFFFFFFFF80000000 = Some 0x7000003"
proof -
  let ?pm = "\<lparr>top_level = 0xFFFF800000101000\<rparr>"
  obtain ok s t where s: "map_page ?pm 0xFFFFFFFF80000000 0x7000000 3 example_vmm = Done ok s"
    and t: "unmap_page ?pm 0xFFFFFFFF80001000 s = Done True t"
    using example_map_unmap by (auto simp: bindO_Done_iff)
  have ok: "ok" using example_map s by auto
  note map = map_page_Done [OF example_vm_inv _ s]
  then have inv: "vm_inv 0xFFFF800000000000 0x101000 s"
    and p: "page_entry 0xFFFF800000000000 0x101000 s 0xFFFFFFFF80000000 = Some 0x7000003"
    using ok by (simp_all add: kernel_consts same_page_def)
  have "frame_of s = frame_of single_chunk_pmm"
    using map_page_mappings [OF s] by (simp add: frame_of_def fun_eq_iff)
  then have "\<forall>T \<in> used_frames s. T + 0xFFFF800000000000 \<noteq> 0"
    by (auto simp: used_frames_def word_unat_eq_iff unat_word_ariths dest!: single_chunk_frame_nat)
  from unmap_page_unmaps_one_page [OF inv _ this t]
  have "page_entry 0xFFFF800000000000 0x101000 t 0xFFFFFFFF80000000 = Some 0x7000003"
    by (simp add: p same_page_def)
  with t p show ?thesis by blast
qed

end
