(* ===== verification/Heap_Layout.thy ===== *)
theory Heap_Layout
  imports Heap Paging
begin

text \<open>
  Correctness of the heap. A layout lists the blocks of the heap in address order, free and
  allocated ones; \<open>heap_ok\<close> says that they tile the heap exactly, that the free list in memory
  links precisely the free blocks, and that every allocated block carries its size. Allocation
  and release are refined by operations on layouts; \<open>Heap_Growth\<close> adds the growth.
\<close>

section \<open>Blocks in memory\<close>

type_synonym block = "u64 \<times> u64"

abbreviation last_addr :: "u64 \<Rightarrow> block list \<Rightarrow> u64" where
  "last_addr p bs \<equiv> (if bs = [] then p else fst (last bs))"

text \<open>A segment of the free list: the blocks from address \<open>p\<close> up to the address \<open>q\<close>.\<close>

fun seg :: "memory \<Rightarrow> u64 \<Rightarrow> block list \<Rightarrow> u64 \<Rightarrow> bool" where
  "seg m p [] q \<longleftrightarrow> p = q"
| "seg m p ((a, z) # bs) q \<longleftrightarrow> p = a \<and> blk_size m a = z \<and> seg m (blk_next m a) bs q"

text \<open>The blocks fill the addresses from \<open>lo\<close> to \<open>hi\<close> without a gap.\<close>

fun tiles :: "nat \<Rightarrow> block list \<Rightarrow> nat \<Rightarrow> bool" where
  "tiles lo [] hi \<longleftrightarrow> lo = hi"
| "tiles lo ((a, z) # bs) hi \<longleftrightarrow> unat a = lo \<and> 16 \<le> unat z \<and> unat z mod 16 = 0 \<and> tiles (lo + unat z) bs hi"

definition apart :: "block \<Rightarrow> block \<Rightarrow> bool" where
  "apart b c \<longleftrightarrow> unat (fst b) + unat (snd b) \<le> unat (fst c) \<or> unat (fst c) + unat (snd c) \<le> unat (fst b)"

definition inside :: "u64 \<Rightarrow> block \<Rightarrow> bool" where
  "inside x b \<longleftrightarrow> unat (fst b) \<le> unat x \<and> unat x + 8 \<le> unat (fst b) + unat (snd b)"

definition fits :: "block \<Rightarrow> bool" where
  "fits b \<longleftrightarrow> 16 \<le> unat (snd b) \<and> unat (fst b) + unat (snd b) \<le> 2 ^ 64 - 16"

lemma seg_append: "seg m p (bs @ cs) q \<longleftrightarrow> (\<exists>r. seg m p bs r \<and> seg m r cs q)"
  by (induction bs arbitrary: p) auto

lemma tiles_append: "tiles lo (bs @ cs) hi \<longleftrightarrow> (\<exists>mid. tiles lo bs mid \<and> tiles mid cs hi)"
  by (induction bs arbitrary: lo) auto

lemma tiles_le: "tiles lo bs hi \<Longrightarrow> lo \<le> hi"
  by (induction lo bs hi rule: tiles.induct) auto

lemma tiles_bounds: "tiles lo bs hi \<Longrightarrow> b \<in> set bs \<Longrightarrow>
    lo \<le> unat (fst b) \<and> unat (fst b) + unat (snd b) \<le> hi \<and> 16 \<le> unat (snd b)"
proof (induction lo bs hi rule: tiles.induct)
  case (2 lo a z bs hi)
  then show ?case using tiles_le [of "lo + unat z" bs hi] by auto
qed simp

lemma tiles_fits: "tiles lo bs hi \<Longrightarrow> hi \<le> 2 ^ 64 - 16 \<Longrightarrow> b \<in> set bs \<Longrightarrow> fits b"
  using tiles_bounds [of lo bs hi b] by (simp add: fits_def)

lemma tiles_apart:
  assumes "tiles lo (xs @ b # ys) hi" and "c \<in> set xs \<union> set ys"
  shows "apart b c"
proof -
  obtain a z where b: "b = (a, z)" by force
  obtain mid where mid: "tiles lo xs mid" "tiles mid (b # ys) hi"
    using assms(1) by (auto simp: tiles_append)
  then have "unat a = mid" "tiles (mid + unat z) ys hi" by (simp_all add: b)
  then show ?thesis
    using assms(2) tiles_bounds [OF mid(1), of c] tiles_bounds [of "mid + unat z" ys hi c]
    by (auto simp: apart_def b)
qed

lemma tiles_sum: "tiles lo bs hi \<Longrightarrow> lo + sum_list (map (unat \<circ> snd) bs) = hi"
  by (induction lo bs hi rule: tiles.induct) auto

lemma unat_plus8: "fits b \<Longrightarrow> unat (fst b + 8) = unat (fst b) + 8"
  by (simp add: fits_def unat_word_ariths)

lemma inside_header: "fits b \<Longrightarrow> inside (fst b) b \<and> inside (fst b + 8) b"
  using unat_plus8 [of b] by (simp add: inside_def) (simp add: fits_def)

text \<open>
  The header of a block. A write inside one block leaves the header of every other block alone,
  and a segment of the list only depends on the headers of its blocks.
\<close>

definition hdr :: "memory \<Rightarrow> block \<Rightarrow> u64 \<times> u64" where
  "hdr m b = (blk_size m (fst b), blk_next m (fst b))"

lemma write_read_apart:
  assumes "unat x + 8 \<le> unat y \<or> unat y + 8 \<le> unat x" and "unat x + 8 \<le> 2 ^ 64" and "unat y + 8 \<le> 2 ^ 64"
  shows "read64 (write64 m x v) y = read64 m y"
proof (rule load_store_other)
  show "disjoint_ranges x 8 y 8"
    using assms by (auto simp: disjoint_ranges_def word_diff_cases)
qed

lemma hdr_write_other:
  assumes "inside x b" and "apart b c" and "fits b" and "fits c"
  shows "hdr (write64 m x v) c = hdr m c"
proof -
  have "blk_size (write64 m x v) (fst c) = blk_size m (fst c)"
    "blk_next (write64 m x v) (fst c) = blk_next m (fst c)"
    using assms unat_plus8 [OF assms(4)]
    by (intro write_read_apart; auto simp: inside_def apart_def fits_def)+
  then show ?thesis by (simp add: hdr_def)
qed

lemma hdr_write_size: "fits b \<Longrightarrow> hdr (write64 m (fst b) v) b = (v, snd (hdr m b))"
  using unat_plus8 [of b] write_read_apart [of "fst b" "fst b + 8" m v]
  by (simp add: hdr_def cells64.ld_st_same fits_def)

lemma hdr_write_next: "fits b \<Longrightarrow> hdr (write64 m (fst b + 8) v) b = (fst (hdr m b), v)"
  using unat_plus8 [of b] write_read_apart [of "fst b + 8" "fst b" m v]
  by (simp add: hdr_def cells64.ld_st_same fits_def)

lemma seg_Cons: "seg m p (b # bs) q \<longleftrightarrow> p = fst b \<and> fst (hdr m b) = snd b \<and> seg m (snd (hdr m b)) bs q"
  by (cases b) (simp add: hdr_def)

lemma seg_hdr: "\<forall>b \<in> set bs. hdr m' b = hdr m b \<Longrightarrow> seg m' p bs q = seg m p bs q"
  by (induction bs arbitrary: p) (auto simp: seg_Cons simp del: seg.simps(2))

declare seg.simps(2) [simp del]

section \<open>Layouts\<close>

type_synonym layout = "(block \<times> bool) list"

definition free_blocks :: "layout \<Rightarrow> block list" where
  "free_blocks L = map fst (filter snd L)"

definition used_blocks :: "layout \<Rightarrow> block set" where
  "used_blocks L = {b. (b, False) \<in> set L}"

lemma layout_simps [simp]:
  "free_blocks [] = []" "free_blocks ((b, f) # L) = (if f then b # free_blocks L else free_blocks L)"
  "free_blocks (L @ M) = free_blocks L @ free_blocks M"
  "used_blocks [] = {}" "used_blocks ((b, f) # L) = (if f then used_blocks L else insert b (used_blocks L))"
  "used_blocks (L @ M) = used_blocks L \<union> used_blocks M"
  by (auto simp: free_blocks_def used_blocks_def)

lemma layout_blocks: "set (map fst L) = set (free_blocks L) \<union> used_blocks L"
  by (induction L) (auto split: if_splits)

definition heap_end :: "'z heap_scheme \<Rightarrow> nat" where
  "heap_end s = unat (heap_start s) + unat (heap_size s)"

definition layout_ok :: "'z heap_scheme \<Rightarrow> layout \<Rightarrow> bool" where
  "layout_ok s L \<longleftrightarrow> 0 < unat (heap_start s) \<and> unat (heap_start s) mod 16 = 0 \<and> heap_end s \<le> 2 ^ 64 - 16
     \<and> tiles (unat (heap_start s)) (map fst L) (heap_end s)"

definition heap_ok :: "'z heap_scheme \<Rightarrow> layout \<Rightarrow> bool" where
  "heap_ok s L \<longleftrightarrow> layout_ok s L \<and> seg (mem s) (free_list_head s) (free_blocks L) 0
     \<and> (\<forall>b \<in> used_blocks L. fst (hdr (mem s) b) = snd b)"

definition other_blocks :: "layout \<Rightarrow> block set" where
  "other_blocks L = set (free_blocks L) \<union> used_blocks L"

lemma layout_ok_block:
  assumes "layout_ok s (L @ (b, f) # M)"
  shows "fits b" and "fst b \<noteq> 0"
    and "\<And>c. c \<in> other_blocks (L @ M) \<Longrightarrow> apart b c \<and> fits c"
proof -
  have t: "tiles (unat (heap_start s)) (map fst L @ b # map fst M) (heap_end s)" "heap_end s \<le> 2 ^ 64 - 16"
    "0 < unat (heap_start s)"
    using assms by (simp_all add: layout_ok_def)
  show "fits b" using tiles_fits [OF t(1,2)] by simp
  show "fst b \<noteq> 0" using tiles_bounds [OF t(1), of b] t(3) by auto
  show "apart b c \<and> fits c" if "c \<in> other_blocks (L @ M)" for c
  proof -
    have "c \<in> set (map fst L) \<union> set (map fst M)"
      using that layout_blocks [of "L @ M"] by (auto simp: other_blocks_def)
    then show ?thesis using tiles_apart [OF t(1)] tiles_fits [OF t(1,2)] by auto
  qed
qed

lemma free_blocks_snoc:
  "free_blocks L = bs @ [c] \<Longrightarrow> \<exists>X Y. L = X @ (c, True) # Y \<and> free_blocks X = bs \<and> free_blocks Y = []"
proof (induction L arbitrary: bs)
  case (Cons x L)
  obtain b f where x: "x = (b, f)" by (cases x)
  show ?case
  proof (cases "f \<and> bs = []")
    case True
    with Cons.prems x show ?thesis by (intro exI [of _ "[]"] exI [of _ L]) simp
  next
    case False
    then obtain bs' where "free_blocks L = bs' @ [c]" "bs = (if f then b # bs' else bs')"
      using Cons.prems by (cases bs) (auto simp: x split: if_splits)
    with Cons.IH [of bs'] obtain X Y where "L = X @ (c, True) # Y" "free_blocks X = bs'" "free_blocks Y = []"
      by blast
    with \<open>bs = _\<close> show ?thesis by (intro exI [of _ "x # X"] exI [of _ Y]) (simp add: x)
  qed
qed simp

text \<open>Redirecting the last free block of \<open>L\<close> (or the head) to \<open>v\<close>.\<close>

lemma unlink_block_seg:
  assumes ok: "layout_ok s (L @ (b, f) # M)" and seg: "seg (mem s) (free_list_head s) (free_blocks L) q"
    and t: "t = unlink_block (last_addr 0 (free_blocks L)) v s"
  shows "seg (mem t) (free_list_head t) (free_blocks L) v"
    and "\<And>c. c \<in> used_blocks L \<union> other_blocks M \<Longrightarrow> hdr (mem t) c = hdr (mem s) c"
    and "\<And>c. fits c \<Longrightarrow> unat (fst b) \<le> unat (fst c) \<Longrightarrow>
      unat (fst c) + unat (snd c) \<le> unat (fst b) + unat (snd b) \<Longrightarrow> hdr (mem t) c = hdr (mem s) c"
    and "heap_start t = heap_start s" and "heap_size t = heap_size s"
proof -
  have "seg (mem t) (free_list_head t) (free_blocks L) v
    \<and> (\<forall>c \<in> used_blocks L \<union> other_blocks M. hdr (mem t) c = hdr (mem s) c)
    \<and> (\<forall>c. fits c \<longrightarrow> unat (fst b) \<le> unat (fst c) \<longrightarrow>
      unat (fst c) + unat (snd c) \<le> unat (fst b) + unat (snd b) \<longrightarrow> hdr (mem t) c = hdr (mem s) c)
    \<and> heap_start t = heap_start s \<and> heap_size t = heap_size s"
  proof (cases "free_blocks L" rule: rev_cases)
    case Nil
    then show ?thesis by (simp add: t unlink_block_def)
  next
    case (snoc bs c)
    then obtain X Y where L: "L = X @ (c, True) # Y" "free_blocks X = bs" "free_blocks Y = []"
      using free_blocks_snoc by blast
    have ok': "layout_ok s (X @ (c, True) # (Y @ (b, f) # M))" using ok L(1) by simp
    note c = layout_ok_block [OF ok']
    have t': "t = set_next (fst c) v s" using snoc c(2) by (simp add: t unlink_block_def)
    have m: "mem t = write64 (mem s) (fst c + 8) v" by (simp add: t' set_next_def)
    have other: "hdr (mem t) d = hdr (mem s) d" if "apart c d" "fits d" for d
      unfolding m by (rule hdr_write_other [OF conjunct2 [OF inside_header [OF c(1)]] that(1) c(1) that(2)])
    have "\<forall>d \<in> set bs. hdr (mem t) d = hdr (mem s) d"
      using other c(3) by (auto simp: other_blocks_def L(2))
    moreover obtain r where r: "seg (mem s) (free_list_head s) bs r" "seg (mem s) r [c] q"
      using seg by (auto simp: snoc seg_append)
    moreover have "hdr (mem t) c = (fst (hdr (mem s) c), v)" unfolding m by (rule hdr_write_next [OF c(1)])
    ultimately have "seg (mem t) (free_list_head t) (bs @ [c]) v"
      using seg_hdr [of bs "mem t" "mem s"] by (auto simp: seg_append seg_Cons t' set_next_def)
    moreover have "\<forall>d \<in> used_blocks L \<union> other_blocks M. hdr (mem t) d = hdr (mem s) d"
    proof
      fix d assume "d \<in> used_blocks L \<union> other_blocks M"
      show "hdr (mem t) d = hdr (mem s) d"
      proof (cases "d \<in> other_blocks (X @ (Y @ (b, f) # M))")
        case True
        then show ?thesis using other c(3) by blast
      next
        case False
        then show ?thesis using \<open>d \<in> _\<close> by (auto simp: L(1) other_blocks_def split: if_splits)
      qed
    qed
    moreover have "hdr (mem t) d = hdr (mem s) d"
      if "fits d" "unat (fst b) \<le> unat (fst d)" "unat (fst d) + unat (snd d) \<le> unat (fst b) + unat (snd b)" for d
    proof (rule other)
      have "apart c b" using c(3) [of b] by (simp add: other_blocks_def)
      then show "apart c d" using that by (auto simp: apart_def)
    qed (rule that(1))
    ultimately show ?thesis by (simp add: snoc t' set_next_def)
  qed
  then show "seg (mem t) (free_list_head t) (free_blocks L) v"
    and "\<And>c. c \<in> used_blocks L \<union> other_blocks M \<Longrightarrow> hdr (mem t) c = hdr (mem s) c"
    and "\<And>c. fits c \<Longrightarrow> unat (fst b) \<le> unat (fst c) \<Longrightarrow>
      unat (fst c) + unat (snd c) \<le> unat (fst b) + unat (snd b) \<Longrightarrow> hdr (mem t) c = hdr (mem s) c"
    and "heap_start t = heap_start s" and "heap_size t = heap_size s"
    by blast+
qed

text \<open>The two search loops on a list in memory.\<close>

lemma find_fit_seg:
  "seg m p bs 0 \<Longrightarrow> \<forall>b \<in> set bs. fst b \<noteq> 0 \<Longrightarrow>
    find_fit m prev p want = Some (case dropWhile (\<lambda>b. snd b < want) bs of
      [] \<Rightarrow> None | b # cs \<Rightarrow> Some (last_addr prev (takeWhile (\<lambda>b. snd b < want) bs), fst b))"
proof (induction bs arbitrary: p prev)
  case Nil
  then show ?case by (simp add: find_fit.simps)
next
  case (Cons b bs)
  obtain a z where b: "b = (a, z)" by force
  with Cons.prems have "p = a" "a \<noteq> 0" "blk_size m a = z" "seg m (blk_next m a) bs 0"
    by (auto simp: seg_Cons hdr_def)
  note facts = this
  show ?case
  proof (cases "z < want")
    case True
    then have "find_fit m prev p want = find_fit m a (blk_next m a) want"
      using facts by (auto simp: find_fit.simps [of m prev])
    moreover have "takeWhile (\<lambda>b. snd b < want) (b # bs) = b # takeWhile (\<lambda>b. snd b < want) bs"
      "dropWhile (\<lambda>b. snd b < want) (b # bs) = dropWhile (\<lambda>b. snd b < want) bs"
      using True by (simp_all add: b)
    moreover have "last_addr prev (b # cs) = last_addr a cs" for cs by (simp add: b)
    ultimately show ?thesis using Cons.IH [OF facts(4), of a] Cons.prems(2) by (simp only: list.set_intros ball_simps) simp
  next
    case False
    then show ?thesis using facts by (auto simp: find_fit.simps [of m prev] b)
  qed
qed

lemma find_place_seg:
  "seg m p bs 0 \<Longrightarrow> \<forall>b \<in> set bs. fst b \<noteq> 0 \<Longrightarrow>
    find_place m prev p bound = Some (last_addr prev (takeWhile (\<lambda>b. fst b < bound) bs))"
proof (induction bs arbitrary: p prev)
  case Nil
  then show ?case by (simp add: find_place.simps)
next
  case (Cons b bs)
  obtain a z where b: "b = (a, z)" by force
  with Cons.prems have "p = a" "a \<noteq> 0" "blk_size m a = z" "seg m (blk_next m a) bs 0"
    by (auto simp: seg_Cons hdr_def)
  with Cons.IH [of "blk_next m a" a] Cons.prems(2) show ?case
    by (simp add: find_place.simps [of m prev] b)
qed

section \<open>Taking a block\<close>

text \<open>The layout after \<open>want\<close> bytes are taken from a free block.\<close>

definition taken :: "u64 \<Rightarrow> block \<Rightarrow> layout" where
  "taken want b = (if unat want + 16 \<le> unat (snd b)
     then [((fst b, want), False), ((fst b + want, snd b - want), True)] else [(b, False)])"

lemma heap_ok_split:
  assumes "heap_ok s (L @ (b, True) # M)"
  shows "seg (mem s) (free_list_head s) (free_blocks L) (fst b)" and "fst (hdr (mem s) b) = snd b"
    and "seg (mem s) (snd (hdr (mem s) b)) (free_blocks M) 0"
  using assms by (auto simp: heap_ok_def seg_append seg_Cons)

lemma tiles_replace:
  assumes "tiles lo (xs @ b # ys) hi" and "\<And>mid. unat (fst b) = mid \<Longrightarrow> tiles mid zs (mid + unat (snd b))"
  shows "tiles lo (xs @ zs @ ys) hi"
proof -
  obtain mid where mid: "tiles lo xs mid" "tiles mid (b # ys) hi" using assms(1) by (auto simp: tiles_append)
  then have "unat (fst b) = mid" "tiles (mid + unat (snd b)) ys hi" by (cases b; simp)+
  with mid(1) assms(2) show ?thesis by (auto simp: tiles_append)
qed

lemma tiles_block: "tiles lo (xs @ b # ys) hi \<Longrightarrow> 16 \<le> unat (snd b) \<and> unat (snd b) mod 16 = 0"
  by (cases b) (auto simp: tiles_append)

lemma taken_tiles:
  assumes "tiles lo (xs @ b # ys) hi" and "hi \<le> 2 ^ 64 - 16"
    and "want \<le> snd b" and "16 \<le> unat want" and "unat want mod 16 = 0"
  shows "tiles lo (xs @ map fst (taken want b) @ ys) hi"
proof (rule tiles_replace [OF assms(1)])
  fix mid assume mid: "unat (fst b) = mid"
  note z = tiles_block [OF assms(1)]
  have bd: "unat (fst b) + unat (snd b) \<le> 2 ^ 64 - 16"
    using tiles_bounds [OF assms(1), of b] assms(2) by simp
  show "tiles mid (map fst (taken want b)) (mid + unat (snd b))"
  proof (cases "unat want + 16 \<le> unat (snd b)")
    case True
    have "unat (fst b + want) = mid + unat want"
      using True bd mid by (simp add: unat_word_ariths)
    moreover have "unat (snd b - want) = unat (snd b) - unat want"
      using assms(3) by (simp add: unat_sub word_le_nat_alt)
    moreover have "(unat (snd b) - unat want) mod 16 = 0"
      using z assms(5) True by (metis dvd_diff_nat mod_eq_0_iff_dvd)
    ultimately show ?thesis using True mid assms(4,5) by (simp add: taken_def)
  next
    case False
    then show ?thesis using mid z by (cases b) (simp add: taken_def)
  qed
qed

lemma heap_okI:
  assumes "layout_ok t N" and "seg (mem t) (free_list_head t) (free_blocks N) 0"
    and "\<And>b. b \<in> used_blocks N \<Longrightarrow> fst (hdr (mem t) b) = snd b"
  shows "heap_ok t N"
  using assms by (simp add: heap_ok_def)

lemma layout_ok_cong:
  "heap_start t = heap_start s \<Longrightarrow> heap_size t = heap_size s \<Longrightarrow> layout_ok t L = layout_ok s L"
  by (simp add: layout_ok_def heap_end_def)

lemma set_cell_simps [simp]:
  "free_list_head (set_size b v s) = free_list_head s" "free_list_head (set_next b v s) = free_list_head s"
  "heap_start (set_size b v s) = heap_start s" "heap_start (set_next b v s) = heap_start s"
  "heap_size (set_size b v s) = heap_size s" "heap_size (set_next b v s) = heap_size s"
  "mem (set_size b v s) = write64 (mem s) b v" "mem (set_next b v s) = write64 (mem s) (b + 8) v"
  by (simp_all add: set_size_def set_next_def)

definition same_region :: "'z heap_scheme \<Rightarrow> 'z heap_scheme \<Rightarrow> bool" where
  "same_region s t \<longleftrightarrow> heap_start t = heap_start s \<and> heap_size t = heap_size s"

lemma same_region_simps [simp]:
  "same_region s s" "same_region s (set_size b v t) = same_region s t"
  "same_region s (set_next b v t) = same_region s t" "same_region s (unlink_block p v t) = same_region s t"
  "same_region s (t\<lparr>free_list_head := x\<rparr>) = same_region s t"
  "same_region s (link_block p b t) = same_region s t" "same_region s (merge_next b t) = same_region s t"
  "same_region s (merge_prev p b t) = same_region s t"
  by (simp_all add: same_region_def unlink_block_def link_block_def merge_next_def merge_prev_def Let_def)

lemma take_block_region: "take_block prev cur want s = (p, t) \<Longrightarrow> same_region s t"
  by (auto simp: take_block_def Let_def)

text \<open>
  The two ways of \<open>take_block\<close> share their end: the list is redirected around the block or to
  its rest, and the size is written back.
\<close>

lemma take_whole:
  assumes ok: "heap_ok s (L @ (b, True) # M)"
    and t: "t = set_size (fst b) (blk_size (mem s1) (fst b)) s1"
    and s1: "s1 = unlink_block (last_addr 0 (free_blocks L)) (snd (hdr (mem s) b)) s"
  shows "heap_ok t (L @ (b, False) # M)"
proof -
  have lay: "layout_ok s (L @ (b, True) # M)" using ok by (simp add: heap_ok_def)
  note b = layout_ok_block [OF lay] and split = heap_ok_split [OF ok]
  note un = unlink_block_seg [OF lay split(1) s1]
  have hb1: "hdr (mem s1) b = hdr (mem s) b" by (rule un(3) [OF b(1)]) auto
  have m: "mem t = write64 (mem s1) (fst b) (blk_size (mem s1) (fst b))" by (simp add: t)
  have other: "hdr (mem t) c = hdr (mem s1) c" if "c \<in> other_blocks (L @ M)" for c
    unfolding m using b(3) [OF that] inside_header [OF b(1)] b(1) by (intro hdr_write_other) auto
  have hb: "fst (hdr (mem t) b) = snd b"
    unfolding m using hdr_write_size [OF b(1)] hb1 split(2) by (simp add: hdr_def)
  show ?thesis
  proof (rule heap_okI)
    show "layout_ok t (L @ (b, False) # M)"
      using lay un(4,5) by (simp add: layout_ok_def t heap_end_def)
    have "seg (mem t) (free_list_head t) (free_blocks L) (snd (hdr (mem s) b))"
      using un(1) seg_hdr [of "free_blocks L" "mem t" "mem s1"] other by (simp add: other_blocks_def t)
    moreover have "seg (mem t) (snd (hdr (mem s) b)) (free_blocks M) 0"
      using split(3) seg_hdr [of "free_blocks M" "mem t" "mem s"] other un(2) by (simp add: other_blocks_def)
    ultimately show "seg (mem t) (free_list_head t) (free_blocks (L @ (b, False) # M)) 0"
      by (auto simp: seg_append)
    show "fst (hdr (mem t) c) = snd c" if "c \<in> used_blocks (L @ (b, False) # M)" for c
      using that hb other [of c] un(2) [of c] ok by (auto simp: other_blocks_def heap_ok_def)
  qed
qed

lemma take_split:
  assumes ok: "heap_ok s (L @ (b, True) # M)"
    and want: "16 \<le> unat want" "unat want mod 16 = 0" "unat want + 16 \<le> unat (snd b)"
    and s3: "s3 = set_size (fst b) want (set_next (fst b + want) (blk_next (mem s2) (fst b)) s2)"
    and s2: "s2 = set_size (fst b + want) (blk_size (mem s) (fst b) - want) s"
    and s4: "s4 = unlink_block (last_addr 0 (free_blocks L)) (fst b + want) s3"
    and t: "t = set_size (fst b) (blk_size (mem s4) (fst b)) s4"
  shows "heap_ok t (L @ ((fst b, want), False) # ((fst b + want, snd b - want), True) # M)"
proof -
  have lay: "layout_ok s (L @ (b, True) # M)" using ok by (simp add: heap_ok_def)
  note b = layout_ok_block [OF lay] and split = heap_ok_split [OF ok]
  let ?b1 = "(fst b, want)" and ?b2 = "(fst b + want, snd b - want)"
  have le: "want \<le> snd b" using want(3) by (simp add: word_le_nat_alt)
  have "layout_ok s (L @ taken want b @ M)"
    using lay taken_tiles [of _ "map fst L" b "map fst M" _ want] le want by (simp add: layout_ok_def)
  then have lay2: "layout_ok s (L @ (?b1, False) # (?b2, True) # M)"
    using want(3) by (simp add: taken_def)
  note b1 = layout_ok_block [OF lay2]
  have lay2': "layout_ok s ((L @ [(?b1, False)]) @ (?b2, True) # M)" using lay2 by simp
  note b2 = layout_ok_block [OF lay2']
  have apart12: "apart ?b1 ?b2" using b1(3) [of ?b2] by (simp add: other_blocks_def)
  then have apart21: "apart ?b2 ?b1" by (auto simp: apart_def)
  have bsz: "blk_size (mem s) (fst b) = snd b" using split(2) by (simp add: hdr_def)
  \<comment> \<open>the writes inside the block\<close>
  have m2: "mem s2 = write64 (mem s) (fst ?b2) (snd b - want)" by (simp add: s2 bsz)
  have in2: "inside (fst ?b2) ?b2" "inside (fst ?b2 + 8) ?b2" using inside_header [OF b2(1)] by auto
  have in1: "inside (fst ?b1) ?b1" "inside (fst ?b1 + 8) ?b1" using inside_header [OF b1(1)] by auto
  have h12: "hdr (mem s2) ?b1 = hdr (mem s) ?b1"
    unfolding m2 by (rule hdr_write_other [OF in2(1) apart21 b2(1) b1(1)])
  have next2: "blk_next (mem s2) (fst b) = snd (hdr (mem s) b)"
    using h12 by (simp add: hdr_def)
  have m3: "mem s3 = write64 (write64 (mem s2) (fst ?b2 + 8) (snd (hdr (mem s) b))) (fst ?b1) want"
    by (simp add: s3 next2)
  have hb2: "hdr (mem s3) ?b2 = (snd b - want, snd (hdr (mem s) b))"
    unfolding m3 hdr_write_other [OF in1(1) apart12 b1(1) b2(1)] hdr_write_next [OF b2(1)]
    unfolding m2 hdr_write_size [OF b2(1)] by simp
  have other3: "hdr (mem s3) c = hdr (mem s) c" if c: "c \<in> other_blocks (L @ M)" for c
  proof -
    have "apart ?b1 c" "apart ?b2 c" "fits c"
      using b1(3) [of c] b2(3) [of c] c by (auto simp: other_blocks_def)
    then show ?thesis
      unfolding m3 m2 using in1 in2 b1(1) b2(1)
      by (simp add: hdr_write_other [of _ ?b1] hdr_write_other [of _ ?b2])
  qed
  have seg3: "seg (mem s3) (free_list_head s3) (free_blocks L) (fst b)"
    using split(1) seg_hdr [of "free_blocks L" "mem s3" "mem s"] other3 by (simp add: other_blocks_def s3 s2)
  have lay3: "layout_ok s3 (L @ (b, True) # M)" using lay by (simp add: layout_ok_def heap_end_def s3 s2)
  note un = unlink_block_seg [OF lay3 seg3 s4]
  have z: "unat (fst b + want) = unat (fst b) + unat want" "unat (snd b - want) = unat (snd b) - unat want"
    using b1(1) b(1) le want(3) by (simp_all add: fits_def unat_word_ariths unat_sub word_le_nat_alt)
  have h4: "hdr (mem s4) ?b1 = hdr (mem s3) ?b1" "hdr (mem s4) ?b2 = hdr (mem s3) ?b2"
    using un(3) [OF b1(1)] un(3) [OF b2(1)] want(3) z by auto
  have m: "mem t = write64 (mem s4) (fst ?b1) (blk_size (mem s4) (fst b))" by (simp add: t)
  have ht1: "fst (hdr (mem t) ?b1) = want"
  proof -
    have "fst (hdr (mem s3) ?b1) = want" unfolding m3 hdr_write_size [OF b1(1)] by simp
    then show ?thesis unfolding m hdr_write_size [OF b1(1)] using h4(1) by (simp add: hdr_def)
  qed
  have ht2: "hdr (mem t) ?b2 = (snd b - want, snd (hdr (mem s) b))"
    unfolding m hdr_write_other [OF in1(1) apart12 b1(1) b2(1)] h4(2) hb2 ..
  have othert: "hdr (mem t) c = hdr (mem s4) c" if c: "c \<in> other_blocks (L @ M)" for c
  proof -
    have "apart ?b1 c" "fits c" using b1(3) [of c] c by (auto simp: other_blocks_def)
    then show ?thesis unfolding m using hdr_write_other [OF in1(1) _ b1(1)] by blast
  qed
  show ?thesis
  proof (rule heap_okI)
    show "layout_ok t (L @ (?b1, False) # (?b2, True) # M)"
      using lay2 un(4,5) by (simp add: layout_ok_def t heap_end_def s3 s2)
    have "seg (mem t) (free_list_head t) (free_blocks L) (fst ?b2)"
      using un(1) seg_hdr [of "free_blocks L" "mem t" "mem s4"] othert by (simp add: other_blocks_def t)
    moreover have "seg (mem t) (snd (hdr (mem s) b)) (free_blocks M) 0"
      using split(3) seg_hdr [of "free_blocks M" "mem t" "mem s"] othert un(2) other3
      by (simp add: other_blocks_def)
    ultimately show "seg (mem t) (free_list_head t) (free_blocks (L @ (?b1, False) # (?b2, True) # M)) 0"
      using ht2 by (auto simp: seg_append seg_Cons)
    show "fst (hdr (mem t) c) = snd c" if "c \<in> used_blocks (L @ (?b1, False) # (?b2, True) # M)" for c
      using that ht1 othert [of c] un(2) [of c] other3 [of c] ok by (auto simp: other_blocks_def heap_ok_def)
  qed
qed

lemma header_sz_16: "header_sz = 16"
  by (simp add: header_sz_def ALIGN_UP_HEAP_def kernel_consts)

lemma take_block_ok:
  assumes ok: "heap_ok s (L @ (b, True) # M)" and "want \<le> snd b" and "16 \<le> unat want" and "unat want mod 16 = 0"
  shows "\<exists>t. take_block (last_addr 0 (free_blocks L)) (fst b) want s = (fst b + 16, t)
    \<and> heap_ok t (L @ taken want b @ M)"
proof -
  have lay: "layout_ok s (L @ (b, True) # M)" using ok by (simp add: heap_ok_def)
  have bsz: "blk_size (mem s) (fst b) = snd b" "blk_next (mem s) (fst b) = snd (hdr (mem s) b)"
    using heap_ok_split [OF ok] by (simp_all add: hdr_def)
  have room: "want + MIN_ALLOC_SIZE \<le> snd b \<longleftrightarrow> unat want + 16 \<le> unat (snd b)"
  proof -
    have "0 < unat (fst b)" using layout_ok_block(2) [OF lay] by (simp add: unat_gt_0)
    then have "unat want + 16 < 2 ^ 64"
      using layout_ok_block(1) [OF lay] assms(2) by (simp add: fits_def word_le_nat_alt)
    then show ?thesis by (simp add: word_le_nat_alt unat_word_ariths kernel_consts)
  qed
  show ?thesis
  proof (cases "unat want + 16 \<le> unat (snd b)")
    case True
    with take_split [OF ok assms(3,4) True refl refl refl refl] show ?thesis
      by (simp add: take_block_def Let_def room bsz taken_def header_sz_16)
  next
    case False
    with take_whole [OF ok refl refl] show ?thesis
      by (simp add: take_block_def Let_def room bsz taken_def header_sz_16)
  qed
qed

text \<open>The bytes a request needs, without and with the wrap-around of the code's rounding.\<close>

lemma align_up_heap_nat:
  assumes "unat n + 15 < 2 ^ 64"
  shows "unat (ALIGN_UP_HEAP n) = (unat n + 15) div 16 * 16"
proof -
  have "ALIGN_UP_HEAP n = (n + 15) AND NOT 15"
    unfolding ALIGN_UP_HEAP_def kernel_consts by (simp add: add_diff_eq [symmetric])
  also have "NOT (15 :: u64) = NOT (mask 4)" by (simp add: mask_eq_exp_minus_1)
  also have "(n + 15) AND NOT (mask 4) = push_bit 4 (drop_bit 4 (n + 15))"
    by (rule bit_word_eqI) (auto simp: bit_and_iff bit_not_iff bit_mask_iff bit_push_bit_iff bit_drop_bit_eq)
  finally have "ALIGN_UP_HEAP n = (n + 15) div 16 * 16"
    by (simp add: push_bit_eq_mult drop_bit_eq_div)
  moreover have "unat (n + 15) = unat n + 15" using assms by (simp add: unat_word_ariths)
  moreover have "(unat n + 15) div 16 * 16 < 2 ^ 64"
    using assms div_times_less_eq_dividend [of "unat n + 15" 16] by linarith
  ultimately show ?thesis by (simp add: unat_word_ariths unat_div)
qed

definition request :: "u64 \<Rightarrow> nat" where
  "request sz = (unat sz + 15) div 16 * 16 + 16"

lemma kmalloc_want:
  assumes "sz \<noteq> 0" and "unat sz + 31 < 2 ^ 64"
  shows "\<exists>want. kmalloc sz s = kmalloc_search sz want s \<and> unat want = request sz \<and> 16 \<le> unat want \<and> unat want mod 16 = 0"
proof -
  define want where "want = ALIGN_UP_HEAP sz + header_sz"
  have "unat (ALIGN_UP_HEAP sz) = (unat sz + 15) div 16 * 16" using assms(2) by (intro align_up_heap_nat) simp
  moreover have "(unat sz + 15) div 16 * 16 + 16 < 2 ^ 64"
    using assms(2) div_times_less_eq_dividend [of "unat sz + 15" 16] by linarith
  ultimately have want: "unat want = request sz"
    by (simp add: want_def header_sz_16 request_def unat_word_ariths)
  then have "\<not> want < MIN_ALLOC_SIZE" by (simp add: request_def word_less_nat_alt kernel_consts)
  then have "kmalloc sz s = kmalloc_search sz want s"
    using assms(1) by (simp add: kmalloc_def Let_def want_def)
  with want show ?thesis by (auto simp: request_def)
qed

lemma free_blocks_split:
  "free_blocks L = bs @ b # cs \<Longrightarrow> \<exists>X M. L = X @ (b, True) # M \<and> free_blocks X = bs \<and> free_blocks M = cs"
proof (induction L arbitrary: bs)
  case (Cons x L)
  obtain c f where x: "x = (c, f)" by (cases x)
  show ?case
  proof (cases "f \<and> bs = []")
    case True
    with Cons.prems x show ?thesis by (intro exI [of _ "[]"] exI [of _ L]) simp
  next
    case False
    then obtain bs' where "free_blocks L = bs' @ b # cs" "bs = (if f then c # bs' else bs')"
      using Cons.prems by (cases bs) (auto simp: x split: if_splits)
    with Cons.IH [of bs'] obtain X M where "L = X @ (b, True) # M" "free_blocks X = bs'" "free_blocks M = cs"
      by blast
    with \<open>bs = _\<close> show ?thesis by (intro exI [of _ "x # X"] exI [of _ M]) (simp add: x)
  qed
qed simp

lemma heap_ok_nonnull: "heap_ok s L \<Longrightarrow> \<forall>b \<in> set (free_blocks L). fst b \<noteq> 0"
proof
  fix b assume ok: "heap_ok s L" and "b \<in> set (free_blocks L)"
  then obtain bs cs where "free_blocks L = bs @ b # cs" by (auto dest: split_list)
  then obtain X M where "L = X @ (b, True) # M" using free_blocks_split by blast
  with ok show "fst b \<noteq> 0" using layout_ok_block(2) [of s X b True M] by (simp add: heap_ok_def)
qed

lemma kmalloc_Done:
  assumes "heap_ok s L" and "sz \<noteq> 0" and "unat sz + 31 < 2 ^ 64"
    and "\<exists>b \<in> set (free_blocks L). request sz \<le> unat (snd b)"
  shows "\<exists>X b M t want. L = X @ (b, True) # M \<and> (\<forall>c \<in> set (free_blocks X). unat (snd c) < request sz)
    \<and> request sz \<le> unat (snd b) \<and> unat want = request sz
    \<and> kmalloc sz s = Done (fst b + 16) t \<and> heap_ok t (X @ taken want b @ M) \<and> same_region s t"
proof -
  obtain want where want: "kmalloc sz s = kmalloc_search sz want s" "unat want = request sz"
      "16 \<le> unat want" "unat want mod 16 = 0"
    using kmalloc_want [OF assms(2,3), of s] by (elim exE conjE) (rule that)
  let ?small = "\<lambda>b :: block. snd b < want"
  have "dropWhile ?small (free_blocks L) \<noteq> []"
  proof -
    obtain c where c: "c \<in> set (free_blocks L)" "request sz \<le> unat (snd c)" using assms(4) by blast
    then have "\<not> snd c < want" by (simp add: word_less_nat_alt want(2))
    with c(1) show ?thesis unfolding dropWhile_eq_Nil_conv by blast
  qed
  then obtain b cs where b: "dropWhile ?small (free_blocks L) = b # cs" 
    by (meson neq_Nil_conv)
  then have "free_blocks L = takeWhile ?small (free_blocks L) @ b # cs"
    by (metis takeWhile_dropWhile_id)
  then obtain X M where L: "L = X @ (b, True) # M" "free_blocks X = takeWhile ?small (free_blocks L)"
    using free_blocks_split by blast
  have big: "want \<le> snd b" using b by (auto simp: dropWhile_eq_Cons_conv)
  have ok: "heap_ok s (X @ (b, True) # M)" using assms(1) L(1) by simp
  obtain t where t: "take_block (last_addr 0 (free_blocks X)) (fst b) want s = (fst b + 16, t)"
      "heap_ok t (X @ taken want b @ M)"
    using take_block_ok [OF ok big want(3,4)] by blast
  have seg: "seg (mem s) (free_list_head s) (free_blocks L) 0" using assms(1) by (simp add: heap_ok_def)
  have "find_fit (mem s) 0 (free_list_head s) want = Some (Some (last_addr 0 (free_blocks X), fst b))"
    using find_fit_seg [OF seg heap_ok_nonnull [OF assms(1)], of 0 want] by (simp add: b L(2))
  then have "kmalloc sz s = Done (fst b + 16) t"
    using t(1) by (simp add: want(1) kmalloc_search.simps [of sz want s])
  moreover have "\<forall>c \<in> set (free_blocks X). unat (snd c) < request sz"
    unfolding L(2) by (auto dest!: set_takeWhileD simp: word_less_nat_alt want(2))
  moreover have "request sz \<le> unat (snd b)" using big by (simp add: word_le_nat_alt want(2))
  ultimately show ?thesis using L(1) want(2) t(2) take_block_region [OF t(1)] by blast
qed

section \<open>Releasing a block\<close>

definition join_next :: "block \<Rightarrow> layout \<Rightarrow> layout" where
  "join_next b M = (case M of (c, True) # M' \<Rightarrow> ((fst b, snd b + snd c), True) # M' | _ \<Rightarrow> (b, True) # M)"

definition released :: "layout \<Rightarrow> block \<Rightarrow> layout \<Rightarrow> layout" where
  "released L b M = (if L \<noteq> [] \<and> snd (last L)
     then butlast L @ join_next (fst (last L)) (join_next b M) else L @ join_next b M)"

lemma join_next_simps [simp]:
  "join_next b [] = [(b, True)]" "join_next b ((c, False) # M) = (b, True) # (c, False) # M"
  "join_next b ((c, True) # M) = ((fst b, snd b + snd c), True) # M"
  by (simp_all add: join_next_def)

lemma join_next_head: "\<exists>c M'. join_next b M = (c, True) # M' \<and> fst c = fst b"
proof (cases M)
  case (Cons d M')
  then show ?thesis by (cases d; cases "snd d") simp_all
qed simp

lemma link_block_unlink:
  "link_block prev b s = unlink_block prev b
     (set_next b (if prev = 0 then free_list_head s else blk_next (mem s) prev) s)"
  by (simp add: link_block_def unlink_block_def)

text \<open>What follows the free blocks of \<open>L\<close> in the list: the target of the last one, or the head.\<close>

lemma seg_end:
  assumes "seg (mem s) (free_list_head s) bs r" and "\<forall>b \<in> set bs. fst b \<noteq> 0"
  shows "(if last_addr 0 bs = 0 then free_list_head s else blk_next (mem s) (last_addr 0 bs)) = r"
proof (cases bs rule: rev_cases)
  case (snoc xs c)
  with assms show ?thesis by (auto simp: seg_append seg_Cons hdr_def)
qed (use assms in simp)

lemma write_size_ok:
  assumes ok: "heap_ok s (L @ (b, False) # M)"
  shows "heap_ok (set_size (fst b) (snd b) s) (L @ (b, False) # M)"
proof -
  have lay: "layout_ok s (L @ (b, False) # M)" using ok by (simp add: heap_ok_def)
  note b = layout_ok_block [OF lay]
  let ?m = "write64 (mem s) (fst b) (snd b)"
  have other: "hdr ?m c = hdr (mem s) c" if "c \<in> other_blocks (L @ M)" for c
    using b(3) [OF that] inside_header [OF b(1)] b(1) by (intro hdr_write_other) auto
  show ?thesis
  proof (rule heap_okI)
    show "layout_ok (set_size (fst b) (snd b) s) (L @ (b, False) # M)"
      using lay by (simp add: layout_ok_def heap_end_def)
    show "seg (mem (set_size (fst b) (snd b) s)) (free_list_head (set_size (fst b) (snd b) s))
        (free_blocks (L @ (b, False) # M)) 0"
      using ok seg_hdr [of "free_blocks (L @ M)" ?m "mem s"] other by (simp add: other_blocks_def heap_ok_def)
    show "fst (hdr (mem (set_size (fst b) (snd b) s)) c) = snd c" if "c \<in> used_blocks (L @ (b, False) # M)" for c
      using that other [of c] hdr_write_size [OF b(1)] ok by (auto simp: other_blocks_def heap_ok_def)
  qed
qed

lemma link_ok:
  assumes ok: "heap_ok s (L @ (b, False) # M)"
    and t: "t = link_block (last_addr 0 (free_blocks L)) (fst b) s"
  shows "heap_ok t (L @ (b, True) # M)"
proof -
  have lay: "layout_ok s (L @ (b, False) # M)" using ok by (simp add: heap_ok_def)
  note b = layout_ok_block [OF lay]
  have nonnull: "\<forall>c \<in> set (free_blocks L). fst c \<noteq> 0" using heap_ok_nonnull [OF ok] by simp
  obtain r where r: "seg (mem s) (free_list_head s) (free_blocks L) r" "seg (mem s) r (free_blocks M) 0"
    using ok by (auto simp: heap_ok_def seg_append)
  define s1 where "s1 = set_next (fst b) r s"
  have in1: "inside (fst b + 8) b" using inside_header [OF b(1)] by auto
  have other1: "hdr (mem s1) c = hdr (mem s) c" if c: "c \<in> other_blocks (L @ M)" for c
    using b(3) [OF c] in1 b(1) by (simp add: s1_def hdr_write_other [of _ b])
  have "fst (hdr (mem s) b) = snd b" using ok by (simp add: heap_ok_def)
  then have hb1: "hdr (mem s1) b = (snd b, r)" by (simp add: s1_def hdr_write_next [OF b(1)])
  have seg1: "seg (mem s1) (free_list_head s1) (free_blocks L) r"
    using r(1) seg_hdr [of "free_blocks L" "mem s1" "mem s"] other1 by (simp add: other_blocks_def s1_def)
  have t1: "t = unlink_block (last_addr 0 (free_blocks L)) (fst b) s1"
    unfolding t link_block_unlink seg_end [OF r(1) nonnull] s1_def ..
  have lay1: "layout_ok s1 (L @ (b, False) # M)" using lay by (simp add: layout_ok_def heap_end_def s1_def)
  note un = unlink_block_seg [OF lay1 seg1 t1]
  have hb: "hdr (mem t) b = (snd b, r)" using un(3) [OF b(1)] hb1 by simp
  show ?thesis
  proof (rule heap_okI)
    show "layout_ok t (L @ (b, True) # M)"
      using lay un(4,5) by (simp add: layout_ok_def heap_end_def s1_def)
    have "seg (mem t) r (free_blocks M) 0"
      using r(2) seg_hdr [of "free_blocks M" "mem t" "mem s"] un(2) other1 by (simp add: other_blocks_def)
    then show "seg (mem t) (free_list_head t) (free_blocks (L @ (b, True) # M)) 0"
      using un(1) hb by (auto simp: seg_append seg_Cons)
    show "fst (hdr (mem t) c) = snd c" if "c \<in> used_blocks (L @ (b, True) # M)" for c
      using that un(2) [of c] other1 [of c] ok by (auto simp: other_blocks_def heap_ok_def)
  qed
qed

lemma block_end_unat: "fits b \<Longrightarrow> unat (fst b + snd b) = unat (fst b) + unat (snd b)"
  by (simp add: fits_def unat_word_ariths)

text \<open>A free block and the block behind it.\<close>

lemma next_block:
  assumes ok: "heap_ok s (L @ (b, True) # (c, f) # M)"
  shows "unat (fst c) = unat (fst b) + unat (snd b)" and "fst b + snd b = fst c"
    and "tiles (unat (fst c) + unat (snd c)) (map fst M) (heap_end s)" and "16 \<le> unat (snd c)"
    and "blk_size (mem s) (fst b) = snd b" and "blk_next (mem s) (fst b) = snd (hdr (mem s) b)"
proof -
  have lay: "layout_ok s (L @ (b, True) # (c, f) # M)" using ok by (simp add: heap_ok_def)
  have til: "tiles (unat (fst b) + unat (snd b)) (map fst ((c, f) # M)) (heap_end s)"
    using lay by (cases b) (auto simp: layout_ok_def tiles_append)
  then show c: "unat (fst c) = unat (fst b) + unat (snd b)"
    "tiles (unat (fst c) + unat (snd c)) (map fst M) (heap_end s)" "16 \<le> unat (snd c)" by (cases c; simp)+
  show "fst b + snd b = fst c"
    using c(1) block_end_unat [OF layout_ok_block(1) [OF lay]] by (simp add: word_unat_eq_iff)
  show "blk_size (mem s) (fst b) = snd b" "blk_next (mem s) (fst b) = snd (hdr (mem s) b)"
    using heap_ok_split(2) [OF ok] by (simp_all add: hdr_def)
qed

lemma merge_next_used:
  assumes ok: "heap_ok s (L @ (b, True) # (c, False) # M)"
  shows "merge_next (fst b) s = s"
proof -
  note split = heap_ok_split [OF ok] and c = next_block [OF ok]
  have "fst c \<noteq> snd (hdr (mem s) b)" if "snd (hdr (mem s) b) \<noteq> 0"
  proof -
    have "free_blocks M \<noteq> []" using that split(3) by auto
    then obtain e es where e: "free_blocks M = e # es" by (meson neq_Nil_conv)
    then have "snd (hdr (mem s) b) = fst e" using split(3) by (simp add: seg_Cons)
    moreover have "e \<in> set (map fst M)" using e layout_blocks [of M] by auto
    then have "unat (fst c) + unat (snd c) \<le> unat (fst e)" using tiles_bounds [OF c(3), of e] by simp
    ultimately show ?thesis using c(4) by auto
  qed
  then show ?thesis by (auto simp: merge_next_def Let_def c(2,5,6))
qed

lemma merge_next_free:
  assumes ok: "heap_ok s (L @ (b, True) # (c, True) # M)"
  shows "heap_ok (merge_next (fst b) s) (L @ ((fst b, snd b + snd c), True) # M)"
proof -
  have lay: "layout_ok s (L @ (b, True) # (c, True) # M)" using ok by (simp add: heap_ok_def)
  note b = layout_ok_block [OF lay] and split = heap_ok_split [OF ok]
  note cb = next_block(1,3,4) [OF ok] and hb = next_block(5,6) [OF ok]
  let ?n = "(fst b, snd b + snd c)"
  have nxt: "snd (hdr (mem s) b) = fst c" "fst (hdr (mem s) c) = snd c"
    "seg (mem s) (snd (hdr (mem s) c)) (free_blocks M) 0"
    using split(3) by (auto simp: seg_Cons)
  have lay2: "layout_ok s ((L @ [(b, True)]) @ (c, True) # M)" using lay by simp
  note c = layout_ok_block [OF lay2]
  have apart: "apart b c" using b(3) [of c] by (simp add: other_blocks_def)
  then have apart': "apart c b" by (auto simp: apart_def)
  have nsz: "unat (snd b + snd c) = unat (snd b) + unat (snd c)"
    using c(1) cb(1) by (simp add: fits_def unat_word_ariths)
  have "(unat (snd b) + unat (snd c)) mod 16 = 0"
    using tiles_block [of "unat (heap_start s)" "map fst L" b "map fst ((c, True) # M)" "heap_end s"]
      tiles_block [of "unat (heap_start s)" "map fst (L @ [(b, True)])" c "map fst M" "heap_end s"] lay
    by (simp add: layout_ok_def mod_add_eq [symmetric])
  then have layn: "layout_ok s (L @ (?n, True) # M)"
    using lay cb nsz by (cases b; cases c) (auto simp: layout_ok_def tiles_append add.assoc)
  note n = layout_ok_block [OF layn]
  have inb: "inside (fst b) b" "inside (fst b + 8) b" using inside_header [OF b(1)] by auto
  have hs1: "hdr (write64 (mem s) (fst b) v) b = (v, fst c)" "hdr (write64 (mem s) (fst b) v) c = hdr (mem s) c" for v
    using hdr_write_size [OF b(1), of "mem s" v] hdr_write_other [OF inb(1) apart b(1) c(1), of "mem s" v] nxt(1)
    by auto
  define t where "t = merge_next (fst b) s"
  have t: "t = set_next (fst b) (snd (hdr (mem s) c)) (set_size (fst b) (snd b + snd c) s)"
  proof -
    have "blk_next (mem s) (fst b) = fst c" "blk_size (mem s) (fst c) = snd c"
      using nxt(1,2) by (simp_all add: hdr_def)
    moreover have "blk_next (write64 (mem s) (fst b) v) (fst b) = fst c"
      "blk_next (write64 (mem s) (fst b) v) (fst c) = snd (hdr (mem s) c)" for v
      using hs1 [of v] by (simp_all add: hdr_def)
    ultimately show ?thesis
      using next_block(2) [OF ok] c(2) hb(1) by (simp only: t_def merge_next_def Let_def set_cell_simps simp_thms if_True)
  qed
  have m: "mem t = write64 (write64 (mem s) (fst b) (snd b + snd c)) (fst b + 8) (snd (hdr (mem s) c))"
    by (simp add: t)
  have other: "hdr (mem t) e = hdr (mem s) e" if e: "e \<in> other_blocks (L @ M)" for e
  proof -
    have "apart b e" "fits e" using b(3) [of e] e by (auto simp: other_blocks_def)
    then show ?thesis unfolding m using inb b(1) by (simp add: hdr_write_other [of _ b])
  qed
  have hn: "hdr (mem t) ?n = (snd b + snd c, snd (hdr (mem s) c))"
    unfolding m using hdr_write_next [OF b(1)] hdr_write_size [OF b(1)] by (simp add: hdr_def)
  have "heap_ok t (L @ (?n, True) # M)"
  proof (rule heap_okI)
    show "layout_ok t (L @ (?n, True) # M)" using layn by (simp add: layout_ok_def heap_end_def t)
    have "seg (mem t) (free_list_head t) (free_blocks L) (fst b)"
      using split(1) seg_hdr [of "free_blocks L" "mem t" "mem s"] other by (simp add: other_blocks_def t)
    moreover have "seg (mem t) (snd (hdr (mem s) c)) (free_blocks M) 0"
      using nxt(3) seg_hdr [of "free_blocks M" "mem t" "mem s"] other by (simp add: other_blocks_def)
    ultimately show "seg (mem t) (free_list_head t) (free_blocks (L @ (?n, True) # M)) 0"
      using hn by (auto simp: seg_append seg_Cons)
    show "fst (hdr (mem t) e) = snd e" if "e \<in> used_blocks (L @ (?n, True) # M)" for e
      using that other [of e] ok by (auto simp: other_blocks_def heap_ok_def)
  qed
  then show ?thesis by (simp add: t_def)
qed

lemma merge_next_ok:
  assumes ok: "heap_ok s (L @ (b, True) # M)"
  shows "heap_ok (merge_next (fst b) s) (L @ join_next b M)"
proof (cases M)
  case Nil
  then have "blk_next (mem s) (fst b) = 0"
    using heap_ok_split(2,3) [OF ok] by (simp add: hdr_def)
  then show ?thesis using ok Nil by (simp add: merge_next_def)
next
  case (Cons d M')
  obtain c f where d: "d = (c, f)" by (cases d)
  show ?thesis
    using ok merge_next_used [of s L b c M'] merge_next_free [of s L b c M'] by (cases f) (simp_all add: Cons d)
qed

lemma merge_prev_next:
  assumes "prev \<noteq> 0" and "b \<noteq> 0" and "blk_next (mem s) prev = b" and "fits (prev, z)"
  shows "merge_prev prev b s = merge_next prev s"
proof -
  have "blk_next (write64 (mem s) prev v) prev = b" for v
    using hdr_write_size [OF assms(4), of "mem s" v] assms(3) by (simp add: hdr_def)
  then show ?thesis using assms(1-3) by (simp add: merge_prev_def merge_next_def Let_def)
qed

lemma merge_prev_ok:
  assumes ok: "heap_ok s (L @ (b, True) # M)"
  shows "heap_ok (merge_prev (last_addr 0 (free_blocks L)) (fst b) s)
    (if L \<noteq> [] \<and> snd (last L) then butlast L @ join_next (fst (last L)) ((b, True) # M) else L @ (b, True) # M)"
proof (cases "free_blocks L" rule: rev_cases)
  case Nil
  have "\<not> (L \<noteq> [] \<and> snd (last L))"
  proof
    assume "L \<noteq> [] \<and> snd (last L)"
    then have "fst (last L) \<in> set (free_blocks L)" by (auto simp: free_blocks_def intro!: imageI)
    then show False using Nil by simp
  qed
  then show ?thesis using ok Nil by (auto simp: merge_prev_def)
next
  case (snoc bs c)
  then obtain X Y where L: "L = X @ (c, True) # Y" "free_blocks X = bs" "free_blocks Y = []"
    using free_blocks_snoc by blast
  have ok': "heap_ok s (X @ (c, True) # (Y @ (b, True) # M))" using ok by (simp add: L)
  have lay: "layout_ok s (X @ (c, True) # (Y @ (b, True) # M))" using ok' by (simp add: heap_ok_def)
  note c = layout_ok_block [OF lay]
  have "fst b \<noteq> 0" using layout_ok_block(2) [of s L b True M] ok by (simp add: heap_ok_def)
  moreover have "blk_next (mem s) (fst c) = fst b"
    using heap_ok_split(3) [OF ok'] by (simp add: L(3) seg_Cons hdr_def)
  ultimately have eq: "merge_prev (last_addr 0 (free_blocks L)) (fst b) s = merge_next (fst c) s"
    using merge_prev_next [OF c(2), of "fst b" s "snd c"] c(1) snoc by simp
  have res: "heap_ok (merge_next (fst c) s) (X @ join_next c (Y @ (b, True) # M))"
    by (rule merge_next_ok [OF ok'])
  show ?thesis
  proof (cases Y)
    case Nil
    then show ?thesis using res eq snoc by (simp add: L(1) butlast_append)
  next
    case (Cons d Y')
    have "\<forall>x \<in> set Y. \<not> snd x" using L(3) by (simp add: free_blocks_def filter_empty_conv)
    then have used: "\<not> snd d" "\<not> snd (last Y)" using Cons by (auto split: if_splits)
    then have "join_next c (Y @ (b, True) # M) = (c, True) # Y @ (b, True) # M"
      using Cons by (cases d) simp
    then show ?thesis using res used Cons eq by (simp add: L(1))
  qed
qed

lemma tiles_aligned:
  "tiles lo bs hi \<Longrightarrow> lo mod 16 = 0 \<Longrightarrow> b \<in> set bs \<Longrightarrow> unat (fst b) mod 16 = 0"
proof (induction lo bs hi rule: tiles.induct)
  case (2 lo a z bs hi)
  then show ?case using mod_add_eq [of lo 16 "unat z"] by auto
qed simp

lemma find_place_layout:
  assumes ok: "heap_ok s (L @ (b, False) # M)"
  shows "find_place (mem s) 0 (free_list_head s) (fst b) = Some (last_addr 0 (free_blocks L))"
proof -
  have til: "tiles (unat (heap_start s)) (map fst L @ b # map fst M) (heap_end s)"
    using ok by (simp add: heap_ok_def layout_ok_def)
  then obtain mid where mid: "tiles (unat (heap_start s)) (map fst L) mid" "unat (fst b) = mid"
      "tiles (mid + unat (snd b)) (map fst M) (heap_end s)"
    by (cases b) (auto simp: tiles_append)
  have below: "fst c < fst b" if "c \<in> set (free_blocks L)" for c
  proof -
    have "c \<in> set (map fst L)" using that layout_blocks [of L] by blast
    from tiles_bounds [OF mid(1) this] show ?thesis by (simp add: word_less_nat_alt mid(2))
  qed
  have above: "\<not> fst c < fst b" if "c \<in> set (free_blocks M)" for c
  proof -
    have "c \<in> set (map fst M)" using that layout_blocks [of M] by blast
    from tiles_bounds [OF mid(3) this] show ?thesis by (simp add: word_less_nat_alt mid(2))
  qed
  have "takeWhile (\<lambda>c. fst c < fst b) (free_blocks M) = []"
    using above by (cases "free_blocks M") auto
  then have "takeWhile (\<lambda>c. fst c < fst b) (free_blocks (L @ (b, False) # M)) = free_blocks L"
    using below by (simp add: takeWhile_append)
  moreover have "seg (mem s) (free_list_head s) (free_blocks (L @ (b, False) # M)) 0"
    using ok by (simp add: heap_ok_def)
  ultimately show ?thesis
    using find_place_seg [OF _ heap_ok_nonnull [OF ok], of "mem s" "free_list_head s" 0 "fst b"] by simp
qed

text \<open>Linking an allocated block and merging it with its neighbours.\<close>

lemma insert_ok:
  assumes ok: "heap_ok s (L @ (b, False) # M)" and prev: "prev = last_addr 0 (free_blocks L)"
  shows "heap_ok (merge_prev prev (fst b) (merge_next (fst b) (link_block prev (fst b) s))) (released L b M)"
proof -
  define t where "t = link_block prev (fst b) s"
  have "heap_ok t (L @ (b, True) # M)" by (rule link_ok [OF ok t_def [unfolded prev]])
  then have "heap_ok (merge_next (fst b) t) (L @ join_next b M)" by (rule merge_next_ok)
  moreover obtain c M' where c: "join_next b M = (c, True) # M'" "fst c = fst b" using join_next_head by blast
  ultimately show ?thesis
    using merge_prev_ok [of "merge_next (fst b) t" L c M'] by (auto simp: released_def prev t_def)
qed

lemma kfree_Done:
  assumes "heap_ok s (L @ (b, False) # M)"
  shows "\<exists>t. kfree (fst b + 16) s = Done () t \<and> heap_ok t (released L b M) \<and> same_region s t"
proof -
  have lay: "layout_ok s (L @ (b, False) # M)" using assms by (simp add: heap_ok_def)
  note b = layout_ok_block [OF lay]
  have til: "tiles (unat (heap_start s)) (map fst L @ b # map fst M) (heap_end s)"
    "unat (heap_start s) mod 16 = 0" "heap_end s \<le> 2 ^ 64 - 16"
    using lay by (simp_all add: layout_ok_def)
  have bsz: "read64 (mem s) (fst b) = snd b" using assms by (simp add: heap_ok_def hdr_def)
  have bounds: "unat (heap_start s) \<le> unat (fst b)" "unat (fst b) + unat (snd b) \<le> heap_end s"
    using tiles_bounds [OF til(1), of b] by simp_all
  have "unat (heap_start s + heap_size s) = heap_end s"
    using til(3) by (simp add: heap_end_def unat_word_ariths)
  then have range: "\<not> fst b < heap_start s" "\<not> heap_start s + heap_size s \<le> fst b" "\<not> snd b < MIN_ALLOC_SIZE"
    using bounds b(1) by (simp_all add: word_less_nat_alt word_le_nat_alt fits_def kernel_consts)
  have "unat (fst b) mod 16 = 0" using tiles_aligned [OF til(1,2), of b] by simp
  then have "unat (fst b mod 16) = 0" by (simp add: unat_mod)
  then have "fst b mod 16 = 0" by (simp add: unat_eq_0)
  moreover have "fst b AND 15 = fst b mod 16"
  proof -
    have "(15 :: u64) = mask 4" by (simp add: mask_eq_exp_minus_1)
    then show ?thesis by (simp only: take_bit_eq_mask [symmetric]) (simp add: take_bit_eq_mod)
  qed
  ultimately have aligned: "fst b AND (HEAP_ALIGNMENT - 1) = 0" by (simp add: kernel_consts)
  have "unat (fst b + 16) = unat (fst b) + 16" using b(1) by (simp add: fits_def unat_word_ariths)
  then have nonnull: "fst b + 16 \<noteq> 0" by auto
  define prev where "prev = last_addr 0 (free_blocks L)"
  let ?t = "merge_prev prev (fst b) (merge_next (fst b) (link_block prev (fst b) (set_size (fst b) (snd b) s)))"
  have "kfree (fst b + 16) s = Done () ?t"
    using find_place_layout [OF assms] nonnull range aligned
    by (simp add: kfree_def Let_def header_sz_16 bsz prev_def)
  moreover have "heap_ok ?t (released L b M)" by (rule insert_ok [OF write_size_ok [OF assms] prev_def])
  ultimately show ?thesis by simp
qed

section \<open>Properties\<close>

text \<open>
  C6. Allocation is first fit and keeps the heap sound: for a request that does not overflow,
  when some free block is large enough, \<open>kmalloc\<close> takes the first one in address order, \<open>b\<close>,
  and returns the address 16 bytes into it; the layout afterwards is the one before with \<open>b\<close>
  split into an allocated block of exactly the rounded request and a free rest, or handed out
  whole when the rest would be smaller than a block header; blocks before \<open>b\<close> were too small,
  and every other block, with the size stored in it, is as before.
\<close>

theorem kmalloc_takes_first_fit:
  assumes "heap_ok s L" and "sz \<noteq> 0" and "unat sz + 31 < 2 ^ 64"
    and "\<exists>b \<in> set (free_blocks L). request sz \<le> unat (snd b)"
  shows "\<exists>X b M t want. L = X @ (b, True) # M \<and> (\<forall>c \<in> set (free_blocks X). unat (snd c) < request sz)
    \<and> request sz \<le> unat (snd b) \<and> unat want = request sz
    \<and> kmalloc sz s = Done (fst b + 16) t \<and> heap_ok t (X @ taken want b @ M)"
  using kmalloc_Done [OF assms] by blast

text \<open>
  C7. Release gives exactly the block back: for the address \<open>kmalloc\<close> returned for an allocated
  block \<open>b\<close> of the heap, \<open>kfree\<close> returns, and the layout afterwards is the one before with \<open>b\<close>
  free and merged with the free neighbours on either side; all other blocks are as before.
\<close>

theorem kfree_releases_block:
  assumes "heap_ok s (L @ (b, False) # M)"
  shows "\<exists>t. kfree (fst b + 16) s = Done () t \<and> heap_ok t (released L b M)"
  using kfree_Done [OF assms] by blast

definition example_heap :: heap where
  "example_heap = vmm.extend (example_vmm\<lparr>mem := write64 (\<lambda>_. 0) 0x1000 0x1000\<rparr>) (heap.fields 0x1000 0x1000 0x1000)"

lemma example_heap_ok: "heap_ok example_heap [((0x1000, 0x1000), True)]"
proof -
  have "hdr (mem example_heap) (0x1000, 0x1000) = (0x1000, 0)"
  proof -
    have "read64 (\<lambda>_. 0) a = 0" for a by (rule bit_word_eqI) (simp add: bit_load_le)
    then show ?thesis
      using hdr_write_size [of "(0x1000, 0x1000)" "\<lambda>_. 0" "0x1000"]
      by (simp add: example_heap_def vmm.defs heap.defs fits_def hdr_def)
  qed
  then show ?thesis
    by (simp add: heap_ok_def layout_ok_def heap_end_def example_heap_def vmm.defs heap.defs seg_Cons)
qed

theorem kmalloc_takes_first_fit_witness:
  "\<exists>t. kmalloc 100 example_heap = Done 0x1010 t \<and>
    heap_ok t [((0x1000, 128), False), ((0x1080, 0xF80), True)]"
proof -
  have r: "request 100 = 128" by (simp add: request_def)
  obtain X b M t want where L: "[((0x1000, 0x1000), True)] = X @ (b, True) # M" "unat want = request 100"
      "kmalloc 100 example_heap = Done (fst b + 16) t" "heap_ok t (X @ taken want b @ M)"
    using kmalloc_takes_first_fit [OF example_heap_ok, of 100] r by auto
  have "want = 128" using L(2) by (simp add: r word_unat_eq_iff)
  moreover have "X = []" "b = (0x1000, 0x1000)" "M = []" using L(1) by (auto simp: Cons_eq_append_conv)
  ultimately show ?thesis using L(3,4) by (simp add: taken_def)
qed

theorem kfree_releases_block_witness:
  "\<exists>s t. kmalloc 100 example_heap = Done 0x1010 s \<and> kfree 0x1010 s = Done () t
    \<and> heap_ok t [((0x1000, 0x1000), True)]"
proof -
  have r: "request 100 = 128" by (simp add: request_def)
  obtain X b M s want where L: "[((0x1000, 0x1000), True)] = X @ (b, True) # M" "unat want = request 100"
      "kmalloc 100 example_heap = Done (fst b + 16) s" "heap_ok s (X @ taken want b @ M)"
    using kmalloc_Done [OF example_heap_ok, of 100] r by auto
  have "want = 128" using L(2) by (simp add: r word_unat_eq_iff)
  moreover have "X = []" "b = (0x1000, 0x1000)" "M = []" using L(1) by (auto simp: Cons_eq_append_conv)
  ultimately have s: "kmalloc 100 example_heap = Done 0x1010 s"
      "heap_ok s ([] @ ((0x1000, 128), False) # [((0x1080, 0xF80), True)])"
    using L(3,4) by (simp_all add: taken_def)
  from kfree_releases_block [OF s(2)] s(1) show ?thesis by (auto simp: released_def)
qed

text \<open>The bytes of the free blocks, and the allocated blocks in address order.\<close>

definition free_bytes :: "layout \<Rightarrow> nat" where
  "free_bytes L = sum_list (map (unat \<circ> snd) (free_blocks L))"

definition used_list :: "layout \<Rightarrow> block list" where
  "used_list L = map fst (filter (Not \<circ> snd) L)"

lemma used_list_simps [simp]:
  "used_list [] = []" "used_list ((b, f) # L) = (if f then used_list L else b # used_list L)"
  "used_list (L @ M) = used_list L @ used_list M"
  by (simp_all add: used_list_def)

lemma layout_sum:
  "sum_list (map (unat \<circ> snd) (map fst L)) = free_bytes L + sum_list (map (unat \<circ> snd) (used_list L))"
  by (induction L) (auto simp: free_bytes_def)

lemma heap_ok_sum:
  "heap_ok s L \<Longrightarrow> free_bytes L + sum_list (map (unat \<circ> snd) (used_list L)) = unat (heap_size s)"
  using tiles_sum [of "unat (heap_start s)" "map fst L" "heap_end s"] layout_sum [of L]
  by (simp add: heap_ok_def layout_ok_def heap_end_def)

lemma used_list_join: "used_list (join_next b M) = used_list M"
  by (cases M) (auto simp: join_next_def split: bool.splits)

lemma used_list_released: "used_list (released L b M) = used_list L @ used_list M"
proof (cases "L \<noteq> [] \<and> snd (last L)")
  case True
  then have "used_list L = used_list (butlast L)"
    by (cases L rule: rev_cases) (auto simp: used_list_def)
  with True show ?thesis by (simp add: released_def used_list_join)
next
  case False
  then show ?thesis by (auto simp: released_def used_list_join)
qed

text \<open>
  C8. Nothing leaks: the free blocks and the allocated blocks always add up to the size of the
  heap, and an allocation served from the free list followed by the release of the address it
  returned gives a sound heap with the same allocated blocks and the same number of free bytes.
\<close>

theorem kmalloc_kfree_leaks_nothing:
  assumes "heap_ok s L" and "sz \<noteq> 0" and "unat sz + 31 < 2 ^ 64"
    and "\<exists>b \<in> set (free_blocks L). request sz \<le> unat (snd b)"
  shows "free_bytes L + sum_list (map (unat \<circ> snd) (used_list L)) = unat (heap_size s) \<and>
    (\<exists>p t u L'. kmalloc sz s = Done p t \<and> p \<noteq> 0 \<and> kfree p t = Done () u \<and> heap_ok u L'
      \<and> used_list L' = used_list L \<and> free_bytes L' = free_bytes L)"
proof -
  obtain X b M t want where L: "L = X @ (b, True) # M"
      and t: "kmalloc sz s = Done (fst b + 16) t" "heap_ok t (X @ taken want b @ M)" "same_region s t"
    using kmalloc_Done [OF assms] by blast
  obtain c N where c: "taken want b @ M = (c, False) # N" "fst c = fst b" "used_list N = used_list M"
    by (cases "unat want + 16 \<le> unat (snd b)") (auto simp: taken_def)
  have ok: "heap_ok t (X @ (c, False) # N)" using t(2) c(1) by simp
  obtain u where u: "kfree (fst b + 16) t = Done () u" "heap_ok u (released X c N)" "same_region t u"
    using kfree_Done [OF ok] c(2) by auto
  have used: "used_list (released X c N) = used_list L" by (simp add: used_list_released c(3) L)
  have "heap_size u = heap_size s" using t(3) u(3) by (simp add: same_region_def)
  then have bytes: "free_bytes (released X c N) = free_bytes L"
    using heap_ok_sum [OF u(2)] heap_ok_sum [OF assms(1)] used by simp
  have "layout_ok t (X @ (c, False) # N)" using ok by (simp add: heap_ok_def)
  then have "fits c" by (rule layout_ok_block(1))
  then have "unat (fst b + 16) = unat (fst b) + 16" using c(2) by (simp add: fits_def unat_word_ariths)
  then have "fst b + 16 \<noteq> 0" by auto
  with heap_ok_sum [OF assms(1)] t(1) u(1,2) used bytes show ?thesis by blast
qed

theorem kmalloc_kfree_leaks_nothing_witness:
  "\<exists>p t u L'. kmalloc 100 example_heap = Done p t \<and> kfree p t = Done () u
    \<and> heap_ok u L' \<and> free_bytes L' = 0x1000"
proof -
  have "request 100 = 128" by (simp add: request_def)
  then show ?thesis
    using kmalloc_kfree_leaks_nothing [OF example_heap_ok, of 100] by (auto simp: free_bytes_def)
qed

text \<open>
  C29. The size computation overflows: a request within 15 bytes of \<open>2 ^ 64\<close> is rounded to a
  payload of 0 bytes, so that it succeeds with the first free block of the list, of which it is
  given a header and no payload at all.
\<close>

theorem kmalloc_huge_request_succeeds:
  assumes "heap_ok s (X @ (b, True) # M)" and "free_blocks X = []" and "2 ^ 64 - 15 \<le> unat sz"
  shows "\<exists>t. kmalloc sz s = Done (fst b + 16) t \<and> heap_ok t (X @ taken 16 b @ M)"
proof -
  have "unat (sz + 15) = (unat sz + 15) mod 2 ^ 64" by (simp add: unat_word_ariths)
  also have "\<dots> = unat sz + 15 - 2 ^ 64"
    using assms(3) unsigned_less [of sz, where ?'a = nat] by (simp add: mod_if)
  finally have small: "unat (sz + 15) < 16"
    using assms(3) unsigned_less [of sz, where ?'a = nat] by simp
  have "sz + 16 - 1 AND NOT (15 :: u64) = 0"
  proof -
    have "take_bit 4 (sz + 15) = sz + 15"
      using small by (simp add: take_bit_word_eq_self word_unat_eq_iff unsigned_take_bit_eq take_bit_nat_eq_self)
    moreover have "(15 :: u64) = mask 4" by (simp add: mask_eq_exp_minus_1)
    ultimately have "(sz + 15) AND NOT (15 :: u64) = take_bit 4 (sz + 15) AND NOT (mask 4)" by simp
    also have "\<dots> = 0" by (rule bit_word_eqI) (auto simp: bit_and_iff bit_not_iff bit_mask_iff bit_take_bit_iff)
    finally show ?thesis by (simp add: algebra_simps)
  qed
  then have "ALIGN_UP_HEAP sz = 0" by (simp add: ALIGN_UP_HEAP_def kernel_consts)
  moreover have "sz \<noteq> 0" using assms(3) by auto
  ultimately have km: "kmalloc sz s = kmalloc_search sz 16 s"
    by (simp add: kmalloc_def Let_def header_sz_16 kernel_consts)
  have lay: "layout_ok s (X @ (b, True) # M)" using assms(1) by (simp add: heap_ok_def)
  have big: "16 \<le> snd b" using layout_ok_block(1) [OF lay] by (simp add: fits_def word_le_nat_alt)
  obtain t where t: "take_block 0 (fst b) 16 s = (fst b + 16, t)" "heap_ok t (X @ taken 16 b @ M)"
    using take_block_ok [OF assms(1) big] assms(2) by auto
  have "seg (mem s) (free_list_head s) (b # free_blocks M) 0"
    using assms(1,2) by (simp add: heap_ok_def)
  then have "find_fit (mem s) 0 (free_list_head s) 16 = Some (Some (0, fst b))"
    using find_fit_seg [of "mem s" "free_list_head s" "b # free_blocks M" 0 16]
      heap_ok_nonnull [OF assms(1)] assms(2) big by auto
  with t show ?thesis by (simp add: km kmalloc_search.simps [of sz 16 s])
qed

theorem kmalloc_huge_request_succeeds_witness:
  "\<exists>t. kmalloc 0xFFFFFFFFFFFFFFFF example_heap = Done 0x1010 t
    \<and> heap_ok t [((0x1000, 16), False), ((0x1010, 0xFF0), True)]"
  using kmalloc_huge_request_succeeds [of example_heap "[]" "(0x1000, 0x1000)" "[]" "0xFFFFFFFFFFFFFFFF"]
    example_heap_ok by (simp add: taken_def)

end
