(* ===== verification/Heap_Pages.thy ===== *)
theory Heap_Pages
  imports Heap Paging
begin

text \<open>
  The pages behind the heap. The page tables and the allocator of page frames only write to the
  frames of the pool, through the direct map. The loop of \<open>heap_grow_pages\<close> maps its pages to
  distinct, fresh frames and nothing else; with enough free frames it reaches its end.
\<close>

section \<open>What is written\<close>

text \<open>The bytes outside of a set of addresses are the same; the bytes of the pool and of a range.\<close>

definition same_outside :: "u64 set \<Rightarrow> memory \<Rightarrow> memory \<Rightarrow> bool" where
  "same_outside D m m' \<longleftrightarrow> (\<forall>x. x \<notin> D \<longrightarrow> m' x = m x)"

definition direct_map :: "u64 \<Rightarrow> 'z pmm_scheme \<Rightarrow> u64 set" where
  "direct_map h s = {x. \<exists>P. (P = 0 \<or> (\<exists>i. frame_of s i P)) \<and> x - (P + h) < PAGE_SIZE}"

definition bytes_between :: "nat \<Rightarrow> nat \<Rightarrow> u64 set" where
  "bytes_between lo hi = {x. lo \<le> unat x \<and> unat x < hi}"

lemma same_outside_refl [simp]: "same_outside D m m"
  by (simp add: same_outside_def)

lemma same_outside_trans [trans]: "same_outside D m m' \<Longrightarrow> same_outside D m' m'' \<Longrightarrow> same_outside D m m''"
  by (simp add: same_outside_def)

lemma same_outside_mono: "same_outside D m m' \<Longrightarrow> D \<subseteq> D' \<Longrightarrow> same_outside D' m m'"
  by (auto simp: same_outside_def)

lemma direct_map_same: "page_mappings t = page_mappings s \<Longrightarrow> direct_map h t = direct_map h s"
  using frame_of_same [of t s] by (simp add: direct_map_def)

lemma fill_outside:
  assumes "P = 0 \<or> frame_of s i P"
  shows "same_outside (direct_map h s) m (filled (P + h) 0 PAGE_SIZE m)"
  using assms by (auto simp: same_outside_def direct_map_def filled_def)

lemma entry_outside:
  assumes "frame_of s i T" and "k < 512"
  shows "same_outside (direct_map h s) m (write64 m (T + h + 8 * k) v)"
  unfolding same_outside_def
proof (intro allI impI store_le_outside)
  fix x assume x: "x \<notin> direct_map h s"
  have k: "unat (8 * k) = 8 * unat k" "unat k < 512"
    using assms(2) by (simp_all add: unat_word_ariths word_less_nat_alt)
  show "8 \<le> unat (x - (T + h + 8 * k))"
  proof (rule ccontr)
    assume near: "\<not> ?thesis"
    have "unat (x - (T + h)) = unat (8 * k + (x - (T + h + 8 * k)))" by (rule arg_cong) simp
    also have "\<dots> = 8 * unat k + unat (x - (T + h + 8 * k))"
      using near k by (subst unat_word_ariths) simp
    finally have "x - (T + h) < PAGE_SIZE"
      using near k(2) by (simp add: word_less_nat_alt PAGE_SIZE_def)
    with x assms(1) show False by (auto simp: direct_map_def)
  qed
qed

lemma used_frame: "T \<in> used_frames s \<Longrightarrow> \<exists>i. frame_of s i T"
  by (auto simp: used_frames_def)

lemma pp_alloc_outside:
  assumes "pool_ok s" and "hhdm_response s = Some h" and "pp_alloc s = Done p t"
  shows "same_outside (direct_map h s) (mem s) (mem t)"
proof -
  note frames = pp_alloc_frames [OF assms(1,3)]
  then have "frame_of t = frame_of s" by (auto simp: pmm_frame_def intro: frame_of_same)
  then obtain i where "p = 0 \<or> frame_of s i p" using frames used_frame [of p t] by auto
  from fill_outside [OF this] show ?thesis using frames assms(2) by auto
qed

section \<open>Page tables\<close>

text \<open>One level of a walk, the three levels, and a whole call of \<open>map_page\<close>.\<close>

lemma get_or_allocate_outside:
  fixes s :: "'z vmm_scheme"
  assumes inv: "vm_inv h R s" and p: "valid_path (p @ [k])" "table_at (entries (mem s) h) R p = Some T"
    and run: "get_or_allocate_next_level (T + h) k fl s = Done v t"
  shows "same_outside (direct_map h s) (mem s) (mem t)"
proof (cases "present (table_get (mem s) (T + h) k)")
  case True
  with run show ?thesis by (auto simp: get_or_allocate_next_level_def bindO_Done_iff)
next
  case False
  have vp: "valid_path p" "k < 512" using p(1) by (simp_all add: valid_path_snoc)
  have h: "hhdm_response s = Some h" and pool: "pool_ok s"
    and "tables (entries (mem s) h) R \<subseteq> used_frames s" using inv by (simp_all add: vm_inv_def)
  then obtain i where i: "frame_of s i T" using tables_mem [OF vp(1) p(2)] used_frame by blast
  have run': "allocate_next_level (T + h) k fl s = Done v t"
    using run False by (simp add: get_or_allocate_next_level_def)
  then obtain P s1 where alloc: "pp_alloc s = Done P s1" by (auto simp: allocate_next_level_def bindO_Done_iff)
  note frames = pp_alloc_frames [OF pool alloc] and out = pp_alloc_outside [OF pool h alloc]
  show ?thesis
  proof (cases "P = 0")
    case True
    then show ?thesis using run' alloc out by (auto simp: allocate_next_level_def)
  next
    case False
    have h1: "hhdm_response s1 = Some h" and maps: "page_mappings s1 = page_mappings s"
      using frames h by (auto simp: pmm_frame_def)
    obtain j where j: "frame_of s j P"
      using frames False used_frame [of P s1] frame_of_same [OF maps] by auto
    obtain e where "mem t = filled (P + h) 0 PAGE_SIZE (write64 (mem s1) (T + h + 8 * k) e)"
      using run' alloc h1 False by (auto simp: allocate_next_level_def table_set_def Let_def)
    then show ?thesis
      using out entry_outside [OF i vp(2), of h "mem s1" e]
        fill_outside [OF disjI2 [OF j], of h "write64 (mem s1) (T + h + 8 * k) e"]
      by (auto intro: same_outside_trans)
  qed
qed

definition table_step :: "u64 \<Rightarrow> u64 \<Rightarrow> 'z pmm_scheme \<Rightarrow> 'z pmm_scheme \<Rightarrow> bool" where
  "table_step h R s t \<longleftrightarrow> vm_inv h R t \<and> page_mappings t = page_mappings s
     \<and> same_outside (direct_map h s) (mem s) (mem t)"

lemma table_step_trans [trans]: "table_step h R s t \<Longrightarrow> table_step h R t u \<Longrightarrow> table_step h R s u"
  using direct_map_same [of t s h] by (auto simp: table_step_def intro: same_outside_trans)

lemma level_step:
  fixes s :: "'z vmm_scheme"
  assumes "vm_inv h R s" and "valid_path (p @ [k])" and "table_at (entries (mem s) h) R p = Some T"
    and "fl AND PTE_ADDR_MASK = 0" and "present fl"
    and "get_or_allocate_next_level (T + h) k fl s = Done v t"
  shows "table_step h R s t
    \<and> (v \<noteq> 0 \<longrightarrow> (\<exists>U. v = U + h \<and> table_at (entries (mem t) h) R (p @ [k]) = Some U))"
  using get_or_allocate_step [OF assms] get_or_allocate_outside [OF assms(1,2,3,6)]
    get_or_allocate_mappings [OF assms(6)] by (auto simp: table_step_def)

lemma map_levels_step:
  fixes s :: "'z vmm_scheme"
  assumes inv: "vm_inv h R s" and root: "top_level pm = R + h"
    and flags: "fl AND PTE_ADDR_MASK = 0" "present fl" and run: "map_levels pm v fl s = Done pt t"
  shows "table_step h R s t"
proof -
  have vp: "valid_path ([] @ [pml4_index v])" "valid_path ([pml4_index v] @ [pdpt_index v])"
      "valid_path ([pml4_index v, pdpt_index v] @ [pd_index v])"
    by (simp_all add: valid_path_def)
  obtain a s1 where r1: "get_or_allocate_next_level (R + h) (pml4_index v) fl s = Done a s1"
    and k1: "(if a = 0 then Done 0 s1 else
       bindO (get_or_allocate_next_level a (pdpt_index v) fl s1) (\<lambda>pd s.
       if pd = 0 then Done 0 s else get_or_allocate_next_level pd (pd_index v) fl s)) = Done pt t"
    using run by (auto simp only: map_levels_def root elim!: bindO_DoneE)
  note 1 = level_step [OF inv vp(1) _ flags r1, simplified]
  show ?thesis
  proof (cases "a = 0")
    case True
    then show ?thesis using 1 k1 by simp
  next
    case False
    then obtain T1 where T1: "a = T1 + h" "table_at (entries (mem s1) h) R [pml4_index v] = Some T1"
      using 1 by auto
    obtain b s2 where r2: "get_or_allocate_next_level (T1 + h) (pdpt_index v) fl s1 = Done b s2"
      and k2: "(if b = 0 then Done 0 s2 else get_or_allocate_next_level b (pd_index v) fl s2) = Done pt t"
      using k1 False by (auto simp only: if_False T1(1) elim!: bindO_DoneE)
    have "vm_inv h R s1" using 1 by (simp add: table_step_def)
    note 2 = level_step [OF this vp(2) T1(2) flags r2, simplified]
    have step2: "table_step h R s s2" using 1 2 table_step_trans by blast
    show ?thesis
    proof (cases "b = 0")
      case True
      then show ?thesis using step2 k2 by simp
    next
      case False
      then obtain T2 where T2: "b = T2 + h"
          "table_at (entries (mem s2) h) R [pml4_index v, pdpt_index v] = Some T2"
        using 2 by auto
      have r3: "get_or_allocate_next_level (T2 + h) (pd_index v) fl s2 = Done pt t"
        using k2 False by (simp only: if_False T2(1))
      have "vm_inv h R s2" using step2 by (simp add: table_step_def)
      from level_step [OF this vp(3) T2(2) flags r3] step2 show ?thesis
        using table_step_trans by blast
    qed
  qed
qed


lemma map_page_step:
  fixes s :: "'z vmm_scheme"
  assumes inv: "vm_inv h R s" and root: "top_level pm = R + h"
    and run: "map_page pm virt phys flags s = Done ok t"
  shows "table_step h R s t"
proof -
  define v where "v = virt AND NOT (PAGE_SIZE - 1)"
  obtain pt s1 where pt: "map_levels pm v (map_alloc_flags flags) s = Done pt s1"
    and mem: "mem t = (if pt = 0 then mem s1 else
      write64 (mem s1) (pt + 8 * pt_index v) ((phys AND NOT (PAGE_SIZE - 1)) OR flags OR PTE_PRESENT))"
    using run
    by (auto simp: map_page_levels Let_def v_def bindO_Done_iff invlpg_def table_set_def split: if_splits)
  have step: "table_step h R s s1"
    by (rule map_levels_step [OF inv root map_alloc_flags_ok pt])
  have "same_outside (direct_map h s1) (mem s1) (mem t)"
  proof (cases "pt = 0")
    case True
    then show ?thesis by (simp add: mem)
  next
    case False
    then obtain T where T: "pt = T + h" "table_at (entries (mem s1) h) R (table_path v) = Some T"
      using map_levels_Done [OF inv root map_alloc_flags_ok pt] by auto
    obtain i where "frame_of s1 i T"
      using step tables_mem [OF table_path_valid(1) T(2)] used_frame [of T s1]
      by (auto simp: table_step_def vm_inv_def)
    from entry_outside [OF this index_less(4) [of v]] show ?thesis using False by (simp add: mem T(1))
  qed
  then show ?thesis
    using step map_page_mappings [OF run] map_page_Done [OF inv root run] direct_map_same [of s1 s h]
    by (auto simp: table_step_def intro: same_outside_trans)
qed

lemma next_level_pagemap:
  fixes s :: "'z vmm_scheme"
  assumes "get_or_allocate_next_level table index flags s = Done a t"
  shows "kernel_pagemap t = kernel_pagemap s"
  using assms
  by (auto simp: get_or_allocate_next_level_def allocate_next_level_def table_set_def get_hhdm_def emit_def
      Let_def outcome_simps dest: pp_alloc_vmm_more split: if_splits option.splits)

lemma map_page_pagemap:
  fixes s :: "'z vmm_scheme"
  assumes "map_page pm virt phys flags s = Done b t"
  shows "kernel_pagemap t = kernel_pagemap s"
  using assms
  by (auto simp: map_page_def table_set_def invlpg_def emit_def Let_def outcome_simps
      dest!: next_level_pagemap split: if_splits)

section \<open>Mapping the pages of a region\<close>

text \<open>
  The state of the memory managers on which the heap rests. \<open>backed\<close>: the address is in a page
  that is mapped to a frame in use, writable and not executable.
\<close>

definition heap_page_flags :: u64 where
  "heap_page_flags = PTE_PRESENT OR PTE_WRITABLE OR PTE_NX"

definition backed :: "u64 \<Rightarrow> u64 \<Rightarrow> 'z pmm_scheme \<Rightarrow> u64 \<Rightarrow> bool" where
  "backed h R s x \<longleftrightarrow> (\<exists>P \<in> used_frames s. page_entry h R s x = Some (P OR heap_page_flags))"

lemma used_frames_mono:
  "page_mappings t = page_mappings s \<Longrightarrow> pages_in_use s \<subseteq> pages_in_use t \<Longrightarrow> used_frames s \<subseteq> used_frames t"
  using frame_of_same [of t s] by (auto simp: used_frames_def)

lemma frame_aligned: "P mod PAGE_SIZE = 0 \<Longrightarrow> P AND NOT (PAGE_SIZE - 1) = P" for P :: u64
proof (rule bit_word_eqI)
  fix n
  assume "P mod PAGE_SIZE = 0"
  then have "take_bit 12 P = 0" by (simp add: take_bit_eq_mod PAGE_SIZE_def)
  then have "\<not> bit P n" if "n < 12" using that by (metis bit_take_bit_iff bit_0_eq bot_apply bot_bool_def)
  then show "bit (P AND NOT (PAGE_SIZE - 1)) n = bit P n" by (auto simp: page_align_bits intro: leI)
qed

text \<open>
  The pages of a list of indices are mapped to distinct frames that were not in use; nothing else
  is remapped, and a page that was backed stays so.
\<close>

definition pages_mapped ::
  "u64 \<Rightarrow> u64 \<Rightarrow> u64 \<Rightarrow> nat list \<Rightarrow> u64 list \<Rightarrow> 'z pmm_scheme \<Rightarrow> 'z pmm_scheme \<Rightarrow> bool" where
  "pages_mapped h R base is ps s t \<longleftrightarrow> length ps = length is \<and> distinct ps \<and> set ps \<inter> used_frames s = {}
     \<and> set ps \<subseteq> used_frames t \<and> (\<forall>x.
       (\<exists>k < length is. same_page x (base + of_nat (is ! k) * PAGE_SIZE)
         \<and> page_entry h R t x = Some (ps ! k OR heap_page_flags)) \<or>
       (\<forall>k < length is. \<not> same_page x (base + of_nat (is ! k) * PAGE_SIZE))
         \<and> page_entry h R t x = page_entry h R s x)"

lemma pages_mapped_Cons:
  assumes rest: "pages_mapped h R base is ps u t" and frames: "insert P (used_frames s) \<subseteq> used_frames u"
    and P: "P \<notin> used_frames s" and mono: "used_frames u \<subseteq> used_frames t"
    and entry: "\<And>x. page_entry h R u x = (if same_page x (base + of_nat i * PAGE_SIZE)
      then Some (P OR heap_page_flags) else page_entry h R s x)"
  shows "pages_mapped h R base (i # is) (P # ps) s t"
proof -
  have "(\<exists>k < length (i # is). same_page x (base + of_nat ((i # is) ! k) * PAGE_SIZE)
         \<and> page_entry h R t x = Some ((P # ps) ! k OR heap_page_flags)) \<or>
       (\<forall>k < length (i # is). \<not> same_page x (base + of_nat ((i # is) ! k) * PAGE_SIZE))
         \<and> page_entry h R t x = page_entry h R s x" for x
  proof -
    consider (later) k where "k < length is" "same_page x (base + of_nat (is ! k) * PAGE_SIZE)"
        "page_entry h R t x = Some (ps ! k OR heap_page_flags)"
      | (none) "\<forall>k < length is. \<not> same_page x (base + of_nat (is ! k) * PAGE_SIZE)"
        "page_entry h R t x = page_entry h R u x"
      using rest unfolding pages_mapped_def by blast
    then show ?thesis
    proof cases
      case later
      then show ?thesis by (intro disjI1 exI [of _ "Suc k"]) simp
    next
      case none
      show ?thesis
      proof (cases "same_page x (base + of_nat i * PAGE_SIZE)")
        case True
        then show ?thesis using none(2) entry [of x] by (intro disjI1 exI [of _ 0]) simp
      next
        case False
        then have "\<forall>k < length (i # is). \<not> same_page x (base + of_nat ((i # is) ! k) * PAGE_SIZE)"
          using none(1) by (simp add: All_less_Suc2)
        then show ?thesis using none(2) entry [of x] False by simp
      qed
    qed
  qed
  moreover have "P \<notin> set ps" "set ps \<inter> used_frames s = {}" "P \<in> used_frames t"
    using rest frames P mono by (auto simp: pages_mapped_def)
  ultimately show ?thesis using rest P by (simp add: pages_mapped_def)
qed

lemma pages_mapped_backed:
  assumes "pages_mapped h R base is ps s t" and "backed h R s x" and "used_frames s \<subseteq> used_frames t"
  shows "backed h R t x"
proof -
  obtain P where P: "P \<in> used_frames s" "page_entry h R s x = Some (P OR heap_page_flags)"
    using assms(2) by (auto simp: backed_def)
  consider k where "k < length is" "page_entry h R t x = Some (ps ! k OR heap_page_flags)"
    | "page_entry h R t x = page_entry h R s x"
    using assms(1) unfolding pages_mapped_def by blast
  then show ?thesis
  proof cases
    case 1
    then have "ps ! k \<in> used_frames t" using assms(1) by (auto simp: pages_mapped_def)
    with 1 show ?thesis by (auto simp: backed_def)
  next
    case 2
    with P assms(3) show ?thesis by (auto simp: backed_def)
  qed
qed


lemma pages_mapped_here:
  assumes "pages_mapped h R base is ps s t" and "k < length is"
    and "same_page x (base + of_nat (is ! k) * PAGE_SIZE)"
  shows "backed h R t x"
proof -
  obtain j where "j < length is" "page_entry h R t x = Some (ps ! j OR heap_page_flags)"
    using assms unfolding pages_mapped_def by blast
  moreover have "ps ! j \<in> used_frames t"
    using assms(1) calculation(1) by (auto simp: pages_mapped_def)
  ultimately show ?thesis by (auto simp: backed_def)
qed

text \<open>What the loop of \<open>heap_grow_pages\<close> does, whether it reaches its end or not.\<close>

definition heap_vm :: "u64 \<Rightarrow> u64 \<Rightarrow> 'z vmm_scheme \<Rightarrow> bool" where
  "heap_vm h R s \<longleftrightarrow> vm_inv h R s \<and> kernel_pagemap s = Some \<lparr>top_level = R + h\<rparr>"

definition heap_vm_step :: "u64 \<Rightarrow> u64 \<Rightarrow> 'z vmm_scheme \<Rightarrow> 'z vmm_scheme \<Rightarrow> bool" where
  "heap_vm_step h R s t \<longleftrightarrow> heap_vm h R t \<and> page_mappings t = page_mappings s
     \<and> same_outside (direct_map h s) (mem s) (mem t) \<and> vmm.more t = vmm.more s
     \<and> pages_in_use s \<subseteq> pages_in_use t \<and> (\<forall>x. backed h R s x \<longrightarrow> backed h R t x)"

lemma heap_vm_step_trans [trans]:
  "heap_vm_step h R s t \<Longrightarrow> heap_vm_step h R t u \<Longrightarrow> heap_vm_step h R s u"
  using direct_map_same [of t s h] by (auto simp: heap_vm_step_def intro: same_outside_trans)

lemma pp_alloc_step:
  fixes s :: "'z vmm_scheme"
  assumes vm: "heap_vm h R s" and run: "pp_alloc s = Done p t"
  shows "heap_vm_step h R s t \<and> same_pages_mapped h R s t"
proof -
  have inv: "vm_inv h R s" and h: "hhdm_response s = Some h" and pool: "pool_ok s"
    and tabs: "tables (entries (mem s) h) R \<subseteq> used_frames s"
    using vm by (simp_all add: heap_vm_def vm_inv_def)
  note frames = pp_alloc_frames [OF pool run]
  have t: "hhdm_response t = Some h" "pool_ok t" and maps: "page_mappings t = page_mappings s"
    using frames h pool pool_ok_frame [of s t] by (auto simp: pmm_frame_def)
  have sub: "used_frames s \<subseteq> used_frames t" using frames by simp
  have "entries (mem t) h T k = entries (mem s) h T k"
    if T: "T \<in> tables (entries (mem s) h) R" "k < 512" for T k
    using frames h tabs T vm_inv_table [OF inv T(1)] entries_fill [of p T k h "mem s"] entries_fill [of 0 T k h "mem s"]
    by (cases "p = 0") auto
  from vm_inv_same_tables [OF inv t sub this] have keep: "vm_inv h R t" "same_pages_mapped h R s t" by simp_all
  have "backed h R t x" if "backed h R s x" for x
    using that sub keep(2) by (auto simp: backed_def same_pages_mapped_def)
  then show ?thesis
    using keep vm maps pp_alloc_outside [OF pool h run] pp_alloc_vmm_more [OF run] pp_alloc_in_use [OF run]
    by (simp add: heap_vm_step_def heap_vm_def)
qed

lemma map_heap_pages_Done:
  fixes s :: "'z heap_scheme"
  assumes "heap_vm h R s" and "map_heap_pages base is s = Done ok t"
  shows "heap_vm_step h R s t \<and> (ok \<longrightarrow> (\<exists>ps. pages_mapped h R base is ps s t)
    \<and> card (pages_in_use s) + length is \<le> card (pages_in_use t))"
  using assms
proof (induction "is" arbitrary: s)
  case Nil
  then have "ok" "t = s" by simp_all
  moreover have "pages_mapped h R base [] [] s s" by (simp add: pages_mapped_def)
  ultimately show ?case using Nil.prems(1) by (auto simp: heap_vm_step_def)
next
  case (Cons i "is")
  from Cons.prems obtain P s1 where alloc: "pp_alloc s = Done P s1" by (auto simp: bindO_Done_iff)
  note step1 = pp_alloc_step [OF Cons.prems(1) alloc]
  have vm1: "heap_vm h R s1" using step1 by (simp add: heap_vm_step_def)
  show ?case
  proof (cases "P = 0")
    case True
    then obtain e where "t = emit e s1" "\<not> ok" using Cons.prems(2) alloc by auto
    moreover have "heap_vm_step h R s (emit e s1)"
      using step1 by (simp add: heap_vm_step_def heap_vm_def backed_def used_frames_def pages_in_use_def
        frame_of_same [of "emit e s1" s1]) (simp add: emit_def)
    ultimately show ?thesis by simp
  next
    case False
    let ?v = "base + of_nat i * PAGE_SIZE"
    obtain u where map: "map_page \<lparr>top_level = R + h\<rparr> ?v P heap_page_flags s1 = Done True u"
      and rest: "map_heap_pages base is u = Done ok t"
      using Cons.prems(2) alloc False vm1
      by (auto simp: heap_vm_def heap_page_flags_def bindO_Done_iff split: if_splits)
    have inv1: "vm_inv h R s1" using vm1 by (simp add: heap_vm_def)
    have pool: "pool_ok s" using Cons.prems(1) by (simp add: heap_vm_def vm_inv_def)
    have fresh: "P \<notin> used_frames s" "P \<in> used_frames s1" "P mod PAGE_SIZE = 0"
      using pp_alloc_frames [OF pool alloc] False by simp_all
    have flags: "(P AND NOT (PAGE_SIZE - 1)) OR heap_page_flags OR PTE_PRESENT = P OR heap_page_flags"
      using frame_aligned [OF fresh(3)] by (simp add: heap_page_flags_def kernel_consts or.assoc)
    have entry: "page_entry h R u x = (if same_page x ?v then Some (P OR heap_page_flags) else page_entry h R s x)" for x
      using map_page_Done [OF inv1 _ map] step1 flags by (simp add: same_pages_mapped_def)
    have step2: "table_step h R s1 u" by (rule map_page_step [OF inv1 _ map]) simp
    have sub: "used_frames s1 \<subseteq> used_frames u"
      using step2 map_page_in_use [OF map] by (intro used_frames_mono) (simp_all add: table_step_def)
    have "backed h R u x" if "backed h R s1 x" for x
      using that sub fresh entry [of x] step1 by (auto simp: backed_def same_pages_mapped_def)
    then have su: "heap_vm_step h R s u"
      using step2 vm1 map_page_in_use [OF map] map_page_more [OF map] map_page_pagemap [OF map]
      by (intro heap_vm_step_trans [OF conjunct1 [OF step1]])
        (simp add: heap_vm_step_def heap_vm_def table_step_def)
    have ut: "heap_vm_step h R u t" and IH: "ok \<longrightarrow> (\<exists>ps. pages_mapped h R base is ps u t)
        \<and> card (pages_in_use u) + length is \<le> card (pages_in_use t)"
      using Cons.IH [OF _ rest] su by (simp_all add: heap_vm_step_def)
    have "pages_in_use s \<subset> pages_in_use u"
      using pp_alloc_in_use [OF alloc] False map_page_in_use [OF map] by auto
    then have more: "card (pages_in_use s) < card (pages_in_use u)" by (intro psubset_card_mono) simp_all
    have mono: "used_frames u \<subseteq> used_frames t" "used_frames s \<subseteq> used_frames u"
      using ut su by (simp_all add: heap_vm_step_def used_frames_mono)
    have "pages_mapped h R base (i # is) (P # ps) s t" if "pages_mapped h R base is ps u t" for ps
      by (rule pages_mapped_Cons [OF that _ _ mono(1) entry]) (use fresh mono sub in auto)
    then show ?thesis using IH more heap_vm_step_trans [OF su ut] by auto
  qed
qed


section \<open>Enough frames\<close>

text \<open>
  Enough page frames for the boot: the next \<open>n\<close> pages after the last one used are free, and they
  belong to the first entry of the mapping table, below the kernel.
\<close>

definition plenty :: "u64 \<Rightarrow> nat \<Rightarrow> 'z pmm_scheme \<Rightarrow> bool" where
  "plenty h n s \<longleftrightarrow> hhdm_response s = Some h \<and> (\<exists>k m ms. k_addr_response s = Some k
     \<and> page_mappings s = m # ms \<and> last_used_mapping s = 0 \<and> page_start_index m \<le> last_page_used s
     \<and> unat (last_page_used s) + n < unat (page_end_index m)
     \<and> unat (last_page_used s) + n < unat (physical_base k div PAGE_SIZE)
     \<and> unat (last_page_used s) + n < unat MAX_PAGES
     \<and> (\<forall>i. last_page_used s < i \<longrightarrow> unat i \<le> unat (last_page_used s) + n \<longrightarrow> \<not> page_used (page_bitmap s) i))"

definition frames_nonnull :: "u64 \<Rightarrow> 'z pmm_scheme \<Rightarrow> bool" where
  "frames_nonnull h s \<longleftrightarrow> (\<forall>i P. frame_of s i P \<longrightarrow> P + h \<noteq> 0)"

lemma plenty_mono: "plenty h n s \<Longrightarrow> k \<le> n \<Longrightarrow> plenty h k s"
  unfolding plenty_def by (elim exE conjE, intro conjI exI) auto

lemma plenty_cong:
  "hhdm_response t = hhdm_response s \<Longrightarrow> k_addr_response t = k_addr_response s \<Longrightarrow>
    page_mappings t = page_mappings s \<Longrightarrow> last_used_mapping t = last_used_mapping s \<Longrightarrow>
    last_page_used t = last_page_used s \<Longrightarrow> page_bitmap t = page_bitmap s \<Longrightarrow> plenty h n t = plenty h n s"
  by (simp add: plenty_def)

lemma frames_nonnull_same: "page_mappings t = page_mappings s \<Longrightarrow> frames_nonnull h t = frames_nonnull h s"
  using frame_of_same [of t s] by (simp add: frames_nonnull_def)

lemma pp_alloc_plenty:
  assumes pool: "pool_ok s" and pl: "plenty h (Suc n) s"
  shows "\<exists>p t i. pp_alloc s = Done p t \<and> p \<noteq> 0 \<and> frame_of s i p \<and> plenty h n t"
proof -
  obtain k m ms where k: "k_addr_response s = Some k" and m: "page_mappings s = m # ms"
    and pos: "last_used_mapping s = 0" "page_start_index m \<le> last_page_used s"
    and up: "unat (last_page_used s) + Suc n < unat (page_end_index m)"
      "unat (last_page_used s) + Suc n < unat (physical_base k div PAGE_SIZE)"
      "unat (last_page_used s) + Suc n < unat MAX_PAGES"
    and free: "\<And>i. last_page_used s < i \<Longrightarrow> unat i \<le> unat (last_page_used s) + Suc n \<Longrightarrow>
      \<not> page_used (page_bitmap s) i" and h: "hhdm_response s = Some h"
    using pl by (auto simp: plenty_def)
  define l where "l = last_page_used s + 1"
  have ul: "unat l = unat (last_page_used s) + 1"
    using up(3) by (simp add: l_def unat_word_ariths MAX_PAGES_def)
  have lt: "last_page_used s < l" "l < MAX_PAGES" "l < page_end_index m" "page_start_index m < l"
    "\<not> MAX_PAGES \<le> last_page_used s" "\<not> physical_base k div PAGE_SIZE \<le> last_page_used s"
    using ul up pos(2) by (simp_all add: word_less_nat_alt word_le_nat_alt)
  have "unat (physical_base k div PAGE_SIZE) \<le> unat (physical_base k)" by (simp add: unat_div)
  then have below: "l < physical_base k" using up(2) ul by (simp add: word_less_nat_alt)
  have notused: "\<not> page_used (page_bitmap s) l" by (rule free [OF lt(1)]) (simp add: ul)
  obtain p where p: "page_hit l m = Some p" using lt by (simp add: page_hit_def)
  then have fr: "frame_of s l p" by (auto simp: frame_of_def m)
  let ?t = "s\<lparr>page_bitmap := (page_bitmap s)(l div 8 := page_bitmap s (l div 8) OR 2 ^ unat (l mod 8)),
    last_page_used := l, free_pages := free_pages s - 1, used_pages := used_pages s + 1,
    mem := filled (p + h) 0 PAGE_SIZE (mem s)\<rparr>"
  have run: "pp_alloc s = Done p ?t"
    using pp_alloc_run [OF k h l_def lt(6,5) below lt(2) notused pos(1)] p m by simp
  have "\<not> page_used ((page_bitmap s)(l div 8 := page_bitmap s (l div 8) OR 2 ^ unat (l mod 8))) i"
    if i: "l < i" "unat i \<le> unat l + n" for i
    using free [of i] i lt(1) ul unfolding page_used_set by auto
  then have "plenty h n ?t"
    using h k m pos up ul lt(4) by (simp add: plenty_def)
  then show ?thesis using run fr frame_of_page [OF pool fr] by blast
qed

lemma next_level_plenty:
  fixes s :: "'z vmm_scheme"
  assumes inv: "vm_inv h R s" and p: "valid_path (p @ [k])" "table_at (entries (mem s) h) R p = Some T"
    and flags: "fl AND PTE_ADDR_MASK = 0" "present fl"
    and pl: "plenty h (Suc n) s" and nn: "frames_nonnull h s"
  shows "\<exists>v t. get_or_allocate_next_level (T + h) k fl s = Done v t \<and> v \<noteq> 0 \<and> plenty h n t \<and> frames_nonnull h t"
proof (cases "present (table_get (mem s) (T + h) k)")
  case True
  have h: "hhdm_response s = Some h" using inv by (simp add: vm_inv_def)
  let ?U = "PTE_GET_ADDR (table_get (mem s) (T + h) k)"
  have "table_at (entries (mem s) h) R (p @ [k]) = Some ?U"
    using True p(2) by (simp add: table_at_snoc entries_def)
  from tables_mem [OF p(1) this] inv obtain i where "frame_of s i ?U"
    using used_frame [of "PTE_GET_ADDR (table_get (mem s) (T + h) k)" s] by (auto simp: vm_inv_def)
  then have "?U + h \<noteq> 0" using nn by (auto simp: frames_nonnull_def)
  then show ?thesis using True h plenty_mono [OF pl, of n] nn by (simp add: get_or_allocate_next_level_def)
next
  case False
  have pool: "pool_ok s" using inv by (simp add: vm_inv_def)
  obtain P s1 i where P: "pp_alloc s = Done P s1" "P \<noteq> 0" "frame_of s i P" "plenty h n s1"
    using pp_alloc_plenty [OF pool pl] by blast
  have h1: "hhdm_response s1 = Some h" using P(4) by (simp add: plenty_def)
  have maps: "page_mappings s1 = page_mappings s"
    using pp_alloc_frames [OF pool P(1)] by (simp add: pmm_frame_def)
  have "P + h \<noteq> 0" using P(3) nn by (auto simp: frames_nonnull_def)
  moreover have "plenty h n (s1\<lparr>mem := m\<rparr>) = plenty h n s1" for m by (rule plenty_cong) simp_all
  moreover have "frames_nonnull h (s1\<lparr>mem := m\<rparr>)" for m
    using nn frames_nonnull_same [of "s1\<lparr>mem := m\<rparr>" s h] maps by simp
  ultimately show ?thesis
    using False P h1 by (simp add: get_or_allocate_next_level_def allocate_next_level_def table_set_def Let_def)
qed

lemma map_page_plenty:
  fixes s :: "'z vmm_scheme"
  assumes inv: "vm_inv h R s" and root: "top_level pm = R + h" and pl: "plenty h (n + 3) s"
    and nn: "frames_nonnull h s"
  shows "\<exists>t. map_page pm virt phys flags s = Done True t \<and> plenty h n t \<and> frames_nonnull h t"
proof -
  define v where "v = virt AND NOT (PAGE_SIZE - 1)"
  let ?fl = "map_alloc_flags flags"
  have vp: "valid_path ([] @ [pml4_index v])" "valid_path ([pml4_index v] @ [pdpt_index v])"
      "valid_path ([pml4_index v, pdpt_index v] @ [pd_index v])"
    by (simp_all add: valid_path_def)
  have pl3: "plenty h (Suc (Suc (Suc n))) s" using pl by (simp add: eval_nat_numeral)
  have 0: "table_at (entries (mem s) h) R [] = Some R" by simp
  obtain a s1 where a: "get_or_allocate_next_level (R + h) (pml4_index v) ?fl s = Done a s1" "a \<noteq> 0"
      "plenty h (Suc (Suc n)) s1" "frames_nonnull h s1"
    using next_level_plenty [OF inv vp(1) 0 map_alloc_flags_ok pl3 nn] by blast
  note 1 = level_step [OF inv vp(1) 0 map_alloc_flags_ok a(1)]
  then obtain T1 where T1: "a = T1 + h" "table_at (entries (mem s1) h) R ([] @ [pml4_index v]) = Some T1"
    and inv1: "vm_inv h R s1" using a(2) by (auto simp: table_step_def)
  note T1' = T1(2) [unfolded append_Nil]
  obtain b s2 where b: "get_or_allocate_next_level (T1 + h) (pdpt_index v) ?fl s1 = Done b s2" "b \<noteq> 0"
      "plenty h (Suc n) s2" "frames_nonnull h s2"
    using next_level_plenty [OF inv1 vp(2) T1' map_alloc_flags_ok a(3,4)] by blast
  note 2 = level_step [OF inv1 vp(2) T1' map_alloc_flags_ok b(1)]
  then obtain T2 where T2: "b = T2 + h"
      "table_at (entries (mem s2) h) R ([pml4_index v] @ [pdpt_index v]) = Some T2"
    and inv2: "vm_inv h R s2" using b(2) by (auto simp: table_step_def)
  note T2' = T2(2) [unfolded append_Cons append_Nil]
  obtain c s3 where c: "get_or_allocate_next_level (T2 + h) (pd_index v) ?fl s2 = Done c s3" "c \<noteq> 0"
      "plenty h n s3" "frames_nonnull h s3"
    using next_level_plenty [OF inv2 vp(3) T2' map_alloc_flags_ok b(3,4)] by blast
  have lev: "map_levels pm v ?fl s = Done c s3"
    using a(1,2) b(1,2) c(1) T1(1) T2(1) by (simp add: map_levels_def root)
  have "plenty h n (invlpg w (table_set x y z s3)) = plenty h n s3" for w x y z
    by (rule plenty_cong) (simp_all add: invlpg_def table_set_def)
  moreover have "frames_nonnull h (invlpg w (table_set x y z s3)) = frames_nonnull h s3" for w x y z
    by (rule frames_nonnull_same) (simp add: invlpg_def table_set_def)
  ultimately show ?thesis using lev c(2-4) by (simp add: map_page_levels Let_def v_def)
qed

lemma map_heap_pages_plenty:
  fixes s :: "'z heap_scheme"
  shows "heap_vm h R s \<Longrightarrow> plenty h (4 * length is) s \<Longrightarrow> frames_nonnull h s \<Longrightarrow>
    \<exists>t. map_heap_pages base is s = Done True t"
proof (induction "is" arbitrary: s)
  case (Cons i "is")
  have pool: "pool_ok s" using Cons.prems(1) by (simp add: heap_vm_def vm_inv_def)
  have "plenty h (Suc (4 * length is + 3)) s" using Cons.prems(2) by (simp add: eval_nat_numeral)
  from pp_alloc_plenty [OF pool this] obtain P s1 where P: "pp_alloc s = Done P s1" "P \<noteq> 0"
      "plenty h (4 * length is + 3) s1" by blast
  have step: "heap_vm_step h R s s1" using pp_alloc_step [OF Cons.prems(1) P(1)] by simp
  then have vm1: "vm_inv h R s1" "kernel_pagemap s1 = Some \<lparr>top_level = R + h\<rparr>" "frames_nonnull h s1"
    using frames_nonnull_same [of s1 s h] Cons.prems(3) by (simp_all add: heap_vm_step_def heap_vm_def)
  have "top_level \<lparr>top_level = R + h\<rparr> = R + h" by simp
  from map_page_plenty [OF vm1(1) this P(3) vm1(3)] obtain u where
    u: "map_page \<lparr>top_level = R + h\<rparr> (base + of_nat i * PAGE_SIZE) P (PTE_PRESENT OR PTE_WRITABLE OR PTE_NX) s1
        = Done True u" "plenty h (4 * length is) u" "frames_nonnull h u"
    by blast
  have "heap_vm h R u"
    using map_page_step [OF vm1(1) _ u(1)] map_page_pagemap [OF u(1)] vm1(2)
    by (simp add: heap_vm_def table_step_def)
  from Cons.IH [OF this u(2,3)] show ?case using P u(1) vm1(2) by auto
qed simp

end
