(* ===== verification/Heap_Growth.thy ===== *)
theory Heap_Growth
  imports Heap_Layout Heap_Pages
begin

text \<open>
  Growth of the heap. The operations on the list of free blocks only write to the region of the
  heap, so the invariants of the page tables and of the blocks are kept by each other's
  operations. On top of that \<open>heap_grow_pages\<close> appends a block of fresh, mapped pages, and
  \<open>kmalloc\<close> and \<open>kfree\<close> keep the joint invariant, also when \<open>kmalloc\<close> has to grow the heap first.
\<close>

section \<open>Adding the region to the list\<close>

text \<open>The heap keeps its hands off everything outside of its region, and conversely.\<close>

abbreviation region :: "'z heap_scheme \<Rightarrow> u64 set" where
  "region s \<equiv> bytes_between (unat (heap_start s)) (heap_end s)"

definition header_in :: "nat \<Rightarrow> nat \<Rightarrow> u64 \<Rightarrow> bool" where
  "header_in lo hi a \<longleftrightarrow> lo \<le> unat a \<and> unat a + 16 \<le> hi \<and> hi \<le> 2 ^ 64 - 16"

lemma write_in_region:
  assumes "lo \<le> unat a" and "unat a + 8 \<le> hi" and "hi \<le> 2 ^ 64"
  shows "same_outside (bytes_between lo hi) m (write64 m a v)"
  unfolding same_outside_def
proof (intro allI impI store_le_outside)
  fix x assume "x \<notin> bytes_between lo hi"
  then have "unat x < lo \<or> hi \<le> unat x" by (auto simp: bytes_between_def)
  then show "8 \<le> unat (x - a)" using assms by (auto simp: word_diff_cases)
qed

lemma header_writes:
  assumes "header_in lo hi a"
  shows "same_outside (bytes_between lo hi) m (write64 m a v)"
    and "same_outside (bytes_between lo hi) m (write64 m (a + 8) v)"
proof -
  have "unat (a + 8) = unat a + 8" using assms by (simp add: header_in_def unat_word_ariths)
  then show "same_outside (bytes_between lo hi) m (write64 m a v)"
    and "same_outside (bytes_between lo hi) m (write64 m (a + 8) v)"
    using assms by (auto simp: header_in_def intro!: write_in_region)
qed

lemma header_writes_after:
  assumes "header_in lo hi a" and "same_outside (bytes_between lo hi) m m'"
  shows "same_outside (bytes_between lo hi) m (write64 m' a v)"
    and "same_outside (bytes_between lo hi) m (write64 m' (a + 8) v)"
  using header_writes [OF assms(1), of m' v] assms(2) by (blast intro: same_outside_trans)+

text \<open>The fields of the memory managers; the operations on the list change none of them.\<close>

definition same_managers :: "'z heap_scheme \<Rightarrow> 'z heap_scheme \<Rightarrow> bool" where
  "same_managers s t \<longleftrightarrow> t = s\<lparr>mem := mem t, heap_size := heap_size t, free_list_head := free_list_head t\<rparr>"

definition region_step :: "nat \<Rightarrow> nat \<Rightarrow> 'z heap_scheme \<Rightarrow> 'z heap_scheme \<Rightarrow> bool" where
  "region_step lo hi s t \<longleftrightarrow> same_managers s t \<and> same_outside (bytes_between lo hi) (mem s) (mem t)"

lemma same_managers_fields:
  assumes "same_managers s t"
  shows "hhdm_response t = hhdm_response s" "page_mappings t = page_mappings s" "page_bitmap t = page_bitmap s"
    "kernel_pagemap t = kernel_pagemap s" "heap_start t = heap_start s" "heap.more t = heap.more s"
  by (subst assms [unfolded same_managers_def], simp)+

lemma same_managers_refl [simp]: "same_managers s s"
  by (simp add: same_managers_def)

lemma same_managers_trans: "same_managers s t \<Longrightarrow> same_managers t u \<Longrightarrow> same_managers s u"
  unfolding same_managers_def by (cases s; cases t; cases u) simp

lemma region_step_refl [simp]: "region_step lo hi s s"
  by (simp add: region_step_def)

lemma region_step_trans [trans]:
  "region_step lo hi s t \<Longrightarrow> region_step lo hi t u \<Longrightarrow> region_step lo hi s u"
  by (auto simp: region_step_def intro: same_managers_trans same_outside_trans)

lemma region_step_fields [simp]:
  "region_step lo hi s (t\<lparr>free_list_head := x\<rparr>) = region_step lo hi s t"
  "region_step lo hi s (t\<lparr>heap_size := y\<rparr>) = region_step lo hi s t"
  unfolding region_step_def same_managers_def by (cases s; cases t; simp)+

lemma region_step_writes:
  assumes "header_in lo hi a" and "region_step lo hi s t"
  shows "region_step lo hi s (set_size a v t)" and "region_step lo hi s (set_next a v t)"
proof -
  have "same_managers s (set_size a v t)" "same_managers s (set_next a v t)"
    using assms(2) unfolding region_step_def same_managers_def
    by (cases s; cases t; simp add: set_size_def set_next_def)+
  then show "region_step lo hi s (set_size a v t)" and "region_step lo hi s (set_next a v t)"
    using assms header_writes_after [OF assms(1)] by (simp_all add: region_step_def)
qed

lemma list_steps:
  assumes "header_in lo hi b" and "prev \<noteq> 0 \<Longrightarrow> header_in lo hi prev"
  shows "region_step lo hi s (link_block prev b s)" and "region_step lo hi s (merge_next b s)"
    and "region_step lo hi s (merge_prev prev b s)" and "region_step lo hi s (unlink_block prev v s)"
  using assms
  by (auto simp: link_block_def merge_next_def merge_prev_def unlink_block_def Let_def intro!: region_step_writes)

lemma take_block_step:
  assumes "header_in lo hi cur" and "prev \<noteq> 0 \<Longrightarrow> header_in lo hi prev"
    and "want + MIN_ALLOC_SIZE \<le> blk_size (mem s) cur \<Longrightarrow> header_in lo hi (cur + want)"
    and "take_block prev cur want s = (p, t)"
  shows "region_step lo hi s t"
  using assms
  by (auto simp: take_block_def unlink_block_def Let_def intro!: region_step_writes split: if_splits)


text \<open>The headers of the blocks of a layout lie in the region.\<close>

lemma layout_header:
  assumes "layout_ok s L" and "b \<in> set (map fst L)" and "unat a + 16 \<le> unat (fst b) + unat (snd b)"
    and "unat (fst b) \<le> unat a"
  shows "header_in (unat (heap_start s)) (heap_end s) a"
  using assms tiles_bounds [of "unat (heap_start s)" "map fst L" "heap_end s" b]
  by (auto simp: layout_ok_def header_in_def)

lemma layout_block_header:
  assumes "layout_ok s L" and "b \<in> set (map fst L)"
  shows "header_in (unat (heap_start s)) (heap_end s) (fst b)"
  using assms tiles_bounds [of "unat (heap_start s)" "map fst L" "heap_end s" b]
  by (intro layout_header [OF assms]) (auto simp: layout_ok_def)

lemma last_free_header:
  assumes "layout_ok s (L @ M)" and "last_addr 0 (free_blocks L) \<noteq> 0"
  shows "header_in (unat (heap_start s)) (heap_end s) (last_addr 0 (free_blocks L))"
proof -
  have ne: "free_blocks L \<noteq> []" using assms(2) by auto
  then have "last (free_blocks L) \<in> set (map fst (L @ M))"
    using layout_blocks [of L] last_in_set [OF ne] by auto
  from layout_block_header [OF assms(1) this] ne show ?thesis by simp
qed

text \<open>A state whose memory only changed outside of the region has the same layout.\<close>

lemma heap_ok_outside:
  assumes ok: "heap_ok s L" and out: "same_outside D (mem s) (mem t)" and D: "region s \<inter> D = {}"
    and t: "heap_start t = heap_start s" "heap_size t = heap_size s" "free_list_head t = free_list_head s"
  shows "heap_ok t L"
proof -
  have same: "hdr (mem t) b = hdr (mem s) b" if "b \<in> other_blocks L" for b
  proof -
    have "layout_ok s L" "b \<in> set (map fst L)"
      using ok that layout_blocks [of L] by (auto simp: heap_ok_def other_blocks_def)
    then have hd: "header_in (unat (heap_start s)) (heap_end s) (fst b)" by (rule layout_block_header)
    have byte: "mem t (fst b + of_nat i) = mem s (fst b + of_nat i)" if "i < 16" for i
    proof -
      have "unat (fst b + of_nat i) = unat (fst b) + i"
        using hd that by (simp add: header_in_def unat_word_ariths unat_of_nat_less)
      then have "fst b + of_nat i \<in> region s" using hd that by (simp add: header_in_def bytes_between_def)
      with D out show ?thesis by (auto simp: same_outside_def)
    qed
    have "read64 (mem t) (fst b) = read64 (mem s) (fst b)"
      by (rule load_le_cong) (simp add: byte)
    moreover have "read64 (mem t) (fst b + 8) = read64 (mem s) (fst b + 8)"
    proof (rule load_le_cong)
      fix i :: nat assume "i < 8"
      then have "8 + i < 16" by simp
      moreover have "fst b + 8 + of_nat i = fst b + of_nat (8 + i)" by simp
      ultimately show "mem t (fst b + 8 + of_nat i) = mem s (fst b + 8 + of_nat i)"
        using byte [of "8 + i"] by (simp only:)
    qed
    ultimately show ?thesis by (simp add: hdr_def)
  qed
  show ?thesis
    using ok seg_hdr [of "free_blocks L" "mem t" "mem s"] same layout_ok_cong [OF t(1,2)]
    by (auto simp: heap_ok_def other_blocks_def t(3))
qed

text \<open>And a change within a region that is not part of the direct map leaves the page tables alone.\<close>

lemma heap_vm_region:
  fixes s t :: "'z heap_scheme"
  assumes vm: "heap_vm h R s" and step: "region_step lo hi s t"
    and D: "bytes_between lo hi \<inter> direct_map h s = {}"
  shows "heap_vm h R t" and "backed h R t = backed h R s" and "frames_left t = frames_left s"
    and "direct_map h t = direct_map h s" and "same_pages_mapped h R s t" and "used_frames t = used_frames s"
proof -
  have out: "same_outside (bytes_between lo hi) (mem s) (mem t)" and "same_managers s t"
    using step by (simp_all add: region_step_def)
  note fields = same_managers_fields [OF this(2)]
  have inv: "vm_inv h R s" and h: "hhdm_response s = Some h" and pool: "pool_ok s"
    and tabs: "tables (entries (mem s) h) R \<subseteq> used_frames s"
    using vm by (simp_all add: heap_vm_def vm_inv_def)
  have used: "used_frames t = used_frames s" "pages_in_use t = pages_in_use s"
    using fields frame_of_same [OF fields(2)] by (simp_all add: used_frames_def pages_in_use_def)
  have same: "entries (mem t) h T k = entries (mem s) h T k"
    if T: "T \<in> tables (entries (mem s) h) R" "k < 512" for T k
    unfolding entries_def table_get_def
  proof (rule load_le_cong)
    fix i :: nat assume i: "i < 8"
    have "unat (8 * k + of_nat i) = 8 * unat k + i" "unat k < 512"
      using i T(2) by (simp_all add: unat_word_ariths word_less_nat_alt unat_of_nat_less)
    moreover have "T + h + 8 * k + of_nat i - (T + h) = 8 * k + of_nat i" by simp
    ultimately have "T + h + 8 * k + of_nat i - (T + h) < PAGE_SIZE"
      using i by (simp add: word_less_nat_alt PAGE_SIZE_def)
    moreover obtain j where "frame_of s j T" using tabs T(1) used_frame by blast
    ultimately have "T + h + 8 * k + of_nat i \<in> direct_map h s" by (auto simp: direct_map_def)
    with D out show "mem t (T + h + 8 * k + of_nat i) = mem s (T + h + 8 * k + of_nat i)"
      by (auto simp: same_outside_def)
  qed
  have keep: "vm_inv h R t" "same_pages_mapped h R s t"
    using vm_inv_same_tables [OF inv _ _ _ same] fields(1) h pool used(1) pool_ok_same [OF fields(2)]
    by simp_all
  then show "heap_vm h R t" using vm fields(4) by (simp add: heap_vm_def)
  show "backed h R t = backed h R s"
    using keep(2) by (simp add: backed_def used(1) same_pages_mapped_def fun_eq_iff)
  show "frames_left t = frames_left s" by (simp add: frames_left_def used(2))
  show "direct_map h t = direct_map h s" by (rule direct_map_same [OF fields(2)])
  show "same_pages_mapped h R s t" "used_frames t = used_frames s" by fact+
qed

section \<open>The new block\<close>

lemma list_ops_size:
  "link_block prev b (s\<lparr>heap_size := x\<rparr>) = (link_block prev b s)\<lparr>heap_size := x\<rparr>"
  "merge_next b (s\<lparr>heap_size := x\<rparr>) = (merge_next b s)\<lparr>heap_size := x\<rparr>"
  "merge_prev prev b (s\<lparr>heap_size := x\<rparr>) = (merge_prev prev b s)\<lparr>heap_size := x\<rparr>"
  by (simp_all add: link_block_def merge_next_def merge_prev_def Let_def set_size_def set_next_def)

lemma add_region_list:
  assumes "find_place (write64 (write64 (mem s) base n) (base + 8) 0) 0 (free_list_head s) base = Some prev"
    and "free_list_head s = 0 \<Longrightarrow> prev = 0"
  shows "add_region base n s = Done True (if free_list_head s = 0
    then link_block 0 base ((set_next base 0 (set_size base n s))\<lparr>heap_size := heap_size s + n\<rparr>)
    else merge_prev prev base (merge_next base (link_block prev base
      ((set_next base 0 (set_size base n s))\<lparr>heap_size := heap_size s + n\<rparr>))))"
proof -
  have twice: "write64 (write64 m a v) a v = write64 m a v" for m a v
    by (rule ext) (simp add: store_le_def)
  define s1 where "s1 = set_next base 0 (set_size base n s)"
  have s1: "mem s1 = write64 (write64 (mem s) base n) (base + 8) 0" "free_list_head s1 = free_list_head s"
    "heap_size s1 = heap_size s" by (simp_all add: s1_def)
  have "same_region s1 (merge_prev prev base (merge_next base (link_block prev base s1)))" by simp
  then have sz: "heap_size (merge_prev prev base (merge_next base (link_block prev base s1))) = heap_size s"
    by (simp add: same_region_def s1(3))
  show ?thesis
  proof (cases "free_list_head s = 0")
    case True
    then show ?thesis by (simp add: add_region_def Let_def link_block_def set_next_def set_size_def twice)
  next
    case False
    then show ?thesis
      using assms(1) sz unfolding add_region_def s1_def [symmetric] Let_def
      by (simp add: s1 list_ops_size)
  qed
qed

text \<open>A block behind the end of the heap extends the layout.\<close>

lemma append_block_ok:
  fixes s :: "'z heap_scheme"
  assumes ok: "heap_ok s L" and base: "base = heap_start s + heap_size s"
    and n: "16 \<le> unat n" "unat n mod 16 = 0" "heap_end s + unat n \<le> 2 ^ 64 - 16"
    and t: "t = (set_next base 0 (set_size base n s))\<lparr>heap_size := heap_size s + n\<rparr>"
  shows "heap_ok t (L @ [((base, n), False)])" and "heap_end t = heap_end s + unat n"
    and "unat base = heap_end s"
proof -
  have lay: "layout_ok s L" using ok by (simp add: heap_ok_def)
  then have he: "heap_end s \<le> 2 ^ 64 - 16" by (simp add: layout_ok_def)
  then show ub: "unat base = heap_end s" by (simp add: base heap_end_def unat_word_ariths)
  show he': "heap_end t = heap_end s + unat n"
    using n(3) by (simp add: t heap_end_def unat_word_ariths)
  have lay': "layout_ok t (L @ [((base, n), False)])"
    using lay n he' ub by (simp add: layout_ok_def tiles_append t)
  note b = layout_ok_block [OF lay']
  have m: "mem t = write64 (write64 (mem s) base n) (base + 8) 0" by (simp add: t)
  have ins: "inside base (base, n)" "inside (base + 8) (base, n)" using inside_header [OF b(1)] by simp_all
  have other: "hdr (mem t) c = hdr (mem s) c" if "c \<in> other_blocks L" for c
    using b(1) b(3) [of c] that ins by (simp add: m hdr_write_other [of _ "(base, n)"])
  have mine: "fst (hdr (mem t) (base, n)) = n"
    using hdr_write_next [OF b(1)] hdr_write_size [OF b(1)] by (simp add: m)
  show "heap_ok t (L @ [((base, n), False)])"
  proof (rule heap_okI [OF lay'])
    have "seg (mem t) (free_list_head s) (free_blocks L) 0"
      using ok seg_hdr [of "free_blocks L" "mem t" "mem s"] other by (simp add: heap_ok_def other_blocks_def)
    then show "seg (mem t) (free_list_head t) (free_blocks (L @ [((base, n), False)])) 0" by (simp add: t)
    show "fst (hdr (mem t) c) = snd c" if "c \<in> used_blocks (L @ [((base, n), False)])" for c
      using that other [of c] mine ok by (auto simp: other_blocks_def heap_ok_def)
  qed
qed

lemma add_region_ok:
  fixes s :: "'z heap_scheme"
  assumes ok: "heap_ok s L" and base: "base = heap_start s + heap_size s"
    and n: "16 \<le> unat n" "unat n mod 16 = 0" "heap_end s + unat n \<le> 2 ^ 64 - 16"
  shows "\<exists>t. add_region base n s = Done True t \<and> heap_ok t (released L (base, n) [])
    \<and> region_step (unat (heap_start s)) (heap_end s + unat n) s t \<and> heap_end t = heap_end s + unat n"
proof -
  define s1 where "s1 = (set_next base 0 (set_size base n s))\<lparr>heap_size := heap_size s + n\<rparr>"
  note app = append_block_ok [OF ok base n s1_def]
  have s1: "mem s1 = write64 (write64 (mem s) base n) (base + 8) 0" "free_list_head s1 = free_list_head s"
    "heap_start s1 = heap_start s" by (simp_all add: s1_def)
  define prev where "prev = last_addr 0 (free_blocks L)"
  have lay: "layout_ok s1 (L @ [((base, n), False)])" using app(1) by (simp add: heap_ok_def)
  let ?lo = "unat (heap_start s)" and ?hi = "heap_end s + unat n"
  have hb: "header_in ?lo ?hi base" using layout_block_header [OF lay, of "(base, n)"] app(2) s1(3) by simp
  have hp: "header_in ?lo ?hi prev" if "prev \<noteq> 0"
    using last_free_header [OF lay] that app(2) s1(3) by (simp add: prev_def)
  have step1: "region_step ?lo ?hi s s1"
    unfolding s1_def region_step_fields by (intro region_step_writes hb region_step_refl)
  have place: "find_place (mem s1) 0 (free_list_head s) base = Some prev"
    using find_place_layout [OF app(1)] by (simp add: s1(2) prev_def)
  have empty: "free_blocks L = []" if "free_list_head s = 0"
    using ok heap_ok_nonnull [OF ok] that by (cases "free_blocks L") (auto simp: heap_ok_def seg_Cons)
  let ?u = "link_block prev base s1"
  have run: "add_region base n s = Done True (if free_list_head s = 0 then link_block 0 base s1
      else merge_prev prev base (merge_next base ?u))"
    unfolding s1_def by (rule add_region_list) (use place empty in \<open>auto simp: s1(1) prev_def\<close>)
  have all: "heap_ok (merge_prev prev base (merge_next base ?u)) (released L (base, n) [])"
    using insert_ok [OF app(1) prev_def] by simp
  have steps: "region_step ?lo ?hi s (merge_prev prev base (merge_next base ?u))"
    using region_step_trans [OF region_step_trans [OF step1 list_steps(1) [OF hb hp]]
      region_step_trans [OF list_steps(2) [OF hb hp] list_steps(3) [OF hb hp]]] .
  show ?thesis
  proof (cases "free_list_head s = 0")
    case True
    note e = empty [OF True]
    have "\<not> (L \<noteq> [] \<and> snd (last L))"
    proof
      assume "L \<noteq> [] \<and> snd (last L)"
      then have "fst (last L) \<in> set (free_blocks L)" by (auto simp: free_blocks_def intro!: imageI)
      then show False by (simp add: e)
    qed
    then have "released L (base, n) [] = L @ [((base, n), True)]" by (auto simp: released_def)
    moreover have "heap_ok (link_block 0 base s1) (L @ [((base, n), True)])"
      using link_ok [OF app(1) refl] by (simp add: e)
    moreover have "region_step ?lo ?hi s (link_block 0 base s1)"
      by (rule region_step_trans [OF step1 list_steps(1) [OF hb]]) simp
    moreover have "same_region s1 (link_block 0 base s1)" by simp
    ultimately show ?thesis using run True app(2) by (simp add: same_region_def heap_end_def)
  next
    case False
    have "same_region s1 (merge_prev prev base (merge_next base ?u))" by simp
    then show ?thesis using run False all steps app(2) by (simp add: same_region_def heap_end_def)
  qed
qed


section \<open>The invariant of the heap and its pages\<close>

text \<open>
  \<open>heap_room\<close>: even when every frame that is left went to the heap, it would neither reach the end
  of the address space nor the direct map of the frames. \<open>heap_inv\<close>: the blocks and the page
  tables are sound, the heap ends at a page boundary, has room, and each of its bytes is backed.
\<close>

definition heap_room :: "u64 \<Rightarrow> 'z heap_scheme \<Rightarrow> bool" where
  "heap_room h s \<longleftrightarrow> heap_end s + 4096 * frames_left s \<le> 2 ^ 64 - 16
     \<and> bytes_between (unat (heap_start s)) (heap_end s + 4096 * frames_left s) \<inter> direct_map h s = {}"

definition heap_inv :: "u64 \<Rightarrow> u64 \<Rightarrow> 'z heap_scheme \<Rightarrow> layout \<Rightarrow> bool" where
  "heap_inv h R s L \<longleftrightarrow> heap_ok s L \<and> heap_vm h R s \<and> heap_end s mod 4096 = 0 \<and> heap_room h s
     \<and> (\<forall>x \<in> region s. backed h R s x)"

lemma bytes_between_mono: "hi \<le> hi' \<Longrightarrow> bytes_between lo hi \<subseteq> bytes_between lo hi'"
  by (auto simp: bytes_between_def)

lemma heap_room_region: "heap_room h s \<Longrightarrow> region s \<inter> direct_map h s = {}"
  unfolding heap_room_def
  using bytes_between_mono [of "heap_end s" "heap_end s + 4096 * frames_left s" "unat (heap_start s)"] by auto

lemma heap_inv_region:
  fixes s t :: "'z heap_scheme"
  assumes inv: "heap_inv h R s L" and step: "region_step (unat (heap_start s)) (heap_end s) s t"
    and reg: "same_region s t" and ok: "heap_ok t L'"
  shows "heap_inv h R t L'"
proof -
  have D: "region s \<inter> direct_map h s = {}" using inv heap_room_region [of h s] by (simp add: heap_inv_def)
  have vm: "heap_vm h R s" using inv by (simp add: heap_inv_def)
  note keep = heap_vm_region [OF vm step D]
  have "heap_end t = heap_end s" "heap_start t = heap_start s"
    using reg by (simp_all add: same_region_def heap_end_def)
  then show ?thesis using inv keep(1-4) ok by (simp add: heap_inv_def heap_room_def)
qed

lemma same_page_of_offset:
  assumes "unat b mod 4096 = 0" and "unat b \<le> unat x" and "unat x - unat b < 4096 * n"
    and "unat b + 4096 * n \<le> 2 ^ 64"
  shows "\<exists>k < n. same_page x (b + of_nat k * PAGE_SIZE)"
proof -
  define k where "k = (unat x - unat b) div 4096"
  have k: "k < n" using assms(3) by (simp add: k_def less_mult_imp_div_less mult.commute)
  have "unat (of_nat k * PAGE_SIZE) = k * 4096" using k assms(4) by (intro unat_mult_page) simp
  moreover have "unat b + k * 4096 < 2 ^ 64" using k assms(4) by simp
  ultimately have w: "unat (b + of_nat k * PAGE_SIZE) = unat b + k * 4096" by (simp add: unat_word_ariths)
  have "unat x div 4096 = (unat b + k * 4096) div 4096"
    using assms(1,2) unfolding k_def by (auto elim!: dvdE simp: mod_eq_0_iff_dvd)
  then have "unat (drop_bit 12 x) = unat (drop_bit 12 (b + of_nat k * PAGE_SIZE))"
    by (simp add: drop_bit_eq_div unat_div w)
  then have eq: "drop_bit 12 x = drop_bit 12 (b + of_nat k * PAGE_SIZE)" by (simp only: word_unat_eq_iff)
  have "bit x i = bit (b + of_nat k * PAGE_SIZE) i" if "12 \<le> i" for i
    using arg_cong [OF eq, of "\<lambda>w. bit w (i - 12)"] that by (simp add: bit_drop_bit_eq)
  then have "same_page x (b + of_nat k * PAGE_SIZE)"
    using bits_cut_eq_iff [of 12 36 x "b + of_nat k * PAGE_SIZE"] by (simp add: same_page_def)
  with k show ?thesis by blast
qed

text \<open>Growing the heap by \<open>n\<close> pages, with the outcome of \<open>map_heap_pages\<close>.\<close>

lemma heap_ok_managers:
  fixes s u :: "'z heap_scheme"
  assumes inv: "heap_inv h R s L" and step: "heap_vm_step h R s u"
  shows "heap_inv h R u L" and "same_region s u" and "direct_map h u = direct_map h s"
    and "frames_left u \<le> frames_left s"
proof -
  have more: "vmm.more u = vmm.more s" and maps: "page_mappings u = page_mappings s"
    and out: "same_outside (direct_map h s) (mem s) (mem u)" and vm: "heap_vm h R u"
    and sub: "pages_in_use s \<subseteq> pages_in_use u" and mapped: "\<And>x. backed h R s x \<Longrightarrow> backed h R u x"
    using step by (simp_all add: heap_vm_step_def)
  have f: "heap_start u = heap_start s" "heap_size u = heap_size s" "free_list_head u = free_list_head s"
    using more by (cases s; cases u; simp)+
  then show reg: "same_region s u" by (simp add: same_region_def)
  show dm: "direct_map h u = direct_map h s" by (rule direct_map_same [OF maps])
  show left: "frames_left u \<le> frames_left s"
    using card_mono [OF _ sub] by (simp add: frames_left_def)
  have he: "heap_end u = heap_end s" by (simp add: heap_end_def f)
  have D: "region s \<inter> direct_map h s = {}" using inv heap_room_region [of h s] by (simp add: heap_inv_def)
  have "heap_ok u L" using inv by (intro heap_ok_outside [OF _ out D f]) (simp add: heap_inv_def)
  moreover have "heap_room h u"
    using inv left bytes_between_mono [of "heap_end s + 4096 * frames_left u" "heap_end s + 4096 * frames_left s"
      "unat (heap_start s)"] by (auto simp: heap_inv_def heap_room_def he f(1) dm)
  ultimately show "heap_inv h R u L" using inv vm mapped by (simp add: heap_inv_def he f(1))
qed

definition grown :: "u64 \<Rightarrow> u64 \<Rightarrow> u64 \<Rightarrow> layout \<Rightarrow> 'z heap_scheme \<Rightarrow> 'z heap_scheme \<Rightarrow> bool" where
  "grown h R n L s t \<longleftrightarrow> heap_inv h R t (released L (heap_start s + heap_size s, n * PAGE_SIZE) [])
     \<and> heap_start t = heap_start s \<and> heap_end t = heap_end s + unat n * 4096
     \<and> (\<exists>ps. pages_mapped h R (heap_start s + heap_size s) [0..<unat n] ps s t)"

lemma grown_region:
  fixes s :: "'z heap_scheme"
  assumes inv: "heap_inv h R s L" and n: "n \<noteq> 0" and b: "b = heap_start s + heap_size s"
    and map: "map_heap_pages b [0..<unat n] s = Done True u"
  shows "\<exists>t. add_region b (n * PAGE_SIZE) u = Done True t \<and> grown h R n L s t"
proof -
  have vm: "heap_vm h R s" using inv by (simp add: heap_inv_def)
  note pages = map_heap_pages_Done [OF vm map]
  note mgr = heap_ok_managers [OF inv conjunct1 [OF pages]]
  obtain ps where ps: "pages_mapped h R b [0..<unat n] ps s u" and
      card: "card (pages_in_use s) + unat n \<le> card (pages_in_use u)" using pages by auto
  have left: "frames_left u + unat n \<le> frames_left s"
    using card pages_in_use_bound [of u] by (simp add: frames_left_def)
  have room: "heap_end s + 4096 * frames_left s \<le> 2 ^ 64 - 16" "heap_end s mod 4096 = 0"
    "bytes_between (unat (heap_start s)) (heap_end s + 4096 * frames_left s) \<inter> direct_map h s = {}"
    using inv by (simp_all add: heap_inv_def heap_room_def)
  have he: "heap_end u = heap_end s" "heap_start u = heap_start s" "heap_size u = heap_size s"
    using mgr(2) by (simp_all add: same_region_def heap_end_def)
  have big: "heap_end s + unat n * 4096 \<le> heap_end s + 4096 * frames_left s" using left by simp
  then have "unat n * 4096 < 2 ^ 64" using room(1) by simp
  then have nb: "unat (n * PAGE_SIZE) = unat n * 4096" by (simp add: unat_word_ariths PAGE_SIZE_def)
  have "0 < unat n" using n by (simp add: unat_gt_0)
  then have pre: "16 \<le> unat (n * PAGE_SIZE)" "unat (n * PAGE_SIZE) mod 16 = 0"
      "heap_end u + unat (n * PAGE_SIZE) \<le> 2 ^ 64 - 16"
    using big room(1) by (auto simp: nb he mod_eq_0_iff_dvd)
  have "heap_ok u L" and vmu: "heap_vm h R u" using mgr(1) by (simp_all add: heap_inv_def)
  from add_region_ok [OF this(1), of b "n * PAGE_SIZE"] pre he b obtain t where
    t: "add_region b (n * PAGE_SIZE) u = Done True t" "heap_ok t (released L (b, n * PAGE_SIZE) [])"
      "region_step (unat (heap_start s)) (heap_end s + unat n * 4096) u t"
      "heap_end t = heap_end s + unat n * 4096"
    by (auto simp: nb)
  have D: "bytes_between (unat (heap_start s)) (heap_end s + unat n * 4096) \<inter> direct_map h u = {}"
    using room(3) bytes_between_mono [OF big, of "unat (heap_start s)"] by (auto simp: mgr(3))
  note keep = heap_vm_region [OF vmu t(3) D]
  have start: "heap_start t = heap_start s"
    using same_managers_fields(5) [of u t] t(3) he by (simp add: region_step_def)
  have ub: "unat b = heap_end s" using room(1) by (simp add: b heap_end_def unat_word_ariths)
  have mapped: "pages_mapped h R b [0..<unat n] ps s t"
    using ps keep(5,6) by (simp add: pages_mapped_def same_pages_mapped_def)
  have "backed h R u x" if x: "x \<in> region t" for x
  proof (cases "x \<in> region s")
    case True
    then show ?thesis using mgr(1) he by (simp add: heap_inv_def)
  next
    case False
    then have "unat b \<le> unat x" "unat x - unat b < 4096 * unat n"
      using x by (auto simp: bytes_between_def start t(4) ub)
    from same_page_of_offset [OF _ this] obtain k where k: "k < unat n" "same_page x (b + of_nat k * PAGE_SIZE)"
      using room(1,2) big by (auto simp: ub mult.commute)
    then show ?thesis using pages_mapped_here [OF ps, of k x] by simp
  qed
  moreover have "heap_room h t"
    using left room(1,3) bytes_between_mono [of "heap_end t + 4096 * frames_left t"
      "heap_end s + 4096 * frames_left s" "unat (heap_start s)"]
    by (auto simp: heap_room_def start keep(3,4) t(4) mgr(3))
  ultimately have "heap_inv h R t (released L (b, n * PAGE_SIZE) [])"
    using t(2,4) keep(1,2) room(2) by (simp add: heap_inv_def)
  then show ?thesis using t start mapped by (auto simp: grown_def b)
qed

lemma heap_grow_pages_Done:
  fixes s :: "'z heap_scheme"
  assumes inv: "heap_inv h R s L" and run: "heap_grow_pages n s = Done ok t"
  shows "if ok then grown h R n L s t else heap_inv h R t L \<and> same_region s t"
proof (cases "n = 0")
  case True
  with run inv show ?thesis by (simp add: heap_grow_pages_def)
next
  case False
  let ?b = "heap_start s + heap_size s"
  obtain r u where map: "map_heap_pages ?b [0..<unat n] s = Done r u"
    and cont: "(if r then add_region ?b (n * PAGE_SIZE) u else Done False u) = Done ok t"
    using run False by (auto simp: heap_grow_pages_def Let_def bindO_Done_iff)
  show ?thesis
  proof (cases r)
    case True
    with grown_region [OF inv False refl] map cont show ?thesis by auto
  next
    case False
    have "heap_vm h R s" using inv by (simp add: heap_inv_def)
    from map_heap_pages_Done [OF this map] have "heap_vm_step h R s u" by blast
    from heap_ok_managers [OF inv this] show ?thesis using cont False by simp
  qed
qed

section \<open>Allocation and release under the invariant\<close>

lemma grow_for_alloc_Done:
  fixes s :: "'z heap_scheme"
  assumes "heap_inv h R s L" and "grow_for_alloc s = Done ok t"
  shows "\<exists>L'. heap_inv h R t L' \<and> used_list L' = used_list L"
proof -
  have grown: "\<exists>L'. heap_inv h R u L' \<and> used_list L' = used_list L"
    if "heap_inv h R s L" "heap_grow_pages n s = Done r u" for n r L and s u :: "'z heap_scheme"
  proof (cases r)
    case True
    have "used_list (released L b []) = used_list L" for b by (simp add: used_list_released)
    then show ?thesis using heap_grow_pages_Done [OF that] True by (auto simp: grown_def)
  next
    case False
    then show ?thesis using heap_grow_pages_Done [OF that] by auto
  qed
  obtain r u where u: "heap_grow_pages 16 s = Done r u"
    and cont: "(if r then Done True u else heap_grow_pages 1 u) = Done ok t"
    using assms(2) by (auto simp: grow_for_alloc_def bindO_Done_iff)
  from grown [OF assms(1) u] obtain M where M: "heap_inv h R u M" "used_list M = used_list L" by blast
  show ?thesis
  proof (cases r)
    case True
    with cont M show ?thesis by auto
  next
    case False
    with cont grown [OF M(1), of 1 ok t] M(2) show ?thesis by auto
  qed
qed

lemma heap_inv_emit: "heap_inv h R s L \<Longrightarrow> heap_inv h R (emit e s) L"
  using heap_ok_managers(1) [of h R s L "emit e s"]
  by (simp add: heap_vm_step_def heap_inv_def heap_vm_def backed_def used_frames_def pages_in_use_def
      frame_of_same [of "emit e s" s]) (simp add: emit_def)

text \<open>An allocated block: the layout with it and, besides it, the same allocated blocks.\<close>

definition allocated :: "layout \<Rightarrow> nat \<Rightarrow> u64 \<Rightarrow> layout \<Rightarrow> bool" where
  "allocated L want p L' \<longleftrightarrow> (\<exists>X b M. L' = X @ (b, False) # M \<and> p = fst b + 16 \<and> want \<le> unat (snd b)
     \<and> used_list L = used_list X @ used_list M)"

lemma allocated_mono: "allocated L n p L' \<Longrightarrow> k \<le> n \<Longrightarrow> allocated L k p L'"
  unfolding allocated_def by (elim exE conjE, intro exI conjI) (assumption | erule order_trans)+

lemma take_block_inv:
  fixes s :: "'z heap_scheme"
  assumes inv: "heap_inv h R s (X @ (b, True) # M)" and want: "want \<le> snd b" "16 \<le> unat want" "unat want mod 16 = 0"
    and run: "take_block (last_addr 0 (free_blocks X)) (fst b) want s = (p, t)"
  shows "\<exists>L'. heap_inv h R t L' \<and> allocated (X @ (b, True) # M) (unat want) p L'"
proof -
  have ok: "heap_ok s (X @ (b, True) # M)" using inv by (simp add: heap_inv_def)
  have t: "p = fst b + 16" "heap_ok t (X @ taken want b @ M)"
    using take_block_ok [OF ok want] run by auto
  have lay: "layout_ok s (X @ (b, True) # M)" using ok by (simp add: heap_ok_def)
  have fit: "fits b" using layout_ok_block(1) [OF lay] .
  have sz: "blk_size (mem s) (fst b) = snd b" using heap_ok_split(2) [OF ok] by (simp add: hdr_def)
  let ?lo = "unat (heap_start s)" and ?hi = "heap_end s"
  have "header_in ?lo ?hi (fst b)" by (rule layout_block_header [OF lay]) simp
  moreover have "header_in ?lo ?hi (last_addr 0 (free_blocks X))" if "last_addr 0 (free_blocks X) \<noteq> 0"
    using last_free_header [OF lay that] .
  moreover have "header_in ?lo ?hi (fst b + want)" if "want + MIN_ALLOC_SIZE \<le> blk_size (mem s) (fst b)"
  proof -
    have "0 < unat (fst b)" using layout_ok_block(2) [OF lay] by (simp add: unat_gt_0)
    then have "unat want + 16 < 2 ^ 64" using fit want(1) by (simp add: fits_def word_le_nat_alt)
    then have "unat want + 16 \<le> unat (snd b)"
      using that by (simp add: sz word_le_nat_alt unat_word_ariths kernel_consts)
    moreover have "unat (fst b + want) = unat (fst b) + unat want"
      using calculation fit by (simp add: fits_def unat_word_ariths)
    ultimately show ?thesis by (intro layout_header [OF lay, of b]) simp_all
  qed
  ultimately have "region_step ?lo ?hi s t" by (rule take_block_step [OF _ _ _ run])
  then have "heap_inv h R t (X @ taken want b @ M)"
    using heap_inv_region [OF inv _ take_block_region [OF run] t(2)] by simp
  moreover have "allocated (X @ (b, True) # M) (unat want) p (X @ taken want b @ M)"
  proof (cases "unat want + 16 \<le> unat (snd b)")
    case True
    then show ?thesis unfolding allocated_def t(1) taken_def
      by (intro exI [of _ X] exI [of _ "(fst b, want)"] exI [of _ "((fst b + want, snd b - want), True) # M"]) simp
  next
    case False
    then show ?thesis using want(1) unfolding allocated_def t(1) taken_def
      by (intro exI [of _ X] exI [of _ b] exI [of _ M]) (simp add: word_le_nat_alt)
  qed
  ultimately show ?thesis by blast
qed

text \<open>The search, with as many growths as it takes.\<close>

lemma kmalloc_search_Done:
  fixes s :: "'z heap_scheme"
  assumes "heap_inv h R s L" and "kmalloc_search sz want s = Done p t"
    and "16 \<le> unat want" and "unat want mod 16 = 0"
  shows "\<exists>L'. heap_inv h R t L' \<and> (p = 0 \<and> used_list L' = used_list L \<or> allocated L (unat want) p L')"
  using assms
proof (induction sz want s arbitrary: L rule: kmalloc_search.induct)
  case (1 sz want s)
  note inv = "1.prems"(1)
  have ok: "heap_ok s L" using inv by (simp add: heap_inv_def)
  have seg: "seg (mem s) (free_list_head s) (free_blocks L) 0" using ok by (simp add: heap_ok_def)
  note fit = find_fit_seg [OF seg heap_ok_nonnull [OF ok], of 0 want]
  show ?case
  proof (cases "dropWhile (\<lambda>b. snd b < want) (free_blocks L)")
    case (Cons b bs)
    then obtain X M where L: "L = X @ (b, True) # M" "free_blocks X = takeWhile (\<lambda>b. snd b < want) (free_blocks L)"
      using free_blocks_split [of L "takeWhile (\<lambda>b. snd b < want) (free_blocks L)" b bs]
      by (metis takeWhile_dropWhile_id)
    have big: "want \<le> snd b" using Cons by (auto simp: dropWhile_eq_Cons_conv)
    have "take_block (last_addr 0 (free_blocks X)) (fst b) want s = (p, t)"
      using "1.prems"(2) fit Cons unfolding kmalloc_search.simps [of sz want s] L(2)
      by (auto split: prod.splits)
    from take_block_inv [OF inv [unfolded L(1)] big "1.prems"(3,4) this] show ?thesis unfolding L(1) by blast
  next
    case Nil
    then have none: "find_fit (mem s) 0 (free_list_head s) want = Some None"
      using fit by (simp only: Nil list.case)
    then obtain ok' u where u: "grow_for_alloc s = Done ok' u"
      and cont: "(if ok' then kmalloc_search sz want u
        else bindO (heap_dump (k_err ''kmalloc: Out of heap memory (requested %lx bytes)'' [Num sz] u))
              (\<lambda>_ s. Done 0 s)) = Done p t"
      using "1.prems"(2) by (auto simp: kmalloc_search.simps [of sz want s] bindO_Done_iff)
    from grow_for_alloc_Done [OF inv u] obtain M where M: "heap_inv h R u M" "used_list M = used_list L" by blast
    show ?thesis
    proof (cases ok')
      case True
      have "\<exists>L'. heap_inv h R t L' \<and> (p = 0 \<and> used_list L' = used_list M \<or> allocated M (unat want) p L')"
        by (rule "1.IH" [OF none refl u True M(1) _ "1.prems"(3,4)]) (use cont True in simp)
      then show ?thesis by (simp add: M(2) allocated_def)
    next
      case False
      then have "p = 0" "\<exists>e. t = emit e u"
        using cont by (auto simp: bindO_Done_iff heap_dump_def split: option.splits)
      then show ?thesis using M heap_inv_emit by blast
    qed
  qed
qed


lemma kfree_inv:
  fixes s :: "'z heap_scheme"
  assumes inv: "heap_inv h R s (L @ (b, False) # M)"
  shows "\<exists>t. kfree (fst b + 16) s = Done () t \<and> heap_inv h R t (released L b M)"
proof -
  have ok: "heap_ok s (L @ (b, False) # M)" using inv by (simp add: heap_inv_def)
  then have lay: "layout_ok s (L @ (b, False) # M)" by (simp add: heap_ok_def)
  obtain t where t: "kfree (fst b + 16) s = Done () t" "heap_ok t (released L b M)" "same_region s t"
    using kfree_Done [OF ok] by blast
  let ?lo = "unat (heap_start s)" and ?hi = "heap_end s" and ?prev = "last_addr 0 (free_blocks L)"
  let ?s = "set_size (fst b) (read64 (mem s) (fst b)) s"
  have hb: "header_in ?lo ?hi (fst b)" by (rule layout_block_header [OF lay]) simp
  have hp: "header_in ?lo ?hi ?prev" if "?prev \<noteq> 0" using last_free_header [OF lay that] .
  have "unat (fst b + 16) = unat (fst b) + 16"
    using layout_ok_block(1) [OF lay] by (simp add: fits_def unat_word_ariths)
  then have "fst b + 16 \<noteq> 0" by auto
  then have "t = merge_prev ?prev (fst b) (merge_next (fst b) (link_block ?prev (fst b) ?s))"
    using t(1) find_place_layout [OF ok] by (auto simp: kfree_def Let_def header_sz_16 split: if_splits)
  moreover have "region_step ?lo ?hi s ?s" by (rule region_step_writes(1) [OF hb region_step_refl])
  ultimately have "region_step ?lo ?hi s t"
    using region_step_trans [OF region_step_trans [OF _ list_steps(1) [OF hb hp]]
      region_step_trans [OF list_steps(2) [OF hb hp] list_steps(3) [OF hb hp]]] by blast
  from heap_inv_region [OF inv this t(3,2)] t(1) show ?thesis by blast
qed

lemma align_up_heap_mod: "unat (ALIGN_UP_HEAP n) mod 16 = 0"
proof -
  have m: "(15 :: u64) = mask 4" by (simp add: mask_eq_exp_minus_1)
  have "take_bit 4 (ALIGN_UP_HEAP n) = 0"
    unfolding ALIGN_UP_HEAP_def HEAP_ALIGNMENT_def
    by (rule bit_word_eqI) (simp add: bit_take_bit_iff bit_and_iff bit_not_iff m bit_mask_iff)
  then have "ALIGN_UP_HEAP n mod 16 = 0" by (simp add: take_bit_eq_mod)
  then have "unat (ALIGN_UP_HEAP n mod 16) = 0" by simp
  then show ?thesis by (simp add: unat_mod)
qed

lemma kmalloc_inv:
  fixes s :: "'z heap_scheme"
  assumes inv: "heap_inv h R s L" and run: "kmalloc sz s = Done p t"
  shows "\<exists>L'. heap_inv h R t L' \<and> (p = 0 \<and> used_list L' = used_list L \<or>
    allocated L (if unat sz + 31 < 2 ^ 64 then request sz else 16) p L')"
proof (cases "sz = 0")
  case True
  with inv run show ?thesis by (auto simp: kmalloc_def)
next
  case sz: False
  show ?thesis
  proof (cases "unat sz + 31 < 2 ^ 64")
    case True
    obtain want where want: "kmalloc sz s = kmalloc_search sz want s" "unat want = request sz"
        "16 \<le> unat want" "unat want mod 16 = 0"
      using kmalloc_want [OF sz True, of s] by (elim exE conjE) (rule that)
    from kmalloc_search_Done [OF inv _ want(3,4)] run want(1,2) True show ?thesis by simp
  next
    case False
    define want where "want = (if ALIGN_UP_HEAP sz + header_sz < MIN_ALLOC_SIZE then MIN_ALLOC_SIZE
      else ALIGN_UP_HEAP sz + header_sz)"
    have km: "kmalloc_search sz want s = Done p t"
      using run sz by (simp add: kmalloc_def Let_def want_def)
    have ge: "16 \<le> unat want" by (auto simp: want_def kernel_consts word_less_nat_alt not_less)
    have "unat (ALIGN_UP_HEAP sz + 16) mod 16 = (unat (ALIGN_UP_HEAP sz) + 16) mod 2 ^ 64 mod 16"
      by (simp add: unat_word_ariths)
    also have "\<dots> = (unat (ALIGN_UP_HEAP sz) + 16) mod 16" by (rule mod_mod_cancel) simp
    also have "\<dots> = 0" using align_up_heap_mod [of sz] by simp
    finally have "unat want mod 16 = 0" by (simp add: want_def header_sz_16 kernel_consts)
    from kmalloc_search_Done [OF inv km ge this] obtain L' where L': "heap_inv h R t L'"
        "p = 0 \<and> used_list L' = used_list L \<or> allocated L (unat want) p L'" by blast
    then show ?thesis using False allocated_mono [OF _ ge] by auto
  qed
qed

end
