(* ===== verification/Heap_Runs.thy ===== *)
theory Heap_Runs
  imports Heap_Growth
begin

text \<open>
  The heap from its set-up on: \<open>setup_heap\<close> makes the first block, and any sequence of allocations
  and releases keeps the live blocks apart and in mapped memory. The properties of this theory
  cover the growth of the heap too.
\<close>

section \<open>The first heap\<close>

text \<open>
  What \<open>setup_heap\<close> relies on: the page tables are set up, no block is free yet, and the heap's
  place, one tebibyte into the direct map, is aligned and beyond the memory there is.
\<close>

definition heap_place :: "u64 \<Rightarrow> u64" where
  "heap_place h = h + 0x10000000000"

definition boot_ready :: "u64 \<Rightarrow> u64 \<Rightarrow> 'z heap_scheme \<Rightarrow> bool" where
  "boot_ready h R s \<longleftrightarrow> heap_vm h R s \<and> free_list_head s = 0 \<and> frames_nonnull h s \<and> plenty h 1024 s
     \<and> 0 < unat (heap_place h) \<and> unat (heap_place h) mod 4096 = 0
     \<and> heap_room h (s\<lparr>heap_start := heap_place h, heap_size := 0\<rparr>)"

lemma empty_heap_inv:
  fixes s :: "'z heap_scheme"
  assumes "boot_ready h R s" and t: "t = s\<lparr>heap_start := heap_place h, heap_size := 0\<rparr>"
  shows "heap_inv h R t []"
proof -
  have ready: "heap_vm h R s" "free_list_head s = 0" "0 < unat (heap_place h)" "unat (heap_place h) mod 4096 = 0"
    "heap_room h t" using assms by (simp_all add: boot_ready_def)
  have "unat (heap_place h) mod 16 = unat (heap_place h) mod 4096 mod 16" by (rule mod_mod_cancel [symmetric]) simp
  then have "unat (heap_place h) mod 16 = 0" using ready(4) by simp
  moreover have "unat (heap_place h) \<le> 2 ^ 64 - 16" using ready(5) by (simp add: heap_room_def heap_end_def t)
  ultimately have "heap_ok t []"
    using ready(2,3) by (simp add: heap_ok_def layout_ok_def heap_end_def t)
  moreover have "heap_vm h R t"
    using ready(1) vm_inv_cong [of t s h R] by (simp add: heap_vm_def t)
  ultimately show ?thesis
    using ready(4,5) by (auto simp: heap_inv_def heap_end_def bytes_between_def t)
qed

lemma rewrite_header:
  assumes ok: "heap_ok s [(b, True)]"
  shows "set_next (fst b) 0 (set_size (fst b) (snd b) (s\<lparr>free_list_head := fst b\<rparr>)) = s"
proof -
  have same: "write64 m a (read64 m a) = m" for m a
  proof
    fix x
    show "write64 m a (read64 m a) x = m x"
    proof (cases "unat (x - a) < 8")
      case True
      have "m (a + of_nat (unat (x - a))) = m x" by simp
      moreover have "bit (ucast (drop_bit (8 * unat (x - a)) (read64 m a)) :: u8) k = bit (m (a + of_nat (unat (x - a)))) k"
        if "k < 8" for k
        using that True by (simp add: bit_ucast_iff bit_drop_bit_eq bit_load_le div_add1_eq)
      ultimately show ?thesis
        using True by (simp add: store_le_def) (rule bit_word_eqI, simp)
    qed (simp add: store_le_def)
  qed
  have "free_list_head s = fst b" "read64 (mem s) (fst b) = snd b" "read64 (mem s) (fst b + 8) = 0"
    using ok by (simp_all add: heap_ok_def seg_Cons hdr_def)
  then show ?thesis using same [of "mem s" "fst b"] same [of "mem s" "fst b + 8"]
    by (simp add: set_next_def set_size_def)
qed

lemma setup_heap_Done:
  fixes s :: "'z heap_scheme"
  assumes ready: "boot_ready h R s"
  shows "\<exists>t. setup_heap s = Done () t \<and> heap_inv h R t [((heap_place h, 0x100000), True)]"
proof -
  define s0 where "s0 = s\<lparr>heap_start := heap_place h, heap_size := 0\<rparr>"
  have inv: "heap_inv h R s0 []" by (rule empty_heap_inv [OF ready s0_def])
  have "heap_vm h R s0" using inv by (simp add: heap_inv_def)
  moreover have "plenty h 1024 s0" "frames_nonnull h s0"
    using ready plenty_cong [of s0 s h] frames_nonnull_same [of s0 s h] by (simp_all add: boot_ready_def s0_def)
  ultimately obtain u where "map_heap_pages (heap_place h) [0..<256] s0 = Done True u"
    using map_heap_pages_plenty [of h R s0 "[0..<256]" "heap_place h"] by auto
  then have map: "map_heap_pages (heap_start s0 + heap_size s0) [0..<unat (256 :: u64)] s0 = Done True u"
    by (simp add: s0_def)
  from grown_region [OF inv _ refl map] obtain t where
    t: "add_region (heap_place h) 0x100000 u = Done True t" "grown h R 256 [] s0 t"
    by (auto simp: s0_def PAGE_SIZE_def)
  have grow: "heap_grow_pages INITIAL_HEAP_PAGES s0 = Done True t"
    using map t(1) by (simp add: heap_grow_pages_def Let_def s0_def kernel_consts)
  have res: "heap_inv h R t [((heap_place h, 0x100000), True)]" "heap_start t = heap_place h"
      "heap_end t = heap_end s0 + 0x100000"
    using t(2) by (simp_all add: grown_def s0_def released_def PAGE_SIZE_def)
  have "unat (heap_size t) = 0x100000" using res(2,3) by (simp add: heap_end_def s0_def)
  then have sz: "heap_size t = 0x100000" by (simp add: word_unat_eq_iff)
  have h: "hhdm_response s = Some h" using ready by (simp add: boot_ready_def heap_vm_def vm_inv_def)
  have "set_next (heap_start t) 0 (set_size (heap_start t) (heap_size t) (t\<lparr>free_list_head := heap_start t\<rparr>)) = t"
    using rewrite_header [of t "(heap_place h, 0x100000)"] res(1,2) sz by (simp add: heap_inv_def)
  then have "setup_heap s = Done () t"
    using grow h by (simp add: setup_heap_def Let_def s0_def heap_place_def)
  with res(1) show ?thesis by blast
qed


section \<open>Sequences of allocations and releases\<close>

text \<open>
  A run of the heap: any allocations, and releases of addresses that are live. \<open>live\<close> maps each
  address that \<open>kmalloc\<close> has returned and that has not been released to the size asked for.
\<close>

inductive heap_run :: "'z heap_scheme \<Rightarrow> 'z heap_scheme \<Rightarrow> (u64 \<rightharpoonup> u64) \<Rightarrow> bool" for s0 where
  start: "heap_run s0 s0 Map.empty"
| alloc: "heap_run s0 s live \<Longrightarrow> kmalloc sz s = Done p t \<Longrightarrow> p \<noteq> 0 \<Longrightarrow> heap_run s0 t (live(p \<mapsto> sz))"
| none: "heap_run s0 s live \<Longrightarrow> kmalloc sz s = Done 0 t \<Longrightarrow> heap_run s0 t live"
| release: "heap_run s0 s live \<Longrightarrow> p \<in> dom live \<Longrightarrow> kfree p s = Done u t \<Longrightarrow> heap_run s0 t (live(p := None))"

definition wanted :: "u64 \<Rightarrow> nat" where
  "wanted sz = (if unat sz + 31 < 2 ^ 64 then request sz else 16)"

text \<open>The live addresses are those of the allocated blocks, each at least as large as asked for.\<close>

definition live_ok :: "(u64 \<rightharpoonup> u64) \<Rightarrow> block list \<Rightarrow> bool" where
  "live_ok live bs \<longleftrightarrow> distinct bs \<and> inj_on fst (set bs) \<and> dom live = (\<lambda>b. fst b + 16) ` set bs
     \<and> (\<forall>b \<in> set bs. \<forall>sz. live (fst b + 16) = Some sz \<longrightarrow> wanted sz \<le> unat (snd b))"

lemma tiles_distinct: "tiles lo bs hi \<Longrightarrow> distinct (map fst bs)"
proof (induction lo bs hi rule: tiles.induct)
  case (2 lo a z bs hi)
  then show ?case using tiles_bounds [of "lo + unat z" bs hi] by fastforce
qed simp

lemma used_list_distinct:
  assumes "heap_ok s L"
  shows "distinct (used_list L)" and "inj_on fst (set (used_list L))"
proof -
  have "tiles (unat (heap_start s)) (map fst L) (heap_end s)"
    using assms by (simp add: heap_ok_def layout_ok_def)
  then have "distinct (map (fst \<circ> fst) L)" using tiles_distinct by fastforce
  then have d: "distinct (map fst (used_list L))"
    using distinct_map_filter [of "fst \<circ> fst" L "Not \<circ> snd"] by (simp add: used_list_def)
  then show "distinct (used_list L)" "inj_on fst (set (used_list L))" by (simp_all add: distinct_map)
qed

lemma used_list_split:
  "b \<in> set (used_list L) \<Longrightarrow> \<exists>X M. L = X @ (b, False) # M"
  using split_list [of "(b, False)" L] by (auto simp: used_list_def)

lemma live_ok_alloc:
  assumes live: "live_ok live (used_list L)" and ok: "heap_ok t L'" and new: "allocated L (wanted sz) p L'"
  shows "live_ok (live(p \<mapsto> sz)) (used_list L')"
proof -
  obtain X b M where L': "L' = X @ (b, False) # M" "p = fst b + 16" "wanted sz \<le> unat (snd b)"
      "used_list L = used_list X @ used_list M" using new by (auto simp: allocated_def)
  note d = used_list_distinct [OF ok]
  have set: "set (used_list L') = insert b (set (used_list L))" by (auto simp: L'(1,4))
  have "b \<notin> set (used_list L)" using d(1) by (auto simp: L'(1,4))
  then have "c \<in> set (used_list L) \<Longrightarrow> fst c \<noteq> fst b" for c using d(2) by (auto simp: set inj_on_def)
  then show ?thesis
    using live L'(2,3) d by (auto simp: live_ok_def set)
qed

lemma live_ok_release:
  assumes live: "live_ok live (used_list (L @ (b, False) # M))"
  shows "live_ok (live(fst b + 16 := None)) (used_list (released L b M))"
proof -
  have d: "distinct (used_list L @ b # used_list M)" "inj_on fst (set (used_list L @ b # used_list M))"
    using live by (auto simp: live_ok_def)
  have nb: "\<forall>c \<in> set (used_list L) \<union> set (used_list M). fst c \<noteq> fst b"
    using d by (auto simp: inj_on_def)
  have nb': "(fst b, z) \<notin> set (used_list L)" "(fst b, z) \<notin> set (used_list M)" for z
    using bspec [OF nb, of "(fst b, z)"] by auto
  let ?U = "set (used_list L) \<union> set (used_list M)" and ?p = "\<lambda>c :: block. fst c + 16"
  have fresh: "?p b \<notin> ?p ` ?U"
  proof
    assume "?p b \<in> ?p ` ?U"
    then obtain c where "c \<in> ?U" "fst b + 16 = fst c + 16" by blast
    with nb show False by (metis add_right_cancel)
  qed
  have "dom (live(fst b + 16 := None)) = dom live - {?p b}" by simp
  also have "dom live = insert (?p b) (?p ` ?U)" using live by (auto simp: live_ok_def)
  also have "insert (?p b) (?p ` ?U) - {?p b} = ?p ` ?U" using fresh by (rule Diff_insert_absorb)
  finally show ?thesis
    using live d nb' by (auto simp: live_ok_def used_list_released inj_on_def)
qed

lemma heap_run_inv:
  fixes s0 :: "'z heap_scheme"
  assumes "heap_run s0 t live" and "heap_inv h R s0 L0" and "used_list L0 = []"
  shows "\<exists>L. heap_inv h R t L \<and> live_ok live (used_list L)"
  using assms(1)
proof induction
  case start
  then show ?case using assms(2,3) by (intro exI [of _ L0]) (simp add: live_ok_def)
next
  case (alloc s live sz p t)
  then obtain L where L: "heap_inv h R s L" "live_ok live (used_list L)" by blast
  from kmalloc_inv [OF L(1) alloc.hyps(2)] alloc.hyps(3) obtain L' where
    L': "heap_inv h R t L'" "allocated L (wanted sz) p L'" by (auto simp: wanted_def)
  have "heap_ok t L'" using L'(1) by (simp add: heap_inv_def)
  from live_ok_alloc [OF L(2) this L'(2)] L'(1) show ?case by blast
next
  case (none s live sz t)
  then obtain L where L: "heap_inv h R s L" "live_ok live (used_list L)" by blast
  from kmalloc_inv [OF L(1) none.hyps(2)] obtain L' where
    L': "heap_inv h R t L'" "used_list L' = used_list L \<or> allocated L (wanted sz) 0 L'"
    by (auto simp: wanted_def)
  have "\<not> allocated L (wanted sz) 0 L'"
  proof
    assume "allocated L (wanted sz) 0 L'"
    then obtain X b M where X: "L' = X @ (b, False) # M" "0 = fst b + 16" unfolding allocated_def by blast
    have "fits b" using L'(1) layout_ok_block(1) [of t X b False M] by (simp add: heap_inv_def heap_ok_def X(1))
    then have "unat (fst b + 16) = unat (fst b) + 16" by (simp add: fits_def unat_word_ariths)
    then show False using X(2) by simp
  qed
  then show ?case using L' L(2) by auto
next
  case (release s live p u t)
  then obtain L where L: "heap_inv h R s L" "live_ok live (used_list L)" by blast
  then obtain b where b: "b \<in> set (used_list L)" "p = fst b + 16"
    using release.hyps(2) by (auto simp: live_ok_def)
  obtain X M where X: "L = X @ (b, False) # M" using used_list_split [OF b(1)] by blast
  from kfree_inv [OF L(1) [unfolded X]] release.hyps(3) have "heap_inv h R t (released X b M)"
    by (simp add: b(2))
  then show ?case using live_ok_release [OF L(2) [unfolded X]] b(2) by blast
qed

text \<open>What this means for the callers.\<close>

lemma live_block:
  assumes inv: "heap_inv h R t L" and live: "live_ok live (used_list L)" and p: "live p = Some sz"
    and sz: "unat sz + 31 < 2 ^ 64"
  shows "\<exists>b \<in> set (used_list L). p = fst b + 16 \<and> unat p = unat (fst b) + 16
    \<and> unat p + unat sz \<le> unat (fst b) + unat (snd b)"
proof -
  obtain b where b: "b \<in> set (used_list L)" "p = fst b + 16"
    using live domI [of live p sz, OF p] by (auto simp: live_ok_def)
  then have "request sz \<le> unat (snd b)" using live p sz by (auto simp: live_ok_def wanted_def)
  moreover have "unat sz \<le> (unat sz + 15) div 16 * 16" by linarith
  ultimately have "unat sz + 16 \<le> unat (snd b)" by (simp add: request_def)
  moreover obtain X M where X: "L = X @ (b, False) # M" using used_list_split [OF b(1)] by blast
  have "fits b" using inv layout_ok_block(1) [of t X b False M] by (simp add: heap_inv_def heap_ok_def X)
  then have "unat (fst b + 16) = unat (fst b) + 16" by (simp add: fits_def unat_word_ariths)
  ultimately show ?thesis using b by auto
qed

lemma live_memory:
  fixes t :: "'z heap_scheme"
  assumes inv: "heap_inv h R t L" and live: "live_ok live (used_list L)" and p: "live p = Some sz"
    and sz: "unat sz + 31 < 2 ^ 64"
  shows "\<forall>x \<in> bytes_between (unat p) (unat p + unat sz). backed h R t x"
    and "\<And>q sz'. live q = Some sz' \<Longrightarrow> q \<noteq> p \<Longrightarrow> unat sz' + 31 < 2 ^ 64 \<Longrightarrow>
      unat p + unat sz \<le> unat q \<or> unat q + unat sz' \<le> unat p"
    and "\<exists>u. kfree p t = Done () u"
proof -
  obtain b where b: "b \<in> set (used_list L)" "p = fst b + 16" "unat p = unat (fst b) + 16"
      "unat p + unat sz \<le> unat (fst b) + unat (snd b)" using live_block [OF inv live p sz] by blast
  obtain X M where X: "L = X @ (b, False) # M" using used_list_split [OF b(1)] by blast
  have lay: "layout_ok t (X @ (b, False) # M)" using inv by (simp add: heap_inv_def heap_ok_def X)
  then have "unat (heap_start t) \<le> unat (fst b)" "unat (fst b) + unat (snd b) \<le> heap_end t"
    using tiles_bounds [of "unat (heap_start t)" "map fst L" "heap_end t" b] by (simp_all add: layout_ok_def X)
  then show "\<forall>x \<in> bytes_between (unat p) (unat p + unat sz). backed h R t x"
    using inv b(3,4) by (auto simp: heap_inv_def bytes_between_def)
  show "unat p + unat sz \<le> unat q \<or> unat q + unat sz' \<le> unat p"
    if q: "live q = Some sz'" "q \<noteq> p" "unat sz' + 31 < 2 ^ 64" for q sz'
  proof -
    obtain c where c: "c \<in> set (used_list L)" "q = fst c + 16" "unat q = unat (fst c) + 16"
        "unat q + unat sz' \<le> unat (fst c) + unat (snd c)" using live_block [OF inv live q(1,3)] by blast
    have "c \<in> other_blocks (X @ M)"
      using c(1,2) q(2) b(2) by (auto simp: X used_list_def other_blocks_def used_blocks_def)
    then have "apart b c" using layout_ok_block(3) [OF lay] by blast
    then show ?thesis using b(3,4) c(3,4) by (auto simp: apart_def)
  qed
  show "\<exists>u. kfree p t = Done () u"
    using kfree_inv [OF inv [unfolded X]] b(2) by blast
qed


section \<open>Properties\<close>

text \<open>
  C11. The first heap: when the page tables are set up, the list of free blocks is empty and the
  next 1024 page frames are free, \<open>setup_heap\<close> returns, and the heap is one free block of 256
  pages at its place, one tebibyte into the direct map. Every page of it is mapped, writable and
  not executable, to a frame in use, and the page tables are sound.
\<close>

theorem setup_heap_makes_one_block:
  assumes "boot_ready h R s"
  shows "\<exists>t. setup_heap s = Done () t \<and> heap_inv h R t [((heap_place h, 0x100000), True)]"
  using assms by (rule setup_heap_Done)

text \<open>
  C10. Growth appends mapped memory: \<open>heap_grow_pages\<close> by \<open>n\<close> pages keeps the invariant of the heap and its
  page tables. When it returns true, the layout has a new free block of \<open>n\<close> pages at the old end,
  merged with a free block before it, and its pages are mapped to distinct frames none of which
  was in use, while every other address is translated as before; when it returns false, the
  layout is the same.
\<close>

theorem heap_growth_maps_fresh_pages:
  fixes s :: "'z heap_scheme"
  assumes "heap_inv h R s L" and "heap_grow_pages n s = Done ok t"
  shows "if ok then heap_inv h R t (released L (heap_start s + heap_size s, n * PAGE_SIZE) [])
      \<and> heap_start t = heap_start s \<and> heap_end t = heap_end s + unat n * 4096
      \<and> (\<exists>ps. pages_mapped h R (heap_start s + heap_size s) [0..<unat n] ps s t)
    else heap_inv h R t L \<and> same_region s t"
  using heap_grow_pages_Done [OF assms] by (cases ok) (simp_all add: grown_def)

text \<open>
  C9. The contract of the heap towards its callers: after any sequence of allocations, with as
  many growths as they take, and releases of live addresses, starting from the heap that
  \<open>setup_heap\<close> made, the bytes of every live block lie in pages that are mapped and writable, no
  two live blocks overlap, and \<open>kfree\<close> of a live address returns. Sizes within 31 bytes of
  \<open>2 ^ 64\<close> are excepted, as the size computation overflows there.
\<close>

theorem live_blocks_never_overlap:
  fixes s :: "'z heap_scheme"
  assumes "boot_ready h R s" and "setup_heap s = Done u s0" and "heap_run s0 t live"
    and "live p = Some sz" and "unat sz + 31 < 2 ^ 64"
  shows "(\<forall>x \<in> bytes_between (unat p) (unat p + unat sz). backed h R t x)
    \<and> (\<forall>q sz'. live q = Some sz' \<and> q \<noteq> p \<and> unat sz' + 31 < 2 ^ 64 \<longrightarrow>
        unat p + unat sz \<le> unat q \<or> unat q + unat sz' \<le> unat p)
    \<and> (\<exists>t'. kfree p t = Done () t')"
proof -
  have "heap_inv h R s0 [((heap_place h, 0x100000), True)]"
    using setup_heap_Done [OF assms(1)] assms(2) by auto
  from heap_run_inv [OF assms(3) this] obtain L where L: "heap_inv h R t L" "live_ok live (used_list L)"
    by auto
  show ?thesis
    using live_memory(1,3) [OF L assms(4,5)] live_memory(2) [OF L assms(4,5)] by blast
qed

section \<open>An example\<close>

text \<open>The machine of \<open>example_vmm\<close> at the time \<open>setup_heap\<close> is called.\<close>

definition boot_machine :: heap where
  "boot_machine = vmm.extend (example_vmm\<lparr>kernel_pagemap := Some \<lparr>top_level = 0xFFFF800000101000\<rparr>\<rparr>)
    (heap.fields 0 0 0)"

lemma boot_machine_sel [simp]:
  "mem boot_machine = (\<lambda>_. 0)" "page_bitmap boot_machine = (\<lambda>_. 0)(0 := 2)" "last_used_mapping boot_machine = 0"
  "last_page_used boot_machine = 2" "hhdm_response boot_machine = Some 0xFFFF800000000000"
  "k_addr_response boot_machine = Some \<lparr>physical_base = 0x7000000, virtual_base = 0xFFFFFFFF80000000\<rparr>"
  "page_mappings boot_machine = page_mappings example_vmm" "free_list_head boot_machine = 0"
  "kernel_pagemap boot_machine = Some \<lparr>top_level = 0xFFFF800000101000\<rparr>"
  by (simp_all add: boot_machine_def example_vmm_def single_chunk_pmm_def example_pool_def example_machine_def
     heap.defs pmm.defs machine.defs vmm.defs)

lemma boot_machine_frame:
  "frame_of boot_machine i p \<Longrightarrow> unat p = 0x100000 + unat i * 0x1000 \<and> unat i < 0x8000"
proof -
  assume "frame_of boot_machine i p"
  then have "frame_of single_chunk_pmm i p" by (simp add: frame_of_def)
  then show ?thesis by (rule single_chunk_frame_nat)
qed

lemma boot_machine_ready: "boot_ready 0xFFFF800000000000 0x101000 boot_machine"
proof -
  let ?h = "0xFFFF800000000000 :: u64"
  have fr: "frame_of boot_machine = frame_of example_vmm" by (simp add: frame_of_def fun_eq_iff)
  have vm: "heap_vm ?h 0x101000 boot_machine"
    using example_vm_inv
    by (simp add: heap_vm_def vm_inv_def pool_ok_def frames_one_to_one_def used_frames_def pages_in_use_def fr)
  have nn: "frames_nonnull ?h boot_machine"
    unfolding frames_nonnull_def
  proof (intro allI impI notI)
    fix i P assume "frame_of boot_machine i P" "P + ?h = 0"
    moreover have "P = - ?h" using calculation(2) by (simp add: eq_neg_iff_add_eq_0)
    ultimately show False using boot_machine_frame [of i P] by auto
  qed
  have bits: "\<not> page_used (page_bitmap boot_machine) i" if "2 < i" for i
  proof (cases "i div 8 = 0")
    case True
    then have "unat (i div 8) = 0" by simp
    then have "unat i div 8 = 0" unfolding unat_div by simp
    then have "unat (i mod 8) = unat i" by (simp add: unat_mod)
    moreover have "2 < unat i" using that by (simp add: word_less_nat_alt)
    ultimately show ?thesis using True by (simp add: page_used_def bit_2_iff)
  qed (simp add: page_used_def)
  have pl: "plenty ?h 1024 boot_machine"
    using bits by (simp add: plenty_def page_mapping.make_def kernel_consts)
  have place: "heap_place ?h = 0xFFFF810000000000" by (simp add: heap_place_def)
  have left: "frames_left (boot_machine\<lparr>heap_start := a, heap_size := b\<rparr>) \<le> 1048576" for a b
    by (simp add: frames_left_def MAX_PAGES_def)
  have out: "x \<notin> direct_map ?h (boot_machine\<lparr>heap_start := a, heap_size := b\<rparr>)"
    if x: "0xFFFF810000000000 \<le> unat x" for x a b
  proof
    assume "x \<in> direct_map ?h (boot_machine\<lparr>heap_start := a, heap_size := b\<rparr>)"
    then obtain P where P: "P = 0 \<or> (\<exists>i. frame_of boot_machine i P)" "x - (P + ?h) < PAGE_SIZE"
      using frame_of_same [of "boot_machine\<lparr>heap_start := a, heap_size := b\<rparr>" boot_machine]
      by (auto simp: direct_map_def)
    have small: "unat P < 0x9000000" using P(1) boot_machine_frame [of _ P] by fastforce
    then have "unat (P + ?h) = unat P + 0xFFFF800000000000" by (simp add: unat_word_ariths)
    with P(2) x small show False
      by (auto simp: word_less_nat_alt PAGE_SIZE_def word_diff_cases split: if_splits)
  qed
  have "heap_room ?h (boot_machine\<lparr>heap_start := heap_place ?h, heap_size := 0\<rparr>)"
    using left [where a = "heap_place ?h" and b = 0] out by (auto simp: heap_room_def heap_end_def place bytes_between_def)
  then show ?thesis using vm nn pl by (simp add: boot_ready_def place)
qed


theorem setup_heap_makes_one_block_witness:
  "\<exists>t. setup_heap boot_machine = Done () t
    \<and> heap_inv 0xFFFF800000000000 0x101000 t [((0xFFFF810000000000, 0x100000), True)]"
  using setup_heap_makes_one_block [OF boot_machine_ready] by (simp add: heap_place_def)

theorem heap_growth_maps_fresh_pages_witness:
  "\<exists>t. heap_grow_pages 1 (boot_machine\<lparr>heap_start := 0xFFFF810000000000, heap_size := 0\<rparr>) = Done True t
    \<and> heap_inv 0xFFFF800000000000 0x101000 t [((0xFFFF810000000000, 0x1000), True)]"
proof -
  let ?s = "boot_machine\<lparr>heap_start := 0xFFFF810000000000, heap_size := 0\<rparr>" and ?h = "0xFFFF800000000000 :: u64"
  have inv: "heap_inv ?h 0x101000 ?s []"
    using empty_heap_inv [OF boot_machine_ready refl] by (simp add: heap_place_def)
  have "plenty ?h 4 ?s" "frames_nonnull ?h ?s"
    using boot_machine_ready plenty_mono [of ?h 1024 boot_machine 4] plenty_cong [of ?s boot_machine ?h 4]
      frames_nonnull_same [of ?s boot_machine ?h] by (simp_all add: boot_ready_def)
  then obtain u where "map_heap_pages 0xFFFF810000000000 [0] ?s = Done True u"
    using map_heap_pages_plenty [of ?h "0x101000" ?s "[0]"] inv by (auto simp: heap_inv_def)
  then have map: "map_heap_pages (heap_start ?s + heap_size ?s) [0..<unat (1 :: u64)] ?s = Done True u" by simp
  from grown_region [OF inv _ refl map] obtain t where
    "add_region 0xFFFF810000000000 0x1000 u = Done True t" by (auto simp: PAGE_SIZE_def)
  with map have t: "heap_grow_pages 1 ?s = Done True t" by (simp add: heap_grow_pages_def Let_def PAGE_SIZE_def)
  with heap_growth_maps_fresh_pages [OF inv t] show ?thesis by (simp add: released_def PAGE_SIZE_def)
qed

theorem live_blocks_never_overlap_witness:
  "\<exists>s t u. setup_heap boot_machine = Done () s \<and> kmalloc 100 s = Done 0xFFFF810000000010 t
    \<and> kmalloc 200 t = Done 0xFFFF810000000090 u
    \<and> (\<forall>x \<in> bytes_between 0xFFFF810000000090 0xFFFF810000000158. backed 0xFFFF800000000000 0x101000 u x)
    \<and> (\<exists>v. kfree 0xFFFF810000000090 u = Done () v)"
proof -
  let ?a = "0xFFFF810000000000 :: u64"
  obtain s where s: "setup_heap boot_machine = Done () s" "heap_ok s [((?a, 0x100000), True)]"
    using setup_heap_Done [OF boot_machine_ready] by (auto simp: heap_place_def heap_inv_def)
  have r: "request 100 = 128" "request 200 = 224" by (simp_all add: request_def)
  obtain X b M t want where A: "[((?a, 0x100000), True)] = X @ (b, True) # M" "unat want = request 100"
      "kmalloc 100 s = Done (fst b + 16) t" "heap_ok t (X @ taken want b @ M)"
    using kmalloc_Done [OF s(2), of 100] r by auto
  have "want = 128" using A(2) by (simp add: r word_unat_eq_iff)
  moreover have "X = []" "b = (?a, 0x100000)" "M = []" using A(1) by (auto simp: Cons_eq_append_conv)
  ultimately have t: "kmalloc 100 s = Done 0xFFFF810000000010 t"
      "heap_ok t [((?a, 128), False), ((0xFFFF810000000080, 0xFFF80), True)]"
    using A(3,4) by (simp_all add: taken_def)
  obtain X' c M' u want' where B:
      "[((?a, 128), False), ((0xFFFF810000000080, 0xFFF80), True)] = X' @ (c, True) # M'" "unat want' = request 200"
      "kmalloc 200 t = Done (fst c + 16) u" "heap_ok u (X' @ taken want' c @ M')"
    using kmalloc_Done [OF t(2), of 200] r by auto
  have "c = (0xFFFF810000000080, 0xFFF80)" using B(1) by (auto simp: Cons_eq_append_conv)
  then have u: "kmalloc 200 t = Done 0xFFFF810000000090 u" using B(3) by simp
  have "heap_run s u (Map.empty(0xFFFF810000000010 \<mapsto> 100, 0xFFFF810000000090 \<mapsto> 200))"
    using heap_run.alloc [OF heap_run.alloc [OF heap_run.start t(1)] u] by simp
  from live_blocks_never_overlap [OF boot_machine_ready s(1) this, of "0xFFFF810000000090" 200]
  show ?thesis using s(1) t(1) u by auto
qed

end
