(* ===== verification/Hardware.thy ===== *)
theory Hardware
  imports Heap
begin

text \<open>
  The hardware the drivers talk to: ports (\<open>platform/x86_64/port.c\<close>), model specific registers
  (\<open>msr.c\<close>), memory mapped device registers, the instructions \<open>cli\<close>, \<open>sti\<close> and \<open>hlt\<close>, the tick
  counters of the two timer interrupts (\<open>interupt/pit_handler.c\<close>, \<open>interupt/apic_timer.c\<close>) and the
  table of initialised components (\<open>util/state.c\<close>).
\<close>

section \<open>State\<close>

text \<open>
  Every access to a device is recorded. What a device answers is a function of the accesses so far:
  \<open>port_value\<close>, \<open>msr_value\<close>, \<open>mmio_value\<close>. \<open>timer_irqs\<close> tells how many interrupts of the PIT and of
  the APIC timer are served while the processor halts. The handlers' own accesses are not part of
  the record of the interrupted code.
\<close>

datatype io_access =
    PortIn u16 u8
  | PortOut u16 u8
  | MsrIn u32 u64
  | MsrOut u32 u64
  | MmioIn u64 u32
  | MmioOut u64 u32
  | Cli
  | Sti
  | Hlt

record devices = heap +
  io :: "io_access list"
  port_value :: "io_access list \<Rightarrow> u16 \<Rightarrow> u8"
  msr_value :: "io_access list \<Rightarrow> u32 \<Rightarrow> u64"
  mmio_value :: "io_access list \<Rightarrow> u64 \<Rightarrow> u32"
  timer_irqs :: "io_access list \<Rightarrow> nat \<times> nat"
  pit_ticks :: u64
  apic_ticks :: u64
  timer_goal_frequency :: u32
  global_state :: "u8 list"

definition access :: "io_access \<Rightarrow> 'z devices_scheme \<Rightarrow> 'z devices_scheme" where
  "access e s = s\<lparr>io := io s @ [e]\<rparr>"

section \<open>Ports and registers\<close>

definition outb :: "u16 \<Rightarrow> u8 \<Rightarrow> 'z devices_scheme \<Rightarrow> 'z devices_scheme" where
  "outb port val = access (PortOut port val)"

definition inb :: "u16 \<Rightarrow> 'z devices_scheme \<Rightarrow> (u8, 'z devices_scheme) outcome" where
  "inb port s = (let v = port_value s (io s) port in Done v (access (PortIn port v) s))"

text \<open>\<open>rdmsr\<close> and \<open>wrmsr\<close> move the value in two halves.\<close>

definition read_msr :: "u32 \<Rightarrow> 'z devices_scheme \<Rightarrow> (u64, 'z devices_scheme) outcome" where
  "read_msr msr s =
     (let v = msr_value s (io s) msr;
          lo = ucast v :: u32;
          hi = ucast (drop_bit 32 v) :: u32
      in Done (push_bit 32 (ucast hi) OR ucast lo) (access (MsrIn msr v) s))"

definition write_msr :: "u32 \<Rightarrow> u64 \<Rightarrow> 'z devices_scheme \<Rightarrow> 'z devices_scheme" where
  "write_msr msr value =
     (let lo = ucast (value AND 0xFFFFFFFF) :: u32;
          hi = ucast (drop_bit 32 value) :: u32
      in access (MsrOut msr (push_bit 32 (ucast hi) OR ucast lo)))"

definition mmio_read :: "u64 \<Rightarrow> 'z devices_scheme \<Rightarrow> (u32, 'z devices_scheme) outcome" where
  "mmio_read a s = (let v = mmio_value s (io s) a in Done v (access (MmioIn a v) s))"

definition mmio_write :: "u64 \<Rightarrow> u32 \<Rightarrow> 'z devices_scheme \<Rightarrow> 'z devices_scheme" where
  "mmio_write a v = access (MmioOut a v)"

section \<open>Timer interrupts\<close>

definition pit_irq :: "'z devices_scheme \<Rightarrow> 'z devices_scheme" where
  "pit_irq s = s\<lparr>pit_ticks := pit_ticks s + 1\<rparr>"

definition get_pit_ticks :: "'z devices_scheme \<Rightarrow> u64" where "get_pit_ticks s = pit_ticks s"

definition reset_pit_ticks :: "'z devices_scheme \<Rightarrow> 'z devices_scheme" where
  "reset_pit_ticks s = s\<lparr>pit_ticks := 0\<rparr>"

definition apic_timer_irq :: "'z devices_scheme \<Rightarrow> 'z devices_scheme" where
  "apic_timer_irq s = s\<lparr>apic_ticks := apic_ticks s + 1\<rparr>"

definition get_apic_ticks :: "'z devices_scheme \<Rightarrow> u64" where "get_apic_ticks s = apic_ticks s"

definition reset_apic_ticks :: "'z devices_scheme \<Rightarrow> 'z devices_scheme" where
  "reset_apic_ticks s = s\<lparr>apic_ticks := 0\<rparr>"

text \<open>The processor halts until interrupts have been served.\<close>

definition hlt :: "'z devices_scheme \<Rightarrow> 'z devices_scheme" where
  "hlt s = (let n = timer_irqs s (io s) in
     (pit_irq ^^ fst n) ((apic_timer_irq ^^ snd n) (access Hlt s)))"

lemma access_fields [simp]:
  "io (access e s) = io s @ [e]" "port_value (access e s) = port_value s"
  "msr_value (access e s) = msr_value s" "mmio_value (access e s) = mmio_value s"
  "timer_irqs (access e s) = timer_irqs s" "pit_ticks (access e s) = pit_ticks s"
  "apic_ticks (access e s) = apic_ticks s" "timer_goal_frequency (access e s) = timer_goal_frequency s"
  "global_state (access e s) = global_state s" "mem (access e s) = mem s" "klog (access e s) = klog s"
  by (simp_all add: access_def)

lemma pit_irq_power: "(pit_irq ^^ n) s = s\<lparr>pit_ticks := pit_ticks s + of_nat n\<rparr>"
  by (induction n) (simp_all add: pit_irq_def add.commute)

lemma apic_timer_irq_power: "(apic_timer_irq ^^ n) s = s\<lparr>apic_ticks := apic_ticks s + of_nat n\<rparr>"
  by (induction n) (simp_all add: apic_timer_irq_def add.commute)

lemma hlt_fields [simp]:
  "io (hlt s) = io s @ [Hlt]" "timer_irqs (hlt s) = timer_irqs s"
  "pit_ticks (hlt s) = pit_ticks s + of_nat (fst (timer_irqs s (io s)))"
  "apic_ticks (hlt s) = apic_ticks s + of_nat (snd (timer_irqs s (io s)))"
  "timer_goal_frequency (hlt s) = timer_goal_frequency s"
  "port_value (hlt s) = port_value s" "mmio_value (hlt s) = mmio_value s" "msr_value (hlt s) = msr_value s"
  "global_state (hlt s) = global_state s" "mem (hlt s) = mem s" "klog (hlt s) = klog s"
  by (simp_all add: hlt_def Let_def pit_irq_power apic_timer_irq_power)

section \<open>The state table\<close>

text \<open>\<open>struct global_state\<close> is written bytewise, by index; outside it, the write is undefined.\<close>

definition FRAMEBUFFER_INITIALIZED :: nat where "FRAMEBUFFER_INITIALIZED = 0"
definition CPUID_SUPPORTED :: nat where "CPUID_SUPPORTED = 1"
definition GDT_INITIALIZED :: nat where "GDT_INITIALIZED = 2"
definition IDT_INITIALIZED :: nat where "IDT_INITIALIZED = 3"
definition PIC_INITIALIZED :: nat where "PIC_INITIALIZED = 4"
definition PIT_INITIALIZED :: nat where "PIT_INITIALIZED = 5"
definition PMM_INITIALIZED :: nat where "PMM_INITIALIZED = 6"
definition VMM_INITIALIZED :: nat where "VMM_INITIALIZED = 7"
definition HEAP_INITIALIZED :: nat where "HEAP_INITIALIZED = 8"
definition APIC_INITIALIZED :: nat where "APIC_INITIALIZED = 9"
definition PIT_TIMER_RUNNING :: nat where "PIT_TIMER_RUNNING = 10"
definition SERIAL_INTERRUPT_INITIALIZED :: nat where "SERIAL_INTERRUPT_INITIALIZED = 11"

lemmas state_indices = FRAMEBUFFER_INITIALIZED_def CPUID_SUPPORTED_def GDT_INITIALIZED_def
  IDT_INITIALIZED_def PIC_INITIALIZED_def PIT_INITIALIZED_def PMM_INITIALIZED_def
  VMM_INITIALIZED_def HEAP_INITIALIZED_def APIC_INITIALIZED_def PIT_TIMER_RUNNING_def
  SERIAL_INTERRUPT_INITIALIZED_def

definition get_global_state :: "'z devices_scheme \<Rightarrow> nat \<Rightarrow> u8" where
  "get_global_state s field = global_state s ! field"

definition set_state :: "nat \<Rightarrow> u8 \<Rightarrow> 'z devices_scheme \<Rightarrow> (unit, 'z devices_scheme) outcome" where
  "set_state index value s =
     (if index < length (global_state s) then Done () (s\<lparr>global_state := (global_state s)[index := value]\<rparr>)
      else Stop (Fault ''write past global_state'') s)"

section \<open>An example machine\<close>

text \<open>Its ports read as 255, and each halt serves one interrupt of either timer.\<close>

definition example_devices :: devices where
  "example_devices =
     heap.extend (vmm.extend (pmm.extend example_pool (vmm.fields None [])) (heap.fields 0 0 0))
       (devices.fields [] (\<lambda>_ _. 255) (\<lambda>_ _. 0) (\<lambda>_ _. 0) (\<lambda>_. (1, 1)) 0 0 1000 (replicate 12 0))"

lemma example_devices_sel [simp]:
  "io example_devices = []" "port_value example_devices = (\<lambda>_ _. 255)"
  "mmio_value example_devices = (\<lambda>_ _. 0)" "timer_irqs example_devices = (\<lambda>_. (1, 1))"
  "pit_ticks example_devices = 0" "apic_ticks example_devices = 0"
  "timer_goal_frequency example_devices = 1000" "global_state example_devices = replicate 12 0"
  by (simp_all add: example_devices_def heap.defs vmm.defs pmm.defs devices.defs)

end
