(* ===== verification/Timers.thy ===== *)
theory Timers
  imports Hardware
begin

text \<open>
  The legacy interrupt controller (\<open>platform/x86_64/pic.c\<close>) and the interval timer (\<open>pit.c\<close>): port
  sequences of their set-up, the divisor of the timer, the speaker, and the waiting loops that
  sleep until enough timer interrupts have been served. A loop that never ends is \<open>Hang\<close>.
\<close>

section \<open>The interrupt controller\<close>

definition PIC1_COMMAND :: u16 where "PIC1_COMMAND = 0x20"
definition PIC1_DATA :: u16 where "PIC1_DATA = 0x21"
definition PIC2_COMMAND :: u16 where "PIC2_COMMAND = 0xA0"
definition PIC2_DATA :: u16 where "PIC2_DATA = 0xA1"

text \<open>A shift by 32 or more is undefined.\<close>

definition unmask_irq :: "u8 \<Rightarrow> 'z devices_scheme \<Rightarrow> (unit, 'z devices_scheme) outcome" where
  "unmask_irq irq s =
     (let (port, irq) = (if irq < 8 then (PIC1_DATA, irq) else (PIC2_DATA, irq - 8)) in
      bindO (inb port s) (\<lambda>value s.
      if 32 \<le> irq then Stop (Fault ''shift too far'') s
      else Done () (outb port (value AND NOT (push_bit (unat irq) 1)) s)))"

definition setup_pic :: "'z devices_scheme \<Rightarrow> 'z devices_scheme" where
  "setup_pic s = fold access
     [Cli, PortOut PIC1_COMMAND 0x11, PortOut PIC2_COMMAND 0x11, PortOut PIC1_DATA 0x20,
      PortOut PIC2_DATA 0x28, PortOut PIC1_DATA 0x04, PortOut PIC2_DATA 0x02, PortOut PIC1_DATA 0x01,
      PortOut PIC2_DATA 0x01, PortOut PIC1_DATA 0xFF, PortOut PIC2_DATA 0xFF, Sti] s"

section \<open>The interval timer\<close>

definition PIT_FREQUENCY :: u32 where "PIT_FREQUENCY = 1193182"
definition PIT_GOAL_FREQUENCY :: u32 where "PIT_GOAL_FREQUENCY = 1000"
definition PIT_CHANNEL0_PORT :: u16 where "PIT_CHANNEL0_PORT = 0x40"
definition PIT_CHANNEL2_PORT :: u16 where "PIT_CHANNEL2_PORT = 0x42"
definition PIT_CONTROL_PORT :: u16 where "PIT_CONTROL_PORT = 0x43"

text \<open>The divisor goes out in two bytes; a frequency of 0 is a division by zero.\<close>

definition set_pit_frequency :: "u32 \<Rightarrow> 'z devices_scheme \<Rightarrow> (unit, 'z devices_scheme) outcome" where
  "set_pit_frequency frequency s =
     (if frequency = 0 then Stop (Fault ''division by zero'') s
      else let divisor = PIT_FREQUENCY div frequency in
        Done () (outb PIT_CHANNEL0_PORT (ucast (drop_bit 8 divisor))
                (outb PIT_CHANNEL0_PORT (ucast (divisor AND 0xFF))
                (outb PIT_CONTROL_PORT 0x36 s))))"

definition set_speaker_frequency :: "u32 \<Rightarrow> 'z devices_scheme \<Rightarrow> (unit, 'z devices_scheme) outcome" where
  "set_speaker_frequency frequency s =
     (if frequency = 0 then Stop (Fault ''division by zero'') s
      else let divisor = PIT_FREQUENCY div frequency in
        Done () (outb PIT_CHANNEL2_PORT (ucast (drop_bit 8 divisor))
                (outb PIT_CHANNEL2_PORT (ucast (divisor AND 0xFF))
                (outb PIT_CONTROL_PORT 0xB6 s))))"

definition play_sound :: "u32 \<Rightarrow> 'z devices_scheme \<Rightarrow> (unit, 'z devices_scheme) outcome" where
  "play_sound frequency s =
     (if frequency = 0 then Done () s
      else bindO (set_speaker_frequency frequency s) (\<lambda>_ s.
           bindO (inb 0x61 s) (\<lambda>tmp s.
           Done () (if tmp AND 3 \<noteq> 3 then outb 0x61 (tmp OR 3) s else s))))"

definition sound_off :: "'z devices_scheme \<Rightarrow> (unit, 'z devices_scheme) outcome" where
  "sound_off s = bindO (inb 0x61 s) (\<lambda>tmp s. Done () (outb 0x61 (tmp AND 0xFC) s))"

section \<open>Sleeping\<close>

text \<open>
  The waiting loop of \<open>pit_sleep_ms\<close> and \<open>apic_sleep_ms\<close>: \<open>ticks\<close> reads the counter, \<open>len\<close> is the
  length of the wait in ticks. When the counter was reset, the wait starts again.
\<close>

partial_function (option) wait_ticks ::
  "('z devices_scheme \<Rightarrow> u64) \<Rightarrow> u64 \<Rightarrow> u64 \<Rightarrow> u64 \<Rightarrow> 'z devices_scheme \<Rightarrow> 'z devices_scheme option" where
  "wait_ticks ticks len start stop s =
     (if ticks s < stop
      then if ticks s < start then wait_ticks ticks len (ticks s) (ticks s + len) (hlt s)
           else wait_ticks ticks len start stop (hlt s)
      else Some s)"

definition finished :: "'s \<Rightarrow> 's option \<Rightarrow> (unit, 's) outcome" where
  "finished s r = (case r of None \<Rightarrow> Stop Hang s | Some t \<Rightarrow> Done () t)"

definition pit_sleep_ms :: "u32 \<Rightarrow> 'z devices_scheme \<Rightarrow> (unit, 'z devices_scheme) outcome" where
  "pit_sleep_ms ms s =
     bindO (set_pit_frequency (timer_goal_frequency s) s) (\<lambda>_ s.
     let len = ucast (ms * timer_goal_frequency s div 1000);
         start_ticks = get_pit_ticks s;
         end_ticks = start_ticks + len - 1
     in finished s (wait_ticks get_pit_ticks len start_ticks end_ticks s))"

definition apic_sleep_ms :: "u32 \<Rightarrow> 'z devices_scheme \<Rightarrow> (unit, 'z devices_scheme) outcome" where
  "apic_sleep_ms ms s =
     (let start_ms = get_apic_ticks s;
          end_ms = start_ms + ucast ms
      in finished s (wait_ticks get_apic_ticks (ucast ms) start_ms end_ms s))"

definition setup_pit :: "'z devices_scheme \<Rightarrow> (unit, 'z devices_scheme) outcome" where
  "setup_pit s =
     (let s = access Cli s;
          s = s\<lparr>timer_goal_frequency := PIT_GOAL_FREQUENCY\<rparr>
      in bindO (set_pit_frequency (timer_goal_frequency s) s) (\<lambda>_ s.
         bindO (unmask_irq 0 s) (\<lambda>_ s.
         Done () (access Sti s))))"

section \<open>Waiting for ticks\<close>

text \<open>
  The contract of a tick counter: it advances by the interrupts of its timer that are served while
  the processor halts. Against it, a wait that some timer interrupt ends is shown to return.
\<close>

locale tick_counter =
  fixes ticks :: "'z devices_scheme \<Rightarrow> u64"
    and irqs :: "'z devices_scheme \<Rightarrow> io_access list \<Rightarrow> nat"
  assumes ticks_hlt: "ticks (hlt s) = ticks s + of_nat (irqs s (io s))"
    and irqs_hlt: "irqs (hlt s) = irqs s"
begin

lemma wait_returns:
  assumes "\<And>tr. 1 \<le> irqs s tr \<and> irqs s tr \<le> K"
    and "start \<le> ticks s" and "unat stop + K < 2 ^ 64"
  shows "\<exists>t. wait_ticks ticks len start stop s = Some t \<and> stop \<le> ticks t
    \<and> (ticks s < stop \<longrightarrow> unat (ticks t) < unat stop + K) \<and> (stop \<le> ticks s \<longrightarrow> t = s)"
  using assms
proof (induction "unat stop - unat (ticks s)" arbitrary: s rule: less_induct)
  case less
  show ?case
  proof (cases "ticks s < stop")
    case False
    then show ?thesis by (subst wait_ticks.simps) (auto simp: not_less)
  next
    case True
    let ?n = "irqs s (io s)"
    have n: "1 \<le> ?n" "?n \<le> K" using less.prems(1) by auto
    have lt: "unat (ticks s) < unat stop" using True by (simp add: word_less_nat_alt)
    have un: "unat (ticks (hlt s)) = unat (ticks s) + ?n"
      using lt n(2) less.prems(3) unfolding ticks_hlt by (subst unat_add_less) (simp_all add: unat_of_nat_less)
    have step: "wait_ticks ticks len start stop s = wait_ticks ticks len start stop (hlt s)"
      using True less.prems(2) by (subst wait_ticks.simps) (auto simp: not_less)
    have "unat stop - unat (ticks (hlt s)) < unat stop - unat (ticks s)" using lt n un by linarith
    moreover have "start \<le> ticks (hlt s)" using less.prems(2) un by (simp add: word_le_nat_alt)
    ultimately have "\<exists>t. wait_ticks ticks len start stop (hlt s) = Some t \<and> stop \<le> ticks t
      \<and> (ticks (hlt s) < stop \<longrightarrow> unat (ticks t) < unat stop + K) \<and> (stop \<le> ticks (hlt s) \<longrightarrow> t = hlt s)"
      using less.prems by (intro less.hyps) (simp_all add: irqs_hlt)
    then show ?thesis
      using True lt n un step by (auto simp: not_less word_le_nat_alt word_less_nat_alt)
  qed
qed

text \<open>Without interrupts, a wait that has not ended already never ends.\<close>

lemma wait_stuck:
  assumes "wait_ticks ticks len start stop s = Some t" and "\<And>tr. irqs s tr = 0" and "start \<le> ticks s"
  shows "stop \<le> ticks s"
proof -
  let ?P = "\<lambda>tk ln st sp s t. tk = ticks \<longrightarrow> (\<forall>tr. irqs s tr = 0) \<longrightarrow> st \<le> ticks s \<longrightarrow> sp \<le> ticks s"
  have "?P ticks len start stop s t"
  proof (rule wait_ticks.raw_induct [where P = ?P, OF _ assms(1)])
    fix wait and tk :: "'z devices_scheme \<Rightarrow> u64" and ln st sp :: u64 and s t :: "'z devices_scheme"
    assume IH: "\<And>tk ln st sp s t. wait tk ln st sp s = Some t \<Longrightarrow> ?P tk ln st sp s t"
      and run: "(if tk s < sp then if tk s < st then wait tk ln (tk s) (tk s + ln) (hlt s)
        else wait tk ln st sp (hlt s) else Some s) = Some t"
    show "?P tk ln st sp s t"
    proof (intro impI, rule ccontr)
      assume tk: "tk = ticks" and idle: "\<forall>tr. irqs s tr = 0" and le: "st \<le> ticks s" and "\<not> sp \<le> ticks s"
      then have "wait tk ln st sp (hlt s) = Some t" using run by (auto simp: not_le not_less split: if_splits)
      then show False using IH [of tk ln st sp "hlt s" t] tk idle le \<open>\<not> sp \<le> ticks s\<close>
        by (simp add: ticks_hlt irqs_hlt)
    qed
  qed
  then show ?thesis using assms(2,3) by blast
qed

end

interpretation pit: tick_counter get_pit_ticks "\<lambda>s tr. fst (timer_irqs s tr)"
  by unfold_locales (simp_all add: get_pit_ticks_def)

interpretation lapic: tick_counter get_apic_ticks "\<lambda>s tr. snd (timer_irqs s tr)"
  by unfold_locales (simp_all add: get_apic_ticks_def)

text \<open>A wait only halts the processor.\<close>

lemma wait_ticks_frame:
  assumes "wait_ticks ticks len start stop s = Some t"
  shows "\<exists>n p a. t = s\<lparr>io := io s @ replicate n Hlt, pit_ticks := p, apic_ticks := a\<rparr>"
  using assms
proof (rule wait_ticks.raw_induct [rotated])
  fix wait and tk :: "'z devices_scheme \<Rightarrow> u64" and ln st sp :: u64 and s t :: "'z devices_scheme"
  assume IH: "\<And>tk ln st sp s t. wait tk ln st sp s = Some t \<Longrightarrow>
      \<exists>n p a. t = s\<lparr>io := io s @ replicate n Hlt, pit_ticks := p, apic_ticks := a\<rparr>"
    and run: "(if tk s < sp then if tk s < st then wait tk ln (tk s) (tk s + ln) (hlt s)
      else wait tk ln st sp (hlt s) else Some s) = Some t"
  have here: "\<exists>n p a. s = s\<lparr>io := io s @ replicate n Hlt, pit_ticks := p, apic_ticks := a\<rparr>"
    by (intro exI [of _ 0] exI [of _ "pit_ticks s"] exI [of _ "apic_ticks s"]) simp
  have halted: "\<exists>n p a. t = s\<lparr>io := io s @ replicate n Hlt, pit_ticks := p, apic_ticks := a\<rparr>"
    if "t = (hlt s)\<lparr>io := io (hlt s) @ replicate n Hlt, pit_ticks := p, apic_ticks := a\<rparr>" for n p a
    by (intro exI [of _ "Suc n"] exI [of _ p] exI [of _ a])
      (simp add: that hlt_def Let_def pit_irq_power apic_timer_irq_power access_def)
  show "\<exists>n p a. t = s\<lparr>io := io s @ replicate n Hlt, pit_ticks := p, apic_ticks := a\<rparr>"
  proof (cases "tk s < sp")
    case True
    then have "(\<exists>st sp. wait tk ln st sp (hlt s) = Some t)" using run by (auto split: if_splits)
    then show ?thesis using IH halted by blast
  qed (use run here in auto)
qed

lemma ms_in_ticks:
  assumes "f = 1000" and "unat ms * 1000 < 2 ^ 32"
  shows "ms * f div 1000 = (ms :: u32)"
proof -
  have "unat (ms * 1000) = unat ms * 1000" using assms(2) by (simp add: unat_mult_lem [THEN iffD1])
  then show ?thesis by (simp add: assms(1) word_arith_nat_div)
qed

lemma pit_sleep_done:
  assumes "timer_goal_frequency s = 1000" and "0 < ms" and "unat ms * 1000 < 2 ^ 32"
    and "\<forall>tr. 1 \<le> fst (timer_irqs s tr) \<and> fst (timer_irqs s tr) \<le> K"
    and "unat (pit_ticks s) + unat ms + K < 2 ^ 64"
  obtains t n p a where "pit_sleep_ms ms s = Done () t"
    and "unat (pit_ticks s) + unat ms - 1 \<le> unat (pit_ticks t)"
    and "unat (pit_ticks t) < unat (pit_ticks s) + unat ms - 1 + K"
    and "t = s\<lparr>io := io s @ [PortOut PIT_CONTROL_PORT 0x36, PortOut PIT_CHANNEL0_PORT 169, PortOut PIT_CHANNEL0_PORT 4]
      @ replicate n Hlt, pit_ticks := p, apic_ticks := a\<rparr>"
proof -
  let ?w = "[PortOut PIT_CONTROL_PORT 0x36, PortOut PIT_CHANNEL0_PORT 169, PortOut PIT_CHANNEL0_PORT 4]"
  let ?s = "s\<lparr>io := io s @ ?w\<rparr>"
  have s': "set_pit_frequency 1000 s = Done () ?s"
    by (simp add: set_pit_frequency_def Let_def outb_def access_def PIT_FREQUENCY_def)
  let ?stop = "pit_ticks s + ucast ms - 1"
  have len: "ms * 1000 div 1000 = ms" using ms_in_ticks [OF refl assms(3)] .
  have ms: "1 \<le> unat ms" using assms(2) by (simp add: word_less_nat_alt)
  have "unat (pit_ticks s + ucast ms) = unat (pit_ticks s) + unat ms"
    using assms(5) by (simp add: unat_add_less)
  moreover from this have "pit_ticks s + ucast ms \<noteq> 0" using ms by (metis add_is_0 not_one_le_zero unat_0)
  ultimately have stop: "unat ?stop = unat (pit_ticks s) + unat ms - 1" by (simp add: unat_minus_one)
  have K: "1 \<le> K" using assms(4) by (meson le_trans)
  have "\<exists>t. wait_ticks get_pit_ticks (ucast ms) (pit_ticks s) ?stop ?s = Some t \<and> ?stop \<le> get_pit_ticks t
    \<and> (get_pit_ticks ?s < ?stop \<longrightarrow> unat (get_pit_ticks t) < unat ?stop + K) \<and> (?stop \<le> get_pit_ticks ?s \<longrightarrow> t = ?s)"
    using assms(4,5) stop by (intro pit.wait_returns) (auto simp: get_pit_ticks_def)
  then obtain t where t: "wait_ticks get_pit_ticks (ucast ms) (pit_ticks s) ?stop ?s = Some t"
    "?stop \<le> pit_ticks t" "pit_ticks s < ?stop \<longrightarrow> unat (pit_ticks t) < unat ?stop + K"
    "?stop \<le> pit_ticks s \<longrightarrow> t = ?s"
    by (auto simp: get_pit_ticks_def)
  obtain n p a where "t = ?s\<lparr>io := io ?s @ replicate n Hlt, pit_ticks := p, apic_ticks := a\<rparr>"
    using wait_ticks_frame [OF t(1)] by blast
  moreover have "pit_sleep_ms ms s = Done () t"
    using t(1) by (simp add: pit_sleep_ms_def assms(1) s' len Let_def get_pit_ticks_def finished_def)
  moreover have "unat (pit_ticks t) < unat (pit_ticks s) + unat ms - 1 + K"
  proof (cases "pit_ticks s < ?stop")
    case True
    then show ?thesis using t(3) stop by simp
  next
    case False
    then have "t = ?s" "unat ?stop \<le> unat (pit_ticks s)" using t(4) by (simp_all add: not_less word_le_nat_alt)
    then show ?thesis using stop K ms by simp
  qed
  ultimately show thesis using t(2) stop by (intro that) (auto simp: word_le_nat_alt)
qed

lemma apic_sleep_done:
  assumes "0 < ms" and "unat (apic_ticks s) + unat ms + K < 2 ^ 64"
    and "\<forall>tr. 1 \<le> snd (timer_irqs s tr) \<and> snd (timer_irqs s tr) \<le> K"
  obtains t n p a where "apic_sleep_ms ms s = Done () t"
    and "unat (apic_ticks s) + unat ms \<le> unat (apic_ticks t)"
    and "unat (apic_ticks t) < unat (apic_ticks s) + unat ms + K"
    and "t = s\<lparr>io := io s @ replicate n Hlt, pit_ticks := p, apic_ticks := a\<rparr>"
proof -
  let ?stop = "apic_ticks s + ucast ms"
  have stop: "unat ?stop = unat (apic_ticks s) + unat ms" using assms(2) by (simp add: unat_add_less)
  have later: "apic_ticks s < ?stop" using stop assms(1) by (simp add: word_less_nat_alt)
  have "\<exists>t. wait_ticks get_apic_ticks (ucast ms) (apic_ticks s) ?stop s = Some t \<and> ?stop \<le> get_apic_ticks t
    \<and> (get_apic_ticks s < ?stop \<longrightarrow> unat (get_apic_ticks t) < unat ?stop + K) \<and> (?stop \<le> get_apic_ticks s \<longrightarrow> t = s)"
    using assms(2,3) stop by (intro lapic.wait_returns) (auto simp: get_apic_ticks_def)
  then obtain t where t: "wait_ticks get_apic_ticks (ucast ms) (apic_ticks s) ?stop s = Some t"
      "?stop \<le> apic_ticks t" "unat (apic_ticks t) < unat ?stop + K"
    using later by (auto simp: get_apic_ticks_def)
  moreover obtain n p a where "t = s\<lparr>io := io s @ replicate n Hlt, pit_ticks := p, apic_ticks := a\<rparr>"
    using wait_ticks_frame [OF t(1)] by blast
  moreover have "apic_sleep_ms ms s = Done () t"
    using t(1) by (simp add: apic_sleep_ms_def Let_def get_apic_ticks_def finished_def)
  ultimately show thesis using stop by (intro that) (auto simp: word_le_nat_alt)
qed

section \<open>Properties\<close>



text \<open>
  Under the same conditions \<open>apic_sleep_ms\<close> returns at least \<open>ms\<close> and less than \<open>ms + K\<close> ticks of
  the APIC timer later; when the timer does not interrupt, it never returns.
\<close>

lemma apic_sleep_returns:
  assumes "0 < ms" and "unat (apic_ticks s) + unat ms + K < 2 ^ 64"
  shows "((\<forall>tr. 1 \<le> snd (timer_irqs s tr) \<and> snd (timer_irqs s tr) \<le> K) \<longrightarrow>
      (\<exists>t. apic_sleep_ms ms s = Done () t \<and> unat (apic_ticks s) + unat ms \<le> unat (apic_ticks t)
        \<and> unat (apic_ticks t) < unat (apic_ticks s) + unat ms + K))
    \<and> ((\<forall>tr. snd (timer_irqs s tr) = 0) \<longrightarrow> apic_sleep_ms ms s = Stop Hang s)"
proof -
  let ?stop = "apic_ticks s + ucast ms"
  have stop: "unat ?stop = unat (apic_ticks s) + unat ms" using assms(2) by (simp add: unat_add_less)
  have later: "apic_ticks s < ?stop" using stop assms(1) by (simp add: word_less_nat_alt)
  have run: "apic_sleep_ms ms s = finished s (wait_ticks get_apic_ticks (ucast ms) (apic_ticks s) ?stop s)"
    by (simp add: apic_sleep_ms_def Let_def get_apic_ticks_def)
  have "\<exists>t. apic_sleep_ms ms s = Done () t \<and> unat (apic_ticks s) + unat ms \<le> unat (apic_ticks t)
      \<and> unat (apic_ticks t) < unat (apic_ticks s) + unat ms + K"
    if "\<forall>tr. 1 \<le> snd (timer_irqs s tr) \<and> snd (timer_irqs s tr) \<le> K"
    using apic_sleep_done [OF assms that] by blast
  moreover have "apic_sleep_ms ms s = Stop Hang s" if "\<forall>tr. snd (timer_irqs s tr) = 0"
  proof (cases "wait_ticks get_apic_ticks (ucast ms) (apic_ticks s) ?stop s")
    case (Some t)
    then have "?stop \<le> get_apic_ticks s"
      by (rule lapic.wait_stuck) (simp_all add: that get_apic_ticks_def)
    then show ?thesis using later by (simp add: get_apic_ticks_def)
  qed (simp add: run finished_def)
  ultimately show ?thesis by blast
qed

lemma apic_sleep_returns_example:
  "(\<exists>t. apic_sleep_ms 10 example_devices = Done () t \<and> apic_ticks t = 10)
    \<and> apic_sleep_ms 10 (example_devices\<lparr>timer_irqs := \<lambda>_. (1, 0)\<rparr>) =
      Stop Hang (example_devices\<lparr>timer_irqs := \<lambda>_. (1, 0)\<rparr>)"
proof
  obtain t where "apic_sleep_ms 10 example_devices = Done () t"
    and "10 \<le> unat (apic_ticks t)" "unat (apic_ticks t) < 11"
    using apic_sleep_returns [of 10 example_devices 1] by auto
  then show "\<exists>t. apic_sleep_ms 10 example_devices = Done () t \<and> apic_ticks t = 10"
    by (auto simp: word_unat_eq_iff)
  show "apic_sleep_ms 10 (example_devices\<lparr>timer_irqs := \<lambda>_. (1, 0)\<rparr>) =
      Stop Hang (example_devices\<lparr>timer_irqs := \<lambda>_. (1, 0)\<rparr>)"
    using apic_sleep_returns [of 10 "example_devices\<lparr>timer_irqs := \<lambda>_. (1, 0)\<rparr>" 1] by simp
qed

text \<open>
  The divisor of the timer: for every frequency the two bytes can express, the bytes sent to
  channel 0 are the two bytes of the frequency quotient, low byte first, after the control word.
\<close>

lemma pit_divisor_programmed:
  assumes "19 \<le> frequency"
  shows "\<exists>lo hi. set_pit_frequency frequency s = Done () (fold access
      [PortOut PIT_CONTROL_PORT 0x36, PortOut PIT_CHANNEL0_PORT lo, PortOut PIT_CHANNEL0_PORT hi] s)
    \<and> unat lo + 256 * unat hi = 1193182 div unat frequency"
proof -
  let ?d = "PIT_FREQUENCY div frequency"
  have d: "unat ?d = 1193182 div unat frequency" by (simp add: PIT_FREQUENCY_def unat_div)
  have f: "19 \<le> unat frequency" using assms by (simp add: word_le_nat_alt)
  then have "1193182 div unat frequency \<le> 1193182 div 19" by (intro div_le_mono2) auto
  then have small: "unat ?d < 65536" unfolding d by simp
  have "frequency \<noteq> 0" using f by auto
  moreover have "unat (ucast (?d AND 0xFF) :: u8) = unat ?d mod 256"
  proof -
    have "?d AND 0xFF = take_bit 8 ?d" by (simp add: take_bit_eq_mask mask_eq_exp_minus_1)
    then show ?thesis by (simp add: unsigned_ucast_eq unat_mod take_bit_eq_mod)
  qed
  moreover have "unat (ucast (drop_bit 8 ?d) :: u8) = unat ?d div 256"
    using small by (simp add: unsigned_ucast_eq unat_div drop_bit_eq_div take_bit_eq_mod)
  ultimately show ?thesis
    by (intro exI [of _ "ucast (?d AND 0xFF)"] exI [of _ "ucast (drop_bit 8 ?d)"])
      (simp add: set_pit_frequency_def Let_def outb_def d [symmetric])
qed

lemma pit_divisor_programmed_example:
  "\<exists>lo hi. set_pit_frequency 1000 example_devices = Done () (fold access
      [PortOut PIT_CONTROL_PORT 0x36, PortOut PIT_CHANNEL0_PORT lo, PortOut PIT_CHANNEL0_PORT hi] example_devices)
    \<and> unat lo + 256 * unat hi = 1193"
  using pit_divisor_programmed [of 1000 example_devices] by simp

text \<open>
  \<open>unmask_irq\<close> clears the mask bit of its interrupt line in the controller the line belongs to,
  and leaves the other seven bits as they were read.
\<close>

lemma unmask_clears_one_bit:
  assumes "irq < 16"
  shows "\<exists>v w. unmask_irq irq s = Done () (fold access
      [PortIn (if irq < 8 then PIC1_DATA else PIC2_DATA) v, PortOut (if irq < 8 then PIC1_DATA else PIC2_DATA) w] s)
    \<and> v = port_value s (io s) (if irq < 8 then PIC1_DATA else PIC2_DATA)
    \<and> (\<forall>n < 8. bit w n = (bit v n \<and> n \<noteq> unat irq mod 8))"
proof -
  let ?port = "if irq < 8 then PIC1_DATA else PIC2_DATA" and ?irq = "if irq < 8 then irq else irq - 8"
  let ?v = "port_value s (io s) ?port"
  let ?w = "?v AND NOT (push_bit (unat ?irq) 1)"
  have irq: "unat ?irq = unat irq mod 8" "unat ?irq < 8"
  proof -
    have "irq < 8 \<longleftrightarrow> unat irq < 8" by (simp add: word_less_nat_alt)
    moreover have "unat irq < 16" using assms by (simp add: word_less_nat_alt)
    moreover have "unat (irq - 8) = unat irq - 8" if "\<not> irq < 8"
      using that by (simp add: unat_sub not_less)
    ultimately show "unat ?irq = unat irq mod 8" by (auto simp: mod_if)
    then show "unat ?irq < 8" by simp
  qed
  then have "\<not> 32 \<le> ?irq" by (simp add: word_le_nat_alt)
  then have "unmask_irq irq s = Done () (fold access [PortIn ?port ?v, PortOut ?port ?w] s)"
    by (cases "irq < 8") (simp_all add: unmask_irq_def inb_def outb_def Let_def)
  moreover have "bit ?w n = (bit ?v n \<and> n \<noteq> unat irq mod 8)" if "n < 8" for n
    using that irq by (auto simp: bit_simps)
  ultimately show ?thesis by blast
qed

end
