(* ===== verification/Local_Apic.thy ===== *)
theory Local_Apic
  imports Timers
begin

text \<open>
  The local APIC, \<open>platform/x86_64/apic.c\<close>: its discovery in the base register, its memory mapped
  registers, the calibration of its timer against the PIT, end of interrupt and the sending of
  interrupts between processors.
\<close>

section \<open>State\<close>

record local_apic_r =
  bootstrap_processor :: bool
  x2_apic_enabled :: bool
  apic_enabled :: bool
  apic_address :: u64

record lapic = devices +
  apic :: local_apic_r
  apic_virt :: u64

definition IA32_APIC_BASE_MSR :: u32 where "IA32_APIC_BASE_MSR = 0x1B"
definition APIC_ID :: u64 where "APIC_ID = 0x020"
definition APIC_VERSION :: u64 where "APIC_VERSION = 0x030"
definition APIC_EOI :: u64 where "APIC_EOI = 0x0B0"
definition APIC_SPURIOUS_INT_VECTOR :: u64 where "APIC_SPURIOUS_INT_VECTOR = 0x0F0"
definition APIC_ICR_LOW :: u64 where "APIC_ICR_LOW = 0x300"
definition APIC_ICR_HIGH :: u64 where "APIC_ICR_HIGH = 0x310"
definition APIC_LVT_TIMER :: u64 where "APIC_LVT_TIMER = 0x320"
definition APIC_TIMER_INITIAL_COUNT :: u64 where "APIC_TIMER_INITIAL_COUNT = 0x380"
definition APIC_TIMER_CURRENT_COUNT :: u64 where "APIC_TIMER_CURRENT_COUNT = 0x390"
definition APIC_TIMER_DIVIDE_CONFIG :: u64 where "APIC_TIMER_DIVIDE_CONFIG = 0x3E0"

lemmas apic_registers = APIC_ID_def APIC_VERSION_def APIC_EOI_def APIC_SPURIOUS_INT_VECTOR_def
  APIC_ICR_LOW_def APIC_ICR_HIGH_def APIC_LVT_TIMER_def APIC_TIMER_INITIAL_COUNT_def
  APIC_TIMER_CURRENT_COUNT_def APIC_TIMER_DIVIDE_CONFIG_def

section \<open>Registers\<close>

definition get_apic :: "'z lapic_scheme \<Rightarrow> (local_apic_r, 'z lapic_scheme) outcome" where
  "get_apic s =
     bindO (read_msr IA32_APIC_BASE_MSR s) (\<lambda>data s.
     let a = \<lparr>bootstrap_processor = (drop_bit 8 data AND 1 \<noteq> 0),
              x2_apic_enabled = (drop_bit 10 data AND 1 \<noteq> 0),
              apic_enabled = (drop_bit 11 data AND 1 \<noteq> 0),
              apic_address = data AND NOT 0xFFF\<rparr>;
         s = s\<lparr>apic := a\<rparr>
     in if \<not> apic_enabled a \<and> x2_apic_enabled a then panic ''x2APIC currently unsupported'' s
        else if \<not> apic_enabled a then panic ''APIC not enabled'' s
        else Done a s)"

definition write_register :: "u64 \<Rightarrow> u32 \<Rightarrow> 'z lapic_scheme \<Rightarrow> 'z lapic_scheme" where
  "write_register offset value s = mmio_write (apic_virt s + offset) value s"

definition read_register :: "u64 \<Rightarrow> 'z lapic_scheme \<Rightarrow> (u32, 'z lapic_scheme) outcome" where
  "read_register offset s = mmio_read (apic_virt s + offset) s"

definition write_lvt_entry :: "u64 \<Rightarrow> u8 \<Rightarrow> 'z lapic_scheme \<Rightarrow> 'z lapic_scheme" where
  "write_lvt_entry offset idt_index s =
     (let ptr = apic_virt s + offset in mmio_write (ptr + 32) 0b000001101 (mmio_write ptr (ucast idt_index) s))"

definition send_eio :: "'z lapic_scheme \<Rightarrow> 'z lapic_scheme" where
  "send_eio = write_register APIC_EOI 0"

lemma apic_virt_access [simp]: "apic_virt (access e s) = apic_virt s"
  by (simp add: access_def)

section \<open>Interrupts between processors\<close>

record icr =
  vector_number :: u8
  delivery_mode :: u8
  destination_mode :: u8
  delivery_status :: u8
  icr_reserved :: u8
  init_level :: u8
  not_init_level :: u8
  destination_type :: u8
  icr_reserved2 :: u16

text \<open>The packed bit fields as one 32-bit word, the first field lowest.\<close>

definition icr_word :: "icr \<Rightarrow> u32" where
  "icr_word i =
     ucast (vector_number i)
     OR push_bit 8 (take_bit 2 (ucast (delivery_mode i)))
     OR push_bit 10 (take_bit 1 (ucast (destination_mode i)))
     OR push_bit 11 (take_bit 1 (ucast (delivery_status i)))
     OR push_bit 12 (take_bit 1 (ucast (icr_reserved i)))
     OR push_bit 13 (take_bit 1 (ucast (init_level i)))
     OR push_bit 14 (take_bit 1 (ucast (not_init_level i)))
     OR push_bit 15 (take_bit 2 (ucast (destination_type i)))
     OR push_bit 17 (take_bit 11 (ucast (icr_reserved2 i)))"

definition write_icr :: "icr \<Rightarrow> u32 \<Rightarrow> 'z lapic_scheme \<Rightarrow> 'z lapic_scheme" where
  "write_icr isr apic_id s =
     (let s = (if apic_id \<noteq> 0 \<and> 0 < take_bit 2 (destination_type isr)
               then k_wrn ''APIC ID has no effect with destination types greater than 0!'' [] s else s)
      in write_register APIC_ICR_LOW (icr_word isr)
           (write_register APIC_ICR_HIGH (drop_bit 24 apic_id) s))"

definition send_ipi :: "u32 \<Rightarrow> u8 \<Rightarrow> 'z lapic_scheme \<Rightarrow> 'z lapic_scheme" where
  "send_ipi apic_id isr_index s =
     write_icr \<lparr>vector_number = isr_index, delivery_mode = 0, destination_mode = 0, delivery_status = 0,
         icr_reserved = 0, init_level = 0, not_init_level = 1, destination_type = 0, icr_reserved2 = 0\<rparr>
       apic_id (emit (LogMsg Lvl_todo ''Fix send_ipi!'' []) s)"

section \<open>Start-up\<close>

definition apic_start_timer :: "'z lapic_scheme \<Rightarrow> (unit, 'z lapic_scheme) outcome" where
  "apic_start_timer s =
     (let s = write_register APIC_TIMER_DIVIDE_CONFIG 0x3 s;
          s = write_register APIC_TIMER_INITIAL_COUNT 0xFFFFFFFF s
      in bindO (pit_sleep_ms 600 s) (\<lambda>_ s.
         bindO (read_register APIC_TIMER_CURRENT_COUNT (write_register APIC_LVT_TIMER 0x10000 s)) (\<lambda>count s.
         let ticks_1ms = (0xFFFFFFFF - count) div 600;
             s = write_register APIC_LVT_TIMER (0xf1 OR 0x20000) s;
             s = write_register APIC_TIMER_DIVIDE_CONFIG 0x3 s;
             s = write_register APIC_TIMER_INITIAL_COUNT ticks_1ms s
         in bindO (unmask_irq 0 s) (\<lambda>_ s. set_state PIT_TIMER_RUNNING 0 s))))"

text \<open>A page mapped into the kernel's tables; before \<open>setup_vmm\<close> these are a null pointer.\<close>

definition map_kernel :: "u64 \<Rightarrow> u64 \<Rightarrow> u64 \<Rightarrow> 'z vmm_scheme \<Rightarrow> (bool, 'z vmm_scheme) outcome" where
  "map_kernel virt phys flags s = (case kernel_pagemap s of
     None \<Rightarrow> Stop (Fault ''null kernel_pagemap'') s
   | Some pm \<Rightarrow> map_page pm virt phys flags s)"

text \<open>The arguments of the debug messages read the registers as well.\<close>

definition bootstrap_apic :: "'z lapic_scheme \<Rightarrow> (unit, 'z lapic_scheme) outcome" where
  "bootstrap_apic s =
     bindO (get_apic s) (\<lambda>a s.
     bindO (get_hhdm s) (\<lambda>hhdm s.
     let s = s\<lparr>apic_virt := apic_address a + hhdm\<rparr> in
     bindO (map_kernel (apic_virt s) (apic_address a) (PTE_WRITABLE OR PTE_NX OR PTE_PCD) s) (\<lambda>ok s.
     if \<not> ok then panic ''Could not map APIC to virtual memory!'' s
     else bindO (read_register APIC_VERSION s) (\<lambda>_ s.
     bindO (read_register APIC_VERSION s) (\<lambda>version s.
     if version < 0x10 then panic ''82489DX (APIC versions under 0x10) are unsupported.'' s
     else bindO (read_register APIC_SPURIOUS_INT_VECTOR (write_register APIC_SPURIOUS_INT_VECTOR 0x1F0 s)) (\<lambda>v s.
     if v \<noteq> 0x1F0 then panic ''Could not enable APIC!'' s
     else bindO (read_register APIC_ID s) (\<lambda>_ s.
     apic_start_timer s)))))))"

section \<open>Properties\<close>

text \<open>
  \<open>get_apic\<close> reads the base register: it returns exactly when the global enable bit 11 is set,
  with the address in bits 12 and up; otherwise it panics. In x2APIC mode, where bits 10 and 11 are
  both set, it returns as well: the message for x2APIC needs bit 11 to be clear.
\<close>

lemma get_apic_reads_base:
  fixes s :: "'z lapic_scheme"
  defines "data \<equiv> msr_value s (io s) IA32_APIC_BASE_MSR"
  shows "(\<exists>a t. get_apic s = Done a t \<and> bit data 11 \<and> apic_enabled a
      \<and> (\<forall>n. bit (apic_address a) n = (bit data n \<and> 12 \<le> n)) \<and> x2_apic_enabled a = bit data 10 \<and> apic t = a)
    \<or> (\<exists>t. get_apic s = Stop (Panic (if bit data 10 then ''x2APIC currently unsupported'' else ''APIC not enabled'')) t
      \<and> \<not> bit data 11)"
proof -
  have halves: "push_bit 32 (ucast (ucast (drop_bit 32 data) :: u32)) OR ucast (ucast data :: u32) = data"
    by (rule bit_word_eqI) (auto simp: bit_simps)
  have field: "(drop_bit n data AND 1 \<noteq> 0) = bit data n" for n
    by (simp add: and_one_eq bit_iff_odd_drop_bit odd_iff_mod_2_eq_one)
  have "bit (data AND NOT 0xFFF) n = (bit data n \<and> 12 \<le> n)" for n
  proof -
    have "(0xFFF :: u64) = mask 12" by (simp add: mask_eq_exp_minus_1)
    then have "data AND NOT 0xFFF = data AND NOT (mask 12)" by (simp only:)
    then show ?thesis by (simp only: bit_and_iff bit_not_iff bit_mask_iff) (auto dest: bit_imp_le_length)
  qed
  then show ?thesis
    by (auto simp: get_apic_def read_msr_def Let_def data_def [symmetric] halves field)
qed

text \<open>
  The calibration of the APIC timer: the count that \<open>apic_start_timer\<close> programs for one
  millisecond is the 600th part of what the counter, started at its maximum, has counted down to
  when at least 599 ticks of the PIT have passed; the timer is then periodic on vector 0xf1.
\<close>

lemma apic_timer_calibrated:
  assumes "timer_goal_frequency s = 1000" and "length (global_state s) = 12"
    and "\<forall>tr. 1 \<le> fst (timer_irqs s tr) \<and> fst (timer_irqs s tr) \<le> K"
    and "unat (pit_ticks s) + 600 + K < 2 ^ 64"
  shows "\<exists>n t. let base = apic_virt s;
        waited = io s @ [MmioOut (base + 0x3E0) 3, MmioOut (base + 0x380) 0xFFFFFFFF,
          PortOut 0x43 0x36, PortOut 0x40 169, PortOut 0x40 4] @ replicate n Hlt @ [MmioOut (base + 0x320) 0x10000];
        count = mmio_value s waited (base + 0x390);
        started = waited @ [MmioIn (base + 0x390) count, MmioOut (base + 0x320) 0x200F1,
          MmioOut (base + 0x3E0) 3, MmioOut (base + 0x380) ((0xFFFFFFFF - count) div 600)];
        m = port_value s started 0x21
      in apic_start_timer s = Done () t \<and> 599 \<le> unat (pit_ticks t) - unat (pit_ticks s)
        \<and> io t = started @ [PortIn 0x21 m, PortOut 0x21 (m AND NOT 1)]
        \<and> get_global_state t PIT_TIMER_RUNNING = 0"
proof -
  let ?s = "write_register APIC_TIMER_INITIAL_COUNT 0xFFFFFFFF (write_register APIC_TIMER_DIVIDE_CONFIG 0x3 s)"
  have "timer_goal_frequency ?s = 1000" "0 < (600 :: u32)" "unat (600 :: u32) * 1000 < 2 ^ 32" "\<forall>tr. 1 \<le> fst (timer_irqs ?s tr) \<and> fst (timer_irqs ?s tr) \<le> K"
    "unat (pit_ticks ?s) + unat (600 :: u32) + K < 2 ^ 64"
    using assms by (simp_all add: write_register_def mmio_write_def)
  then obtain t n p a where
    t: "pit_sleep_ms 600 ?s = Done () t" "unat (pit_ticks ?s) + unat (600 :: u32) - 1 \<le> unat (pit_ticks t)"
      "unat (pit_ticks t) < unat (pit_ticks ?s) + unat (600 :: u32) - 1 + K"
    and frame: "t = ?s\<lparr>io := io ?s @ [PortOut PIT_CONTROL_PORT 0x36, PortOut PIT_CHANNEL0_PORT 169, PortOut PIT_CHANNEL0_PORT 4]
      @ replicate n Hlt, pit_ticks := p, apic_ticks := a\<rparr>"
    by (rule pit_sleep_done)
  let ?io = "io s @ [MmioOut (apic_virt s + 0x3E0) 3, MmioOut (apic_virt s + 0x380) 0xFFFFFFFF,
      PortOut 0x43 0x36, PortOut 0x40 169, PortOut 0x40 4] @ replicate n Hlt"
  have "?s = s\<lparr>io := io s @ [MmioOut (apic_virt s + 0x3E0) 3, MmioOut (apic_virt s + 0x380) 0xFFFFFFFF]\<rparr>"
    by (simp add: write_register_def mmio_write_def access_def apic_registers)
  then have t_eq: "t = s\<lparr>io := ?io, pit_ticks := p, apic_ticks := a\<rparr>"
    unfolding frame by (simp add: PIT_CONTROL_PORT_def PIT_CHANNEL0_PORT_def)
  have fields: "io t = ?io" "apic_virt t = apic_virt s" "mmio_value t = mmio_value s"
    "port_value t = port_value s" "global_state t = global_state s"
    unfolding t_eq by simp_all
  have ticks: "599 \<le> unat (pit_ticks t) - unat (pit_ticks s)"
    using t(2) by (simp add: write_register_def mmio_write_def)
  let ?w = "?io @ [MmioOut (apic_virt s + 0x320) 0x10000]"
  let ?c = "mmio_value s ?w (apic_virt s + 0x390)"
  let ?started = "?w @ [MmioIn (apic_virt s + 0x390) ?c, MmioOut (apic_virt s + 0x320) 0x200F1,
      MmioOut (apic_virt s + 0x3E0) 3, MmioOut (apic_virt s + 0x380) ((0xFFFFFFFF - ?c) div 600)]"
  let ?m = "port_value s ?started 0x21"
  have "apic_start_timer s =
      (let u = fold access [MmioOut (apic_virt s + 0x320) 0x10000, MmioIn (apic_virt s + 0x390) ?c,
          MmioOut (apic_virt s + 0x320) 0x200F1, MmioOut (apic_virt s + 0x3E0) 3,
          MmioOut (apic_virt s + 0x380) ((0xFFFFFFFF - ?c) div 600), PortIn 0x21 ?m, PortOut 0x21 (?m AND NOT 1)] t
       in Done () (u\<lparr>global_state := (global_state u)[PIT_TIMER_RUNNING := 0]\<rparr>))"
    using assms(2) fields unfolding apic_start_timer_def Let_def t(1) bindO.simps
    by (simp add: Let_def read_register_def write_register_def mmio_read_def
        mmio_write_def unmask_irq_def inb_def outb_def set_state_def apic_registers PIC1_DATA_def PIT_TIMER_RUNNING_def)
  then obtain u where u: "apic_start_timer s = Done () u" "pit_ticks u = pit_ticks t"
    "io u = ?started @ [PortIn 0x21 ?m, PortOut 0x21 (?m AND NOT 1)]"
    "global_state u = (global_state s)[PIT_TIMER_RUNNING := 0]"
    using fields by (simp add: Let_def)
  have "get_global_state u PIT_TIMER_RUNNING = 0"
    using assms(2) by (simp add: u(4) get_global_state_def PIT_TIMER_RUNNING_def)
  with u ticks show ?thesis unfolding Let_def
    by (intro exI [of _ n] exI [of _ u] conjI) simp_all
qed

definition example_lapic :: lapic where
  "example_lapic = devices.extend example_devices
     (lapic.fields \<lparr>bootstrap_processor = True, x2_apic_enabled = False, apic_enabled = True, apic_address = 0xFEE00000\<rparr>
       0xFFFF8000FEE00000)"

lemma example_lapic_sel [simp]:
  "io example_lapic = []" "port_value example_lapic = (\<lambda>_ _. 255)"
  "mmio_value example_lapic = (\<lambda>_ _. 0)" "timer_irqs example_lapic = (\<lambda>_. (1, 1))"
  "pit_ticks example_lapic = 0" "apic_ticks example_lapic = 0"
  "timer_goal_frequency example_lapic = 1000" "global_state example_lapic = replicate 12 0"
  "apic_virt example_lapic = 0xFFFF8000FEE00000"
  by (simp_all add: example_lapic_def devices.defs lapic.defs)

lemma apic_timer_calibrated_example:
  "\<exists>t. apic_start_timer example_lapic = Done () t \<and> get_global_state t PIT_TIMER_RUNNING = 0
    \<and> MmioOut 0xFFFF8000FEE00380 7158278 \<in> set (io t)"
proof -
  have "timer_goal_frequency example_lapic = 1000" "length (global_state example_lapic) = 12"
    "\<forall>tr. 1 \<le> fst (timer_irqs example_lapic tr) \<and> fst (timer_irqs example_lapic tr) \<le> 1"
    "unat (pit_ticks example_lapic) + 600 + 1 < 2 ^ 64" by simp_all
  from apic_timer_calibrated [OF this, unfolded Let_def]
  show ?thesis by (elim ex_forward exE conjE) simp
qed

end
