(* ===== verification/Printf.thy ===== *)
theory Printf
  imports Memmap
begin

text \<open>
  Formatted output, \<open>util/printf.c\<close> (the integer, character, string and pointer conversions; the
  floating point ones are compiled out). \<open>_vsnprintf\<close> calls its output function once per character
  with consecutive indices, so the model computes the text, and the entry points put it into
  memory or hand it to a device.
\<close>

section \<open>Flags and numbers\<close>

record fmt_flags =
  zeropad :: bool
  left :: bool
  plus :: bool
  space :: bool
  hash :: bool
  uppercase :: bool
  char_arg :: bool
  short_arg :: bool
  long_arg :: bool
  long_long_arg :: bool
  has_precision :: bool

definition no_flags :: fmt_flags where
  "no_flags = \<lparr>zeropad = False, left = False, plus = False, space = False, hash = False,
     uppercase = False, char_arg = False, short_arg = False, long_arg = False,
     long_long_arg = False, has_precision = False\<rparr>"

definition NTOA_BUFFER_SIZE :: nat where "NTOA_BUFFER_SIZE = 32"

definition spaces :: "nat \<Rightarrow> string" where "spaces n = replicate n (CHR '' '')"

text \<open>The characters \<open>_out_rev\<close> sends: \<open>buf\<close> holds the text in reverse.\<close>

definition out_rev :: "string \<Rightarrow> u32 \<Rightarrow> fmt_flags \<Rightarrow> string" where
  "out_rev buf width flags =
     (let pre = (if \<not> left flags \<and> \<not> zeropad flags then spaces (unat width - length buf) else []);
          txt = pre @ rev buf
      in if left flags then txt @ spaces (unat width - length txt) else txt)"

text \<open>The padding loops append while \<open>len\<close> is below the bound and the buffer size.\<close>

definition pad_zeros :: "u32 \<Rightarrow> string \<Rightarrow> string" where
  "pad_zeros bound buf = buf @ replicate (min (unat bound) NTOA_BUFFER_SIZE - length buf) (CHR ''0'')"

definition push_char :: "char \<Rightarrow> string \<Rightarrow> string" where
  "push_char c buf = (if length buf < NTOA_BUFFER_SIZE then buf @ [c] else buf)"

definition ntoa_format :: "string \<Rightarrow> bool \<Rightarrow> u32 \<Rightarrow> u32 \<Rightarrow> u32 \<Rightarrow> fmt_flags \<Rightarrow> string" where
  "ntoa_format buf negative base prec width flags =
     (let width = (if \<not> left flags \<and> width \<noteq> 0 \<and> zeropad flags \<and> (negative \<or> plus flags \<or> space flags)
                   then width - 1 else width);
          buf = (if \<not> left flags then
                   let buf = pad_zeros prec buf in if zeropad flags then pad_zeros width buf else buf
                 else buf);
          buf = (if hash flags then
                   let len = length buf;
                       len = (if \<not> has_precision flags \<and> len > 0 \<and> (len = unat prec \<or> len = unat width)
                              then if len - 1 > 0 \<and> base = 16 then len - 2 else len - 1 else len);
                       buf = take len buf;
                       buf = (if base = 16 \<and> \<not> uppercase flags \<and> length buf < NTOA_BUFFER_SIZE then buf @ ''x''
                              else if base = 16 \<and> uppercase flags \<and> length buf < NTOA_BUFFER_SIZE then buf @ ''X''
                              else if base = 2 \<and> length buf < NTOA_BUFFER_SIZE then buf @ ''b'' else buf)
                   in push_char (CHR ''0'') buf
                 else buf);
          buf = (if negative then push_char (CHR ''-'') buf
                 else if plus flags then push_char (CHR ''+'') buf
                 else if space flags then push_char (CHR '' '') buf else buf)
      in out_rev buf width flags)"

definition digit_char :: "bool \<Rightarrow> nat \<Rightarrow> char" where
  "digit_char upper d = char_of (if d < 10 then 48 + d else (if upper then 65 else 97) + d - 10)"

text \<open>The digits of \<open>value\<close>, least significant first; \<open>len\<close> counts those already written.\<close>

function digits :: "bool \<Rightarrow> u64 \<Rightarrow> u64 \<Rightarrow> nat \<Rightarrow> string" where
  "digits upper base value len =
     digit_char upper (unat (value mod base)) #
       (if value div base \<noteq> 0 \<and> Suc len < NTOA_BUFFER_SIZE
        then digits upper base (value div base) (Suc len) else [])"
  by pat_completeness auto
termination
  by (relation "measure (\<lambda>(upper, base, value, len). NTOA_BUFFER_SIZE - len)") auto

declare digits.simps [simp del]

definition ntoa_long :: "u64 \<Rightarrow> bool \<Rightarrow> u64 \<Rightarrow> u32 \<Rightarrow> u32 \<Rightarrow> fmt_flags \<Rightarrow> string" where
  "ntoa_long value negative base prec width flags =
     (let flags = (if value = 0 then flags\<lparr>hash := False\<rparr> else flags);
          buf = (if \<not> has_precision flags \<or> value \<noteq> 0 then digits (uppercase flags) base value 0 else [])
      in ntoa_format buf negative (ucast base) prec width flags)"

text \<open>\<open>long\<close> and \<open>long long\<close> are both 64 bits wide: the two functions have the same body.\<close>

definition ntoa_long_long :: "u64 \<Rightarrow> bool \<Rightarrow> u64 \<Rightarrow> u32 \<Rightarrow> u32 \<Rightarrow> fmt_flags \<Rightarrow> string" where
  "ntoa_long_long value negative base prec width flags =
     (let flags = (if value = 0 then flags\<lparr>hash := False\<rparr> else flags);
          buf = (if \<not> has_precision flags \<or> value \<noteq> 0 then digits (uppercase flags) base value 0 else [])
      in ntoa_format buf negative (ucast base) prec width flags)"

section \<open>Parsing a conversion\<close>

text \<open>The character at the front of the format, the terminating one at its end.\<close>

definition peek :: "string \<Rightarrow> char" where
  "peek fmt = (case fmt of [] \<Rightarrow> CHR 0x00 | c # _ \<Rightarrow> c)"

definition is_digit :: "char \<Rightarrow> bool" where
  "is_digit c \<longleftrightarrow> 48 \<le> (of_char c :: nat) \<and> (of_char c :: nat) \<le> 57"

fun atoi :: "u32 \<Rightarrow> string \<Rightarrow> u32 \<times> string" where
  "atoi i [] = (i, [])"
| "atoi i (c # fmt) =
     (if is_digit c then atoi (i * 10 + (of_nat (of_char c) - 48)) fmt else (i, c # fmt))"

fun parse_flags :: "fmt_flags \<Rightarrow> string \<Rightarrow> fmt_flags \<times> string" where
  "parse_flags f [] = (f, [])"
| "parse_flags f (c # fmt) =
     (if c = CHR ''0'' then parse_flags (f\<lparr>zeropad := True\<rparr>) fmt
      else if c = CHR ''-'' then parse_flags (f\<lparr>left := True\<rparr>) fmt
      else if c = CHR ''+'' then parse_flags (f\<lparr>plus := True\<rparr>) fmt
      else if c = CHR '' '' then parse_flags (f\<lparr>space := True\<rparr>) fmt
      else if c = CHR ''#'' then parse_flags (f\<lparr>hash := True\<rparr>) fmt
      else (f, c # fmt))"

text \<open>
  A variadic argument that is missing, or of another kind than the conversion reads, is
  undefined behaviour: \<open>None\<close>.
\<close>

fun va_num :: "fmt_arg list \<Rightarrow> (u64 \<times> fmt_arg list) option" where
  "va_num (Num v # args) = Some (v, args)"
| "va_num _ = None"

fun va_str :: "fmt_arg list \<Rightarrow> (string \<times> fmt_arg list) option" where
  "va_str (Str p # args) = Some (takeWhile (\<lambda>c. c \<noteq> CHR 0x00) p, args)"
| "va_str _ = None"

definition parse_width ::
  "fmt_flags \<Rightarrow> string \<Rightarrow> fmt_arg list \<Rightarrow> (fmt_flags \<times> u32 \<times> string \<times> fmt_arg list) option" where
  "parse_width f fmt args =
     (if is_digit (peek fmt) then case atoi 0 fmt of (w, fmt) \<Rightarrow> Some (f, w, fmt, args)
      else if peek fmt = CHR ''*'' then
        (case va_num args of None \<Rightarrow> None
         | Some (v, args) \<Rightarrow>
             let w = ucast v :: u32 in
             if w <s 0 then Some (f\<lparr>left := True\<rparr>, - w, tl fmt, args) else Some (f, w, tl fmt, args))
      else Some (f, 0, fmt, args))"

definition parse_precision ::
  "fmt_flags \<Rightarrow> string \<Rightarrow> fmt_arg list \<Rightarrow> (fmt_flags \<times> u32 \<times> string \<times> fmt_arg list) option" where
  "parse_precision f fmt args =
     (if peek fmt = CHR ''.'' then
        let f = f\<lparr>has_precision := True\<rparr>; fmt = tl fmt in
        if is_digit (peek fmt) then case atoi 0 fmt of (p, fmt) \<Rightarrow> Some (f, p, fmt, args)
        else if peek fmt = CHR ''*'' then
          (case va_num args of None \<Rightarrow> None
           | Some (v, args) \<Rightarrow> let p = ucast v :: u32 in Some (f, if 0 <s p then p else 0, tl fmt, args))
        else Some (f, 0, fmt, args)
      else Some (f, 0, fmt, args))"

definition parse_length :: "fmt_flags \<Rightarrow> string \<Rightarrow> fmt_flags \<times> string" where
  "parse_length f fmt =
     (if peek fmt = CHR ''l'' then
        let f = f\<lparr>long_arg := True\<rparr>; fmt = tl fmt in
        if peek fmt = CHR ''l'' then (f\<lparr>long_long_arg := True\<rparr>, tl fmt) else (f, fmt)
      else if peek fmt = CHR ''h'' then
        let f = f\<lparr>short_arg := True\<rparr>; fmt = tl fmt in
        if peek fmt = CHR ''h'' then (f\<lparr>char_arg := True\<rparr>, tl fmt) else (f, fmt)
      else if peek fmt = CHR ''j'' then (f\<lparr>long_arg := True\<rparr>, tl fmt)
      else if peek fmt = CHR ''z'' then (f\<lparr>long_arg := True\<rparr>, tl fmt)
      else (f, fmt))"

section \<open>The conversions\<close>

definition magnitude32 :: "u32 \<Rightarrow> u32" where "magnitude32 v = (if 0 <s v then v else 0 - v)"
definition magnitude64 :: "u64 \<Rightarrow> u64" where "magnitude64 v = (if 0 <s v then v else 0 - v)"

text \<open>The integer conversions; \<open>c\<close> is the specifier.\<close>

definition format_int :: "char \<Rightarrow> fmt_flags \<Rightarrow> u32 \<Rightarrow> u32 \<Rightarrow> u64 \<Rightarrow> string" where
  "format_int c flags width precision v =
     (let base = (if c = CHR ''x'' \<or> c = CHR ''X'' then 16 else if c = CHR ''o'' then 8
                  else if c = CHR ''b'' then 2 else 10);
          flags = (if base = 10 then flags\<lparr>hash := False\<rparr> else flags);
          flags = (if c = CHR ''X'' then flags\<lparr>uppercase := True\<rparr> else flags);
          flags = (if c \<noteq> CHR ''i'' \<and> c \<noteq> CHR ''d'' then flags\<lparr>plus := False, space := False\<rparr> else flags);
          flags = (if has_precision flags then flags\<lparr>zeropad := False\<rparr> else flags)
      in if c = CHR ''i'' \<or> c = CHR ''d'' then
           if long_long_arg flags then
             ntoa_long_long (magnitude64 v) (v <s 0) base precision width flags
           else if long_arg flags then
             ntoa_long (magnitude64 v) (v <s 0) base precision width flags
           else
             let value = (if char_arg flags then scast (ucast v :: u8)
                          else if short_arg flags then scast (ucast v :: u16) else ucast v) :: u32
             in ntoa_long (ucast (magnitude32 value)) (value <s 0) base precision width flags
         else
           if long_long_arg flags then ntoa_long_long v False base precision width flags
           else if long_arg flags then ntoa_long v False base precision width flags
           else
             let value = (if char_arg flags then ucast (ucast v :: u8)
                          else if short_arg flags then ucast (ucast v :: u16) else ucast v) :: u32
             in ntoa_long (ucast value) False base precision width flags)"

definition format_char :: "fmt_flags \<Rightarrow> u32 \<Rightarrow> u64 \<Rightarrow> string" where
  "format_char flags width v =
     (let c = char_of (unat (ucast v :: u8)) in
      (if \<not> left flags then spaces (unat width - 1) else []) @ [c] @
      (if left flags then spaces (unat width - 1) else []))"

definition format_str :: "fmt_flags \<Rightarrow> u32 \<Rightarrow> u32 \<Rightarrow> string \<Rightarrow> string" where
  "format_str flags width precision p =
     (let l = (if precision \<noteq> 0 then min (length p) (unat precision) else length p);
          l = (if has_precision flags then min l (unat precision) else l);
          txt = (if has_precision flags then take (unat precision) p else p)
      in (if \<not> left flags then spaces (unat width - l) else []) @ txt @
         (if left flags then spaces (unat width - l) else []))"

definition format_ptr :: "fmt_flags \<Rightarrow> u32 \<Rightarrow> u64 \<Rightarrow> string" where
  "format_ptr flags precision v =
     ntoa_long_long v False 16 precision 16 (flags\<lparr>zeropad := True, uppercase := True\<rparr>)"

definition int_specifiers :: string where "int_specifiers = ''diuxXob''"

text \<open>
  The part of the loop after \<open>%\<close>. A format that ends inside a conversion is read past its end:
  undefined.
\<close>

definition convert :: "string \<Rightarrow> fmt_arg list \<Rightarrow> (string \<times> string \<times> fmt_arg list) option" where
  "convert fmt args =
     (case parse_flags no_flags fmt of (flags, fmt) \<Rightarrow>
      case parse_width flags fmt args of None \<Rightarrow> None | Some (flags, width, fmt, args) \<Rightarrow>
      case parse_precision flags fmt args of None \<Rightarrow> None | Some (flags, precision, fmt, args) \<Rightarrow>
      case parse_length flags fmt of (flags, fmt) \<Rightarrow>
      (case fmt of
         [] \<Rightarrow> None
       | c # fmt \<Rightarrow>
           if c \<in> set int_specifiers then
             map_option (\<lambda>(v, args). (format_int c flags width precision v, fmt, args)) (va_num args)
           else if c = CHR ''c'' then
             map_option (\<lambda>(v, args). (format_char flags width v, fmt, args)) (va_num args)
           else if c = CHR ''s'' then
             map_option (\<lambda>(p, args). (format_str flags width precision p, fmt, args)) (va_str args)
           else if c = CHR ''p'' then
             map_option (\<lambda>(v, args). (format_ptr flags precision v, fmt, args)) (va_num args)
           else Some ([c], fmt, args)))"

lemma atoi_length: "atoi i fmt = (w, fmt') \<Longrightarrow> length fmt' \<le> length fmt"
  by (induction i fmt rule: atoi.induct) (auto split: if_splits)

lemma parse_flags_length: "parse_flags f fmt = (f', fmt') \<Longrightarrow> length fmt' \<le> length fmt"
  by (induction f fmt rule: parse_flags.induct) (auto split: if_splits)

lemma parse_width_length: "parse_width f fmt args = Some (f', w, fmt', args') \<Longrightarrow> length fmt' \<le> length fmt"
  by (auto simp: parse_width_def Let_def split: if_splits option.splits prod.splits dest: atoi_length)

lemma parse_precision_length:
  "parse_precision f fmt args = Some (f', p, fmt', args') \<Longrightarrow> length fmt' \<le> length fmt"
  by (auto simp: parse_precision_def Let_def split: if_splits option.splits prod.splits dest: atoi_length)

lemma parse_length_length: "parse_length f fmt = (f', fmt') \<Longrightarrow> length fmt' \<le> length fmt"
  by (auto simp: parse_length_def Let_def split: if_splits)

lemma convert_length: "convert fmt args = Some (txt, fmt', args') \<Longrightarrow> length fmt' < length fmt"
  by (auto simp: convert_def split: prod.splits option.splits list.splits if_splits
      dest!: parse_flags_length parse_width_length parse_precision_length parse_length_length)

function vsn :: "string \<Rightarrow> fmt_arg list \<Rightarrow> string option" where
  "vsn [] args = Some []"
| "vsn (c # fmt) args =
     (if c \<noteq> CHR ''%'' then map_option (Cons c) (vsn fmt args)
      else (case convert fmt args of
              None \<Rightarrow> None
            | Some (txt, fmt', args') \<Rightarrow> map_option (append txt) (vsn fmt' args')))"
  by pat_completeness auto
termination
  by (relation "measure (length \<circ> fst)") (auto dest: convert_length)

section \<open>Output\<close>

text \<open>
  \<open>_out_buffer\<close> writes the character with index \<open>idx\<close> when it is below \<open>maxlen\<close>; at the end the
  terminating null goes to the index after the text, or to the last one.
\<close>

definition out_buffer :: "char \<Rightarrow> u64 \<Rightarrow> u64 \<Rightarrow> u64 \<Rightarrow> memory \<Rightarrow> memory" where
  "out_buffer c buffer idx maxlen m =
     (if idx < maxlen then m(buffer + idx := of_nat (of_char c)) else m)"

fun out_text :: "string \<Rightarrow> u64 \<Rightarrow> u64 \<Rightarrow> u64 \<Rightarrow> memory \<Rightarrow> memory" where
  "out_text [] buffer idx maxlen m = m"
| "out_text (c # cs) buffer idx maxlen m =
     out_text cs buffer (idx + 1) maxlen (out_buffer c buffer idx maxlen m)"

definition vsnprintf :: "u64 \<Rightarrow> u64 \<Rightarrow> string \<Rightarrow> fmt_arg list \<Rightarrow> 'z machine_scheme \<Rightarrow>
    (u32, 'z machine_scheme) outcome" where
  "vsnprintf buffer count fmt args s =
     (case vsn fmt args of
        None \<Rightarrow> Stop (Fault ''bad format arguments'') s
      | Some txt \<Rightarrow>
          let idx = of_nat (length txt) in
          if buffer = 0 then Done (ucast (idx :: u64)) s
          else
            let m = out_text txt buffer 0 count (mem s);
                m = out_buffer (CHR 0x00) buffer (if idx < count then idx else count - 1) count m
            in Done (ucast idx) (s\<lparr>mem := m\<rparr>))"

definition snprintf :: "u64 \<Rightarrow> u64 \<Rightarrow> string \<Rightarrow> fmt_arg list \<Rightarrow> 'z machine_scheme \<Rightarrow>
    (u32, 'z machine_scheme) outcome" where
  "snprintf buffer count fmt args = vsnprintf buffer count fmt args"

definition sprintf :: "u64 \<Rightarrow> string \<Rightarrow> fmt_arg list \<Rightarrow> 'z machine_scheme \<Rightarrow>
    (u32, 'z machine_scheme) outcome" where
  "sprintf buffer fmt args = vsnprintf buffer (-1) fmt args"

text \<open>
  \<open>printf_\<close>, \<open>vprintf_\<close> and \<open>serial_printf_\<close> send every non-null character to the console or the
  serial line; \<open>fctprintf\<close> to a function: the characters in order.
\<close>

definition printf_chars :: "string \<Rightarrow> fmt_arg list \<Rightarrow> string option" where
  "printf_chars fmt args = map_option (filter (\<lambda>c. c \<noteq> CHR 0x00)) (vsn fmt args)"

section \<open>The digits of a number\<close>

definition digit_value :: "char \<Rightarrow> nat" where
  "digit_value c = (let n = of_char c in if n < 58 then n - 48 else if n < 91 then n - 55 else n - 87)"

text \<open>The number a string of digits denotes, most significant digit first.\<close>

definition number_of_digits :: "nat \<Rightarrow> string \<Rightarrow> nat" where
  "number_of_digits base cs = foldl (\<lambda>n c. n * base + digit_value c) 0 cs"

lemma digit_value_char: "d < 16 \<Longrightarrow> digit_value (digit_char upper d) = d"
  by (auto simp: digit_value_def digit_char_def Let_def of_char_of take_bit_nat_eq_self)

lemma number_of_digits_rev:
  "number_of_digits base (rev cs) = foldr (\<lambda>c n. digit_value c + base * n) cs 0"
  by (simp add: number_of_digits_def foldl_conv_foldr algebra_simps)

lemma digits_number:
  assumes "2 \<le> base" and "base \<le> 16" and "len < NTOA_BUFFER_SIZE"
  shows "number_of_digits (unat base) (rev (digits upper base v len)) =
    unat v mod unat base ^ (NTOA_BUFFER_SIZE - len)"
  unfolding number_of_digits_rev using assms
proof (induction upper base v len rule: digits.induct)
  case (1 upper base v len)
  let ?b = "unat base" and ?d = "NTOA_BUFFER_SIZE - Suc len"
  have b: "2 \<le> ?b" "?b \<le> 16" using "1.prems"(1,2) by (simp_all add: word_le_nat_alt)
  have "0 < ?b" using b by linarith
  then have "unat v mod ?b < ?b" by (rule mod_less_divisor)
  then have "unat v mod ?b < 16" using b by linarith
  then have "unat (v mod base) < 16" by (simp add: unat_mod)
  then have dig: "digit_value (digit_char upper (unat (v mod base))) = unat v mod ?b"
    by (simp add: digit_value_char unat_mod)
  have exp: "?b ^ (NTOA_BUFFER_SIZE - len) = ?b * ?b ^ ?d"
    using "1.prems"(3) by (metis Suc_diff_Suc power_Suc)
  have split: "unat v mod (?b * ?b ^ ?d) = unat v mod ?b + ?b * (unat v div ?b mod ?b ^ ?d)"
    by (simp add: mod_mult2_eq)
  show ?case
  proof (cases "v div base \<noteq> 0 \<and> Suc len < NTOA_BUFFER_SIZE")
    case True
    then have "foldr (\<lambda>c n. digit_value c + ?b * n) (digits upper base (v div base) (Suc len)) 0 =
        unat (v div base) mod ?b ^ ?d"
      using 1 by simp
    then show ?thesis using True by (simp add: digits.simps [of upper base v] dig exp split unat_div)
  next
    case False
    then have "v div base = 0 \<or> \<not> Suc len < NTOA_BUFFER_SIZE" by simp
    then have "unat v div ?b mod ?b ^ ?d = 0"
    proof
      assume "v div base = 0"
      then have "unat (v div base) = 0" by simp
      then show ?thesis by (simp add: unat_div)
    next
      assume "\<not> Suc len < NTOA_BUFFER_SIZE"
      then show ?thesis by simp
    qed
    then show ?thesis using False by (auto simp: digits.simps [of upper base v] dig exp split)
  qed
qed

lemma digits_length: "len < NTOA_BUFFER_SIZE \<Longrightarrow> length (digits upper base v len) \<le> NTOA_BUFFER_SIZE - len"
proof (induction upper base v len rule: digits.induct)
  case (1 upper base v len)
  then show ?case by (subst digits.simps) auto
qed

text \<open>A conversion without flags, width and precision prints the digits.\<close>

lemmas conversion_defs = convert_def parse_width_def parse_precision_def parse_length_def peek_def
  is_digit_def int_specifiers_def

lemma format_long_plain:
  "format_int (CHR ''u'') (no_flags\<lparr>long_arg := True\<rparr>) 0 0 v = rev (digits False 10 v 0)"
  "format_int (CHR ''x'') (no_flags\<lparr>long_arg := True\<rparr>) 0 0 v = rev (digits False 16 v 0)"
  "format_int (CHR ''o'') (no_flags\<lparr>long_arg := True\<rparr>) 0 0 v = rev (digits False 8 v 0)"
  "format_int (CHR ''b'') (no_flags\<lparr>long_arg := True\<rparr>) 0 0 v = rev (digits False 2 v 0)"
  by (simp_all add: format_int_def ntoa_long_def ntoa_format_def no_flags_def Let_def pad_zeros_def
      out_rev_def spaces_def)

lemma plain_long_conversion:
  "vsn ''%lu'' [Num v] = Some (rev (digits False 10 v 0))"
  "vsn ''%lx'' [Num v] = Some (rev (digits False 16 v 0))"
  "vsn ''%lo'' [Num v] = Some (rev (digits False 8 v 0))"
  "vsn ''%lb'' [Num v] = Some (rev (digits False 2 v 0))"
  by (simp_all add: conversion_defs format_long_plain Let_def)

section \<open>Text in memory\<close>

lemma out_text_mem:
  assumes "unat idx + length cs < 2 ^ 64"
  shows "out_text cs buffer idx maxlen m p =
    (if unat idx \<le> unat (p - buffer) \<and> unat (p - buffer) < unat idx + length cs \<and> p - buffer < maxlen
     then of_nat (of_char (cs ! (unat (p - buffer) - unat idx))) else m p)"
  using assms
proof (induction cs arbitrary: idx m)
  case Nil
  then show ?case by auto
next
  case (Cons c cs)
  have idx: "unat (idx + 1) = Suc (unat idx)" using Cons.prems by (intro unat_inc [where n = "0xFFFFFFFFFFFFFFFF"]) (simp add: word_less_nat_alt)
  have eq: "p = buffer + idx \<longleftrightarrow> unat (p - buffer) = unat idx"
    by (metis add_diff_cancel_left' diff_add_cancel add.commute word_unat_eq_iff)
  have nth: "(c # cs) ! (unat (p - buffer) - unat idx) = cs ! (unat (p - buffer) - Suc (unat idx))"
    if "Suc (unat idx) \<le> unat (p - buffer)" using that by (simp add: nth_Cons')
  have "out_text (c # cs) buffer idx maxlen m p =
    (if Suc (unat idx) \<le> unat (p - buffer) \<and> unat (p - buffer) < Suc (unat idx) + length cs
        \<and> p - buffer < maxlen
     then of_nat (of_char (cs ! (unat (p - buffer) - Suc (unat idx))))
     else out_buffer c buffer idx maxlen m p)"
    using Cons idx by simp
  moreover have "out_buffer c buffer idx maxlen m p =
    (if unat (p - buffer) = unat idx \<and> p - buffer < maxlen then of_nat (of_char c) else m p)"
    using eq by (auto simp: out_buffer_def word_unat_eq_iff word_less_nat_alt)
  ultimately show ?case using nth by (auto simp: le_less Suc_le_eq)
qed

lemma offset_eq_iff: "p - buffer = i \<longleftrightarrow> p = buffer + (i :: u64)"
  by (auto simp: algebra_simps)

lemma vsnprintf_mem:
  assumes "vsn fmt args = Some cs" and "buffer \<noteq> 0" and "0 < count" and "length cs < 2 ^ 64"
  obtains s' where "vsnprintf buffer count fmt args s = Done (of_nat (length cs)) s'"
    and "\<And>p. mem s' p =
      (if unat (p - buffer) < min (length cs) (unat count - 1) then of_nat (of_char (cs ! unat (p - buffer)))
       else if unat (p - buffer) = min (length cs) (unat count - 1) then 0 else mem s p)"
proof -
  let ?i = "of_nat (length cs) :: u64"
  let ?e = "if ?i < count then ?i else count - 1"
  let ?m = "out_buffer (CHR 0x00) buffer ?e count (out_text cs buffer 0 count (mem s))"
  have i: "unat ?i = length cs" using assms(4) by (simp add: unat_of_nat_less)
  have c: "0 < unat count" using assms(3) by (simp add: word_less_nat_alt)
  then have c1: "unat (count - 1) = unat count - 1" by (metis Suc_pred' add.commute diff_add_cancel diff_Suc_1 plus_1_eq_Suc unat_minus_one unat_eq_zero less_numeral_extra(3))
  have e: "unat ?e = min (length cs) (unat count - 1)" "?e < count"
    using i c c1 by (auto simp: word_less_nat_alt)
  have "?m p = (if unat (p - buffer) < min (length cs) (unat count - 1) then of_nat (of_char (cs ! unat (p - buffer)))
       else if unat (p - buffer) = min (length cs) (unat count - 1) then 0 else mem s p)" for p
  proof -
    have eq: "p = buffer + ?e \<longleftrightarrow> unat (p - buffer) = min (length cs) (unat count - 1)"
      unfolding e(1) [symmetric] word_unat_eq_iff [symmetric] by (rule offset_eq_iff [symmetric])
    have cs: "out_text cs buffer 0 count (mem s) p =
      (if unat (p - buffer) < length cs \<and> unat (p - buffer) < unat count
       then of_nat (of_char (cs ! unat (p - buffer))) else mem s p)"
      using assms(4) by (simp add: out_text_mem word_less_nat_alt)
    show ?thesis
      using e(2) c unfolding out_buffer_def by (simp add: eq cs) (auto simp: min_def split: if_splits)
  qed
  moreover have "vsnprintf buffer count fmt args s = Done (of_nat (length cs)) (s\<lparr>mem := ?m\<rparr>)"
    using assms(1,2,4) by (simp add: vsnprintf_def Let_def unsigned_of_nat take_bit_nat_eq_self)
  ultimately show thesis by (intro that) auto
qed

section \<open>Properties\<close>

text \<open>
  Text without conversions is printed as it is, whatever the arguments.
\<close>

lemma printf_verbatim:
  assumes "CHR ''%'' \<notin> set fmt"
  shows "vsn (fmt @ rest) args = map_option (append fmt) (vsn rest args)"
  using assms by (induction fmt) (cases "vsn rest args"; auto)+

text \<open>
  C18. The digits denote the number: the conversions \<open>%lu\<close>, \<open>%lx\<close> and \<open>%lo\<close> print a
  numeral of base 10, 16 and 8 whose value is the argument, for every 64-bit argument; \<open>%lb\<close>
  prints 32 binary digits at most, the low ones (the conversion buffer has 32 bytes).
\<close>

theorem printed_digits_denote_number:
  assumes "(c, base) \<in> {(CHR ''u'', 10), (CHR ''x'', 16), (CHR ''o'', 8), (CHR ''b'', 2)}"
  shows "\<exists>txt. vsn [CHR ''%'', CHR ''l'', c] [Num v] = Some txt
    \<and> number_of_digits base txt = unat v mod base ^ 32
    \<and> (c \<noteq> CHR ''b'' \<longrightarrow> number_of_digits base txt = unat v)"
proof -
  have "vsn [CHR ''%'', CHR ''l'', c] [Num v] = Some (rev (digits False (of_nat base) v 0))"
    using assms plain_long_conversion by auto
  moreover have "number_of_digits base (rev (digits False (of_nat base) v 0)) = unat v mod base ^ 32"
    using assms digits_number [of "of_nat base" 0 False v] by (auto simp: NTOA_BUFFER_SIZE_def)
  moreover have "unat v mod base ^ 32 = unat v" if "c \<noteq> CHR ''b''"
  proof -
    have "(2 ^ 64 :: nat) \<le> 8 ^ 32" "(8 :: nat) ^ 32 \<le> base ^ 32"
      using assms that by (auto intro: power_mono)
    then show ?thesis using unsigned_less [of v, where ?'a = nat] by (intro mod_less) simp
  qed
  ultimately show ?thesis by auto
qed

theorem printed_digits_denote_number_witness:
  "\<exists>txt. vsn ''%lu'' [Num 18446744073709551615] = Some txt
    \<and> number_of_digits 10 txt = 18446744073709551615"
  using printed_digits_denote_number [of "CHR ''u''" 10 "18446744073709551615"] by auto

text \<open>
  C19. \<open>snprintf\<close> into a buffer of \<open>count\<close> bytes returns the length of the whole text, stores as
  much of its front as leaves room for the terminating null, stores that null right after it, and
  changes no byte outside the buffer.
\<close>

theorem snprintf_fills_buffer:
  assumes "vsn fmt args = Some cs" and "buffer \<noteq> 0" and "0 < count" and "length cs < 2 ^ 64"
  shows "\<exists>s'. snprintf buffer count fmt args s = Done (of_nat (length cs)) s'
    \<and> (\<forall>i < min (length cs) (unat count - 1). mem s' (buffer + of_nat i) = of_nat (of_char (cs ! i)))
    \<and> mem s' (buffer + of_nat (min (length cs) (unat count - 1))) = 0
    \<and> (\<forall>p. count \<le> p - buffer \<longrightarrow> mem s' p = mem s p)"
proof -
  let ?n = "min (length cs) (unat count - 1)"
  obtain s' where run: "vsnprintf buffer count fmt args s = Done (of_nat (length cs)) s'"
    and mem: "mem s' p = (if unat (p - buffer) < ?n then of_nat (of_char (cs ! unat (p - buffer)))
       else if unat (p - buffer) = ?n then 0 else mem s p)" for p
    using vsnprintf_mem [OF assms, of s] by blast
  have pos: "0 < unat count" using assms(3) by (simp add: word_less_nat_alt)
  have "unat (of_nat i :: u64) = i" if "i \<le> ?n" for i
    using that assms(4) by (intro unat_of_nat_less) auto
  then have inside: "mem s' (buffer + of_nat i) =
      (if i < ?n then of_nat (of_char (cs ! i)) else 0)" if "i \<le> ?n" for i
    using that by (auto simp: mem)
  have "mem s' p = mem s p" if "count \<le> p - buffer" for p
    using that pos by (auto simp: mem word_le_nat_alt)
  with run inside show ?thesis by (auto simp: snprintf_def)
qed

theorem snprintf_fills_buffer_witness:
  "\<exists>s'. snprintf 4096 4 ''adaOS'' [] example_machine = Done 5 s'
    \<and> mem s' 4096 = 97 \<and> mem s' 4098 = 97 \<and> mem s' 4099 = 0 \<and> mem s' 4100 = mem example_machine 4100"
proof -
  obtain s' where run: "snprintf 4096 4 ''adaOS'' [] example_machine = Done (of_nat (length ''adaOS'')) s'"
    and front: "\<forall>i < min (length ''adaOS'') (unat (4 :: u64) - 1).
      mem s' (4096 + of_nat i) = of_nat (of_char (''adaOS'' ! i))"
    and null: "mem s' (4096 + of_nat (min (length ''adaOS'') (unat (4 :: u64) - 1))) = 0"
    and frame: "\<forall>p. 4 \<le> p - 4096 \<longrightarrow> mem s' p = mem example_machine p"
    using snprintf_fills_buffer [of "''adaOS''" "[]" "''adaOS''" 4096 4 example_machine] by auto
  have "mem s' 4096 = 97" "mem s' 4098 = 97"
    using front [rule_format, of 0] front [rule_format, of 2] by simp_all
  with run null frame show ?thesis by auto
qed

end
