(* ===== verification/Acpi.thy ===== *)
theory Acpi
  imports Local_Apic Printf
begin

text \<open>
  The ACPI tables, \<open>platform/x86_64/acpi.c\<close>: signatures and checksums, the search of a table in the
  RSDT, the records of the MADT, which are copied into one array per record type, and the start-up
  sequence.
\<close>

section \<open>State\<close>

text \<open>
  \<open>rsdp_response\<close> is the boot loader's response, a possibly null pointer to an address. The arrays
  of the MADT records, their base pointers and their lengths, are indexed by the record type:
  \<open>local_apics\<close> is \<open>madt_ptr s 0\<close>, \<open>io_apics\<close> is \<open>madt_ptr s 1\<close>, and so on.
\<close>

record acpi = lapic +
  rsdp_response :: "u64 option"
  fadt :: u64
  facs_ptr :: u64
  madt_ptr :: "u8 \<Rightarrow> u64"
  madt_num :: "u8 \<Rightarrow> u32"

definition sdt_header_size :: u64 where "sdt_header_size = 36"
definition MADT_FLAGS_OFFSET :: u64 where "MADT_FLAGS_OFFSET = 0x28"
definition MADT_RECORD_OFFSET :: u64 where "MADT_RECORD_OFFSET = 0x2c"

definition MADT_TYPES_TO_STRING :: "string list" where
  "MADT_TYPES_TO_STRING = [''Local APIC'', ''I/O APIC'', ''I/O APIC interrupt source override'',
     ''I/O APIC non-maskable interrupt source'', ''Local APIC non-maskable interrupt'',
     ''Local APIC address override'', ''Unkown/Unused'', ''Unkown/Unused'', ''Unkown/Unused'',
     ''Processor local x2APIC'']"

definition get_rsdp :: "'z acpi_scheme \<Rightarrow> (u64 option, 'z acpi_scheme) outcome" where
  "get_rsdp s = (case rsdp_response s of
     Some a \<Rightarrow> if a \<noteq> 0 then Done (Some a) s
       else Done None (k_err ''Failed getting RSDP! ACPI likely not supported.'' [] s)
   | None \<Rightarrow> Done None (k_err ''Failed getting RSDP! ACPI likely not supported.'' [] s))"

section \<open>Signatures and checksums\<close>

text \<open>\<open>memcmp\<close> of memory with a string literal is zero.\<close>

definition literal_at :: "memory \<Rightarrow> u64 \<Rightarrow> string \<Rightarrow> bool" where
  "literal_at m a lit \<longleftrightarrow> map (\<lambda>i. m (a + of_nat i)) [0..<length lit] = map (of_nat \<circ> of_char) lit"

definition text_at :: "memory \<Rightarrow> u64 \<Rightarrow> nat \<Rightarrow> string" where
  "text_at m a n = map (\<lambda>i. char_of (unat (m (a + of_nat i)))) [0..<n]"

definition quoted :: "string \<Rightarrow> string" where "quoted s = CHR 0x27 # s @ [CHR 0x27]"

text \<open>A panic whose message is formatted into a freshly allocated buffer.\<close>

definition panic_formatted :: "u64 \<Rightarrow> string \<Rightarrow> fmt_arg list \<Rightarrow> 'z acpi_scheme \<Rightarrow> (unit, 'z acpi_scheme) outcome" where
  "panic_formatted buf_size fmt args s =
     bindO (kmalloc buf_size s) (\<lambda>buf s.
     bindO (sprintf buf fmt args s) (\<lambda>_ s.
     panic (if buf = 0 then [] else case vsn fmt args of None \<Rightarrow> [] | Some txt \<Rightarrow> txt) s))"

definition check_header_signature :: "u64 \<Rightarrow> string \<Rightarrow> 'z acpi_scheme \<Rightarrow> (unit, 'z acpi_scheme) outcome" where
  "check_header_signature header expected s =
     (if literal_at (mem s) header expected then Done () s
      else panic_formatted (34 + 4 + 4) (''Expected signature of '' @ quoted ''%.4s'' @ '', got '' @ quoted ''%.4s'' @ ''!'')
        [Str (text_at (mem s) header 4), Str expected] s)"

definition byte_sum :: "memory \<Rightarrow> u64 \<Rightarrow> nat \<Rightarrow> u8" where
  "byte_sum m a n = fold (\<lambda>i sum. sum + m (a + of_nat i)) [0..<n] 0"

definition checksum_header :: "u64 \<Rightarrow> 'z acpi_scheme \<Rightarrow> (unit, 'z acpi_scheme) outcome" where
  "checksum_header header s =
     (if byte_sum (mem s) header (unat (read32 (mem s) (header + 4))) \<noteq> 0
      then panic ''Bad checksum for table!'' s else Done () s)"

section \<open>The search\<close>

fun find_in :: "u64 \<Rightarrow> string \<Rightarrow> nat list \<Rightarrow> 'z acpi_scheme \<Rightarrow> (u64, 'z acpi_scheme) outcome" where
  "find_in rsdt signature [] s = Done 0 s"
| "find_in rsdt signature (i # is) s =
     bindO (get_hhdm s) (\<lambda>hhdm s.
     let phys = ucast (read32 (mem s) (rsdt + sdt_header_size + 4 * of_nat i));
         vert = phys + hhdm
     in bindO (map_kernel vert phys (PTE_NX OR PTE_PCD) s) (\<lambda>_ s.
        if literal_at (mem s) vert signature then Done vert s else find_in rsdt signature is s))"

definition find_table :: "u64 \<Rightarrow> string \<Rightarrow> 'z acpi_scheme \<Rightarrow> (u64, 'z acpi_scheme) outcome" where
  "find_table rsdt signature s =
     (let entries = ucast ((ucast (read32 (mem s) (rsdt + 4)) - sdt_header_size) div 4 :: u64) :: u32
      in find_in rsdt signature [0..<unat entries] s)"

section \<open>The records of the MADT\<close>

text \<open>The sizes of the structures \<open>madt_type_0\<close> to \<open>madt_type_9\<close>.\<close>

definition madt_size :: "u8 \<Rightarrow> u64 option" where
  "madt_size ty = (if ty = 0 then Some 6 else if ty = 1 then Some 10 else if ty = 2 then Some 8
     else if ty = 3 then Some 8 else if ty = 4 then Some 4 else if ty = 5 then Some 10
     else if ty = 9 then Some 14 else None)"

text \<open>One record: its structure is copied to element \<open>i\<close> of the array of its type.\<close>

definition madt_record :: "u64 \<Rightarrow> u8 \<Rightarrow> u64 \<Rightarrow> 'z acpi_scheme \<Rightarrow> (unit, 'z acpi_scheme) outcome" where
  "madt_record rec ty i s =
     (case madt_size ty of
        Some sz \<Rightarrow>
          if madt_ptr s ty = 0 then Stop (Fault ''null array'') s
          else Done () (s\<lparr>mem := copied (madt_ptr s ty + i * sz) (rec + 2) sz (mem s),
                          madt_num := (madt_num s)(ty := madt_num s ty + 1)\<rparr>)
      | None \<Rightarrow>
          if unat ty < length MADT_TYPES_TO_STRING
          then Done () (k_wrn ''Unkown MADT type %d (%s)!''
            [Num (ucast ty), Str (MADT_TYPES_TO_STRING ! unat ty)] s)
          else Stop (Fault ''MADT_TYPES_TO_STRING out of bounds'') s)"

text \<open>
  The loop over the records. \<open>prev\<close> is the type of the record before, or none; the uninitialised
  \<open>last_type\<close> of the first iteration does not matter, since \<open>i\<close> is 0 there. A record of length 0
  is visited for ever.
\<close>

function madt_loop :: "u64 \<Rightarrow> u64 \<Rightarrow> u8 option \<Rightarrow> u64 \<Rightarrow> 'z acpi_scheme \<Rightarrow> (unit, 'z acpi_scheme) outcome" where
  "madt_loop madt offset prev i s =
     (if offset < ucast (read32 (mem s) (madt + 4)) then
        let rec = madt + offset;
            ty = mem s rec;
            len = mem s (rec + 1);
            i = (if prev = Some ty then i else 0)
        in bindO (madt_record rec ty i s) (\<lambda>_ s.
           if len = 0 then Stop Hang s
           else madt_loop madt (offset + ucast len) (Some ty) (i + 1) s)
      else Done () s)"
  by pat_completeness auto
termination
proof (relation "measure (\<lambda>(madt, offset, prev, i, s). 2 ^ 32 - unat offset)", goal_cases)
  case 1
  then show ?case by simp
next
  case (2 madt offset prev i s rec ty len i' u s')
  have "unat offset < unat (ucast (read32 (mem s) (madt + 4)) :: u64)"
    using 2(1) by (simp add: word_less_nat_alt)
  then have off: "unat offset < 2 ^ 32"
    using unsigned_less [of "read32 (mem s) (madt + 4)", where ?'a = nat] by simp
  have len: "0 < unat len" "unat len < 2 ^ 8"
    using 2(7) unsigned_less [of len, where ?'a = nat] by (simp_all add: unat_gt_0)
  have "unat (offset + ucast len) = unat offset + unat len"
    using off len by (subst unat_add_less) simp_all
  then show ?case using off len by simp
qed

declare madt_loop.simps [simp del]

definition madt_alloc :: "u64 \<Rightarrow> u8 \<Rightarrow> 'z acpi_scheme \<Rightarrow> (unit, 'z acpi_scheme) outcome" where
  "madt_alloc madt ty s =
     bindO (kmalloc (ucast (read32 (mem s) (madt + 4))) s) (\<lambda>p s.
     Done () (s\<lparr>madt_ptr := (madt_ptr s)(ty := p), madt_num := (madt_num s)(ty := 0)\<rparr>))"

definition parse_madt :: "u64 \<Rightarrow> 'z acpi_scheme \<Rightarrow> (unit, 'z acpi_scheme) outcome" where
  "parse_madt madt s =
     bindO (for_each [0, 1, 2, 3, 4, 5, 9] (madt_alloc madt) s) (\<lambda>_ s.
     if read32 (mem s) (madt + MADT_FLAGS_OFFSET) = 0
     then panic ''TODO: Handel edge case where dual 8259 legacy PICs installed for serial.'' s
     else bindO (madt_loop madt MADT_RECORD_OFFSET None 0 s) (\<lambda>_ s.
     if 0 < madt_num s 5 then panic ''TODO: Use LAPIC address overrides!'' s else Done () s))"

section \<open>Start-up\<close>

text \<open>The offsets of the fields of \<open>struct fadt\<close> that are read.\<close>

definition FADT_FIRMWARE_CTRL :: u64 where "FADT_FIRMWARE_CTRL = 36"
definition FADT_SMI_COMMAND_PORT :: u64 where "FADT_SMI_COMMAND_PORT = 48"
definition FADT_CENTURY :: u64 where "FADT_CENTURY = 108"
definition FADT_X_FIRMWARE_CONTROL :: u64 where "FADT_X_FIRMWARE_CONTROL = 132"

definition check_rsdp :: "u64 \<Rightarrow> 'z acpi_scheme \<Rightarrow> (unit, 'z acpi_scheme) outcome" where
  "check_rsdp virt s =
     bindO (if literal_at (mem s) virt ''RSD PTR'' then Done () s
            else panic_formatted (47 + 8) (''Expected RSDP signature of '' @ quoted ''RSD PTR '' @ '', got '' @ quoted ''%.8s'' @ ''!'')
              [Str (text_at (mem s) virt 8)] s) (\<lambda>_ s.
     let s = (if mem s (virt + 15) \<noteq> 0
              then k_wrn ''Only RSDP rev. 0 is supported & tested! Things might break.'' [] s else s)
     in if byte_sum (mem s) virt 20 \<noteq> 0 then panic ''Bad RSDP header checksum!'' s else Done () s)"

definition read_fadt :: "u64 \<Rightarrow> 'z acpi_scheme \<Rightarrow> (unit, 'z acpi_scheme) outcome" where
  "read_fadt table s =
     (let s = s\<lparr>fadt := table\<rparr>;
          s = (if read32 (mem s) (table + FADT_SMI_COMMAND_PORT) \<noteq> 0
               then emit (LogMsg Lvl_todo ''Support SMI Command / System Management Mode'' []) s else s);
          ctrl = read32 (mem s) (table + FADT_FIRMWARE_CTRL);
          x_ctrl = read64 (mem s) (table + FADT_X_FIRMWARE_CONTROL)
      in if ctrl \<noteq> 0 then Done () (s\<lparr>facs_ptr := ucast ctrl\<rparr>)
         else if x_ctrl \<noteq> 0
         then Done () ((k_wrn ''Uing X_FACS, this might not work!'' [] s)\<lparr>facs_ptr := x_ctrl\<rparr>)
         else panic ''Something went horribly wrong parsing FADT, FACS pointer was NULL!'' s)"

definition bootstrap_acpi :: "'z acpi_scheme \<Rightarrow> (unit, 'z acpi_scheme) outcome" where
  "bootstrap_acpi s =
     bindO (get_rsdp s) (\<lambda>rsdp s.
     case rsdp of None \<Rightarrow> Stop (Fault ''null RSDP response'') s
     | Some phys \<Rightarrow>
     bindO (get_hhdm s) (\<lambda>hhdm s.
     let virt = phys + hhdm in
     bindO (map_kernel virt phys (PTE_PCD OR PTE_NX) s) (\<lambda>ok s.
     if \<not> ok then Done () (k_err ''Could not map RSDP!'' [] s)
     else bindO (check_rsdp virt s) (\<lambda>_ s.
     let phys = ucast (read32 (mem s) (virt + 16)) in
     bindO (get_hhdm s) (\<lambda>hhdm s.
     let rsdt = phys + hhdm in
     bindO (map_kernel rsdt phys (PTE_PCD OR PTE_NX) s) (\<lambda>ok s.
     if \<not> ok then panic ''Could not map RSDT!'' s
     else bindO (check_header_signature rsdt ''RSDT'' s) (\<lambda>_ s.
     bindO (checksum_header rsdt s) (\<lambda>_ s.
     bindO (find_table rsdt ''APIC'' s) (\<lambda>madt s.
     if madt = 0 then panic ''Could not find LAPIC (MADT) table!'' s
     else bindO (checksum_header madt s) (\<lambda>_ s.
     bindO (parse_madt madt s) (\<lambda>_ s.
     bindO (find_table rsdt ''FACP'' s) (\<lambda>table s.
     if table = 0 then panic ''Could not find FADT table!'' s
     else bindO (checksum_header table s) (\<lambda>_ s.
     read_fadt table s)))))))))))))"

section \<open>Records of one type\<close>

lemma madt_size_cases: "madt_size ty = Some z \<Longrightarrow> unat z \<le> 14 \<and> 0 < unat z"
  by (auto simp: madt_size_def split: if_splits)

lemma madt_step:
  assumes "madt_size ty = Some z" and "madt_ptr s ty \<noteq> 0"
    and "off < unat (read32 (mem s) (madt + 4))"
    and "mem s (madt + of_nat off) = ty" and "mem s (madt + of_nat off + 1) = len" and "len \<noteq> 0"
  shows "madt_loop madt (of_nat off) prev i s =
    madt_loop madt (of_nat (off + unat len)) (Some ty) ((if prev = Some ty then i else 0) + 1)
      (s\<lparr>mem := copied (madt_ptr s ty + (if prev = Some ty then i else 0) * z) (madt + of_nat off + 2) z (mem s),
         madt_num := (madt_num s)(ty := madt_num s ty + 1)\<rparr>)"
proof -
  have "off < 2 ^ 64"
    using assms(3) unsigned_less [of "read32 (mem s) (madt + 4)", where ?'a = nat] by simp
  then have lt: "(of_nat off :: u64) < ucast (read32 (mem s) (madt + 4))"
    using assms(3) by (simp add: word_less_nat_alt unat_of_nat_less)
  have "(of_nat off :: u64) + ucast len = of_nat (off + unat len)" by simp
  then show ?thesis
    using assms(1,2,4-6) lt by (subst madt_loop.simps) (simp add: madt_record_def Let_def del: of_nat_add)
qed

lemma array_element:
  assumes "N * z \<le> 2 ^ 64" and "j < N" and "b < z"
  shows "unat (p + of_nat (j * z + b) - p :: u64) = j * z + b" and "j * z + b < N * z"
proof -
  have "(j + 1) * z \<le> N * z" using assms(2) by (intro mult_right_mono) auto
  then show lt: "j * z + b < N * z" using assms(3) by simp
  show "unat (p + of_nat (j * z + b) - p :: u64) = j * z + b"
    by (rule unat_add_offset [OF assms(1) lt])
qed

lemma outside_element:
  assumes "a + z \<le> 2 ^ 64" and "unat y < a \<or> a + z \<le> unat y"
  shows "z \<le> unat (y - of_nat a :: u64)"
proof (cases "z = 0")
  case False
  then have a: "unat (of_nat a :: u64) = a" using assms(1) by (intro unat_of_nat_less) simp
  show ?thesis using assms unfolding word_diff_cases a by auto
qed simp

text \<open>Copying one element of the array of a type leaves the other elements and the MADT as they are.\<close>

lemma element_copied:
  fixes madt p src :: u64
  assumes z: "z \<le> 14" and apart: "disjoint_ranges p (N * z) madt L" and j: "j < N"
    and m': "m' = copied (p + of_nat j * of_nat z) src (of_nat z) m"
  shows "unat (x - p) < j * z \<or> (j + 1) * z \<le> unat (x - p) \<Longrightarrow> m' x = m x"
    and "k < L \<Longrightarrow> m' (madt + of_nat k) = m (madt + of_nat k)"
    and "8 \<le> L \<Longrightarrow> read32 m' (madt + 4) = read32 m (madt + 4)"
    and "b < z \<Longrightarrow> m' (p + of_nat (j * z + b)) = m (src + of_nat b)"
proof -
  have le: "(j + 1) * z \<le> N * z" using j by (intro mult_right_mono) auto
  have "N * z \<le> 2 ^ 64"
    using apart unsigned_less [of "madt - p", where ?'a = nat] by (simp add: disjoint_ranges_def)
  then have room: "j * z + z \<le> 2 ^ 64" using le by simp
  have z64: "z < 2 ^ 64" using z by simp
  have at: "p + of_nat j * of_nat z = p + of_nat (j * z)" by simp
  show outside: "m' x = m x" if "unat (x - p) < j * z \<or> (j + 1) * z \<le> unat (x - p)" for x
  proof -
    have "unat (x - p) < j * z \<or> j * z + z \<le> unat (x - p)" using that by (simp add: algebra_simps)
    with room have "z \<le> unat ((x - p) - of_nat (j * z))" by (rule outside_element)
    then have "z \<le> unat (x - (p + of_nat (j * z)))" by (simp only: diff_diff_eq)
    from copied_outside [OF z64 this] show ?thesis by (simp add: m' at del: of_nat_mult)
  qed
  show table: "m' (madt + of_nat k) = m (madt + of_nat k)" if "k < L" for k
    using unat_offset_other [OF apart that] le by (intro outside) linarith
  show "read32 m' (madt + 4) = read32 m (madt + 4)" if "8 \<le> L"
  proof (rule load_le_cong)
    fix k :: nat assume "k < 4"
    then show "m' (madt + 4 + of_nat k) = m (madt + 4 + of_nat k)"
      using table [of "4 + k"] that by (simp add: add.assoc)
  qed
  show "m' (p + of_nat (j * z + b)) = m (src + of_nat b)" if "b < z"
    using copied_inside [OF that z64, of "p + of_nat (j * z)" src m] by (simp add: m' add.assoc)
qed

lemma madt_run:
  fixes madt p :: u64
  assumes "madt_size ty = Some (of_nat z)" and "z \<le> 14" and "z + 2 \<le> unat len"
    and "madt_ptr s ty = p" and "p \<noteq> 0"
    and "unat (read32 (mem s) (madt + 4)) = L" and "8 \<le> L" and "off + n * unat len \<le> L"
    and "disjoint_ranges p ((j + n) * z) madt L"
    and "\<forall>k < n. mem s (madt + of_nat (off + k * unat len)) = ty \<and> mem s (madt + of_nat (off + k * unat len + 1)) = len"
    and "(if prev = Some ty then i else 0) = of_nat j"
  shows "\<exists>t. madt_loop madt (of_nat off) prev i s =
      madt_loop madt (of_nat (off + n * unat len)) (if n = 0 then prev else Some ty) (if n = 0 then i else of_nat (j + n)) t
    \<and> (\<forall>k < n. \<forall>b < z. mem t (p + of_nat ((j + k) * z + b)) = mem s (madt + of_nat (off + k * unat len + 2 + b)))
    \<and> (\<forall>x. (j + n) * z \<le> unat (x - p) \<or> unat (x - p) < j * z \<longrightarrow> mem t x = mem s x)
    \<and> madt_num t = (madt_num s)(ty := madt_num s ty + of_nat n) \<and> madt_ptr t = madt_ptr s"
  using assms(4,6,8-11)
proof (induction n arbitrary: off j prev i s)
  case 0
  then show ?case by (intro exI [of _ s]) simp
next
  case (Suc n)
  let ?l = "unat len"
  let ?s = "s\<lparr>mem := copied (p + of_nat j * of_nat z) (madt + of_nat off + 2) (of_nat z) (mem s),
         madt_num := (madt_num s)(ty := madt_num s ty + 1)\<rparr>"
  have l: "0 < ?l" using assms(3) by simp
  have N: "(j + Suc n) * z \<le> 2 ^ 64"
    using Suc.prems(4) unsigned_less [of "madt - p", where ?'a = nat] by (simp add: disjoint_ranges_def)
  have here: "mem s (madt + of_nat off) = ty" "mem s (madt + of_nat off + 1) = len"
    using Suc.prems(5) [rule_format, of 0] by (simp_all add: ac_simps)
  have "off < L" using Suc.prems(3) l by simp
  then have step: "madt_loop madt (of_nat off) prev i s = madt_loop madt (of_nat (off + ?l)) (Some ty) (of_nat (j + 1)) ?s"
  proof -
    have "madt_ptr s ty \<noteq> 0" "off < unat (read32 (mem s) (madt + 4))" "len \<noteq> 0"
      using Suc.prems(1,2) assms(5) \<open>off < L\<close> l by auto
    from madt_step [OF assms(1) this(1,2) here this(3), of prev i] show ?thesis
      unfolding Suc.prems(6) Suc.prems(1) by (simp add: add.commute)
  qed
  note copy = element_copied [OF assms(2) Suc.prems(4), of j "mem ?s" "madt + of_nat off + 2" "mem s"]
  have outside: "mem ?s x = mem s x" if "unat (x - p) < j * z \<or> (j + 1) * z \<le> unat (x - p)" for x
    by (rule copy(1) [OF _ _ that]) simp_all
  have table: "mem ?s (madt + of_nat k) = mem s (madt + of_nat k)" if "k < L" for k
    by (rule copy(2) [OF _ _ that]) simp_all
  have "read32 (mem ?s) (madt + 4) = read32 (mem s) (madt + 4)" by (rule copy(3) [OF _ _ assms(7)]) simp_all
  then have len: "unat (read32 (mem ?s) (madt + 4)) = L" using Suc.prems(2) by simp
  have "\<exists>t. madt_loop madt (of_nat (off + ?l)) (Some ty) (of_nat (j + 1)) ?s =
      madt_loop madt (of_nat (off + ?l + n * ?l)) (if n = 0 then Some ty else Some ty)
        (if n = 0 then of_nat (j + 1) else of_nat (j + 1 + n)) t
    \<and> (\<forall>k < n. \<forall>b < z. mem t (p + of_nat ((j + 1 + k) * z + b)) = mem ?s (madt + of_nat (off + ?l + k * ?l + 2 + b)))
    \<and> (\<forall>x. (j + 1 + n) * z \<le> unat (x - p) \<or> unat (x - p) < (j + 1) * z \<longrightarrow> mem t x = mem ?s x)
    \<and> madt_num t = (madt_num ?s)(ty := madt_num ?s ty + of_nat n) \<and> madt_ptr t = madt_ptr ?s"
  proof (rule Suc.IH)
    show "off + ?l + n * ?l \<le> L" using Suc.prems(3) by simp
    then have "off + ?l + k * ?l + 1 < L" if "k < n" for k
    proof -
      have "(k + 1) * ?l \<le> n * ?l" using that by (intro mult_right_mono) auto
      then show ?thesis using \<open>off + ?l + n * ?l \<le> L\<close> assms(3) by simp
    qed
    moreover have "off + Suc k * ?l = off + ?l + k * ?l" for k by simp
    ultimately show "\<forall>k < n. mem ?s (madt + of_nat (off + ?l + k * ?l)) = ty
        \<and> mem ?s (madt + of_nat (off + ?l + k * ?l + 1)) = len"
      using Suc.prems(5) table by (metis Suc_mono add_lessD1)
  qed (use Suc.prems(1,4) len in simp_all)
  then obtain t where t: "madt_loop madt (of_nat (off + ?l)) (Some ty) (of_nat (j + 1)) ?s =
      madt_loop madt (of_nat (off + ?l + n * ?l)) (Some ty) (of_nat (j + 1 + n)) t"
    and elems: "\<And>k b. k < n \<Longrightarrow> b < z \<Longrightarrow>
      mem t (p + of_nat ((j + 1 + k) * z + b)) = mem ?s (madt + of_nat (off + ?l + k * ?l + 2 + b))"
    and frame: "\<And>x. (j + 1 + n) * z \<le> unat (x - p) \<or> unat (x - p) < (j + 1) * z \<Longrightarrow> mem t x = mem ?s x"
    and rest: "madt_num t = (madt_num ?s)(ty := madt_num ?s ty + of_nat n)" "madt_ptr t = madt_ptr ?s"
    by (auto split: if_splits)
  have "mem t (p + of_nat ((j + k) * z + b)) = mem s (madt + of_nat (off + k * ?l + 2 + b))"
    if "k < Suc n" "b < z" for k b
  proof (cases k)
    case 0
    have "j * z + b < (j + 1) * z" using that(2) by simp
    then have "mem t (p + of_nat (j * z + b)) = mem ?s (p + of_nat (j * z + b))"
      using array_element(1) [OF N _ that(2), of j p] by (intro frame) simp
    also have "\<dots> = mem s (madt + of_nat off + 2 + of_nat b)" by (rule copy(4) [OF _ _ that(2)]) simp_all
    finally show ?thesis using 0 by (simp add: algebra_simps)
  next
    case (Suc k')
    have "(k' + 2) * ?l \<le> Suc n * ?l" using that(1) Suc by (intro mult_right_mono) auto
    then have "off + ?l + k' * ?l + 2 + b < L" using Suc.prems(3) assms(3) that(2) by simp
    from table [OF this] show ?thesis using elems [of k' b] that Suc by (simp add: algebra_simps)
  qed
  moreover have "mem t x = mem s x" if "(j + Suc n) * z \<le> unat (x - p) \<or> unat (x - p) < j * z" for x
  proof -
    have "(j + 1) * z \<le> (j + Suc n) * z" by (intro mult_right_mono) auto
    moreover have "j * z \<le> (j + 1) * z" by simp
    moreover have e: "j + 1 + n = j + Suc n" by simp
    ultimately have "unat (x - p) < j * z \<or> (j + 1) * z \<le> unat (x - p)"
      and "(j + 1 + n) * z \<le> unat (x - p) \<or> unat (x - p) < (j + 1) * z"
      using that unfolding e by linarith+
    then show ?thesis using outside [of x] frame [of x] by (simp only:)
  qed
  ultimately show ?case using step t rest
    by (intro exI [of _ t]) (auto simp: algebra_simps)
qed

lemma read32_bytes:
  "read32 m a = ucast (m a) OR push_bit 8 (ucast (m (a + 1)) OR push_bit 8 (ucast (m (a + 2)) OR
     push_bit 8 (ucast (m (a + 3)))))"
  by (simp add: numeral_eq_Suc add.assoc)

section \<open>An example table\<close>

text \<open>A MADT at address 0x2000 with the given records, of 8 bytes each.\<close>

definition example_table :: "u8 list \<Rightarrow> memory" where
  "example_table records = (let bytes = [0, 0, 0, 0, 44 + of_nat (length records)] @ replicate 39 0 @ records in
     (\<lambda>a. if unat (a - 0x2000) < length bytes then bytes ! unat (a - 0x2000) else 0))"

definition example_acpi :: "u8 list \<Rightarrow> acpi" where
  "example_acpi records = (lapic.extend example_lapic
     (acpi.fields (Some 0x1000) 0 0 (\<lambda>ty. 0x10000 + 0x1000 * ucast ty) (\<lambda>_. 0)))\<lparr>mem := example_table records\<rparr>"

lemma example_acpi_sel [simp]:
  "mem (example_acpi records) = example_table records"
  "madt_ptr (example_acpi records) = (\<lambda>ty. 0x10000 + 0x1000 * ucast ty)"
  "madt_num (example_acpi records) = (\<lambda>_. 0)"
  by (simp_all add: example_acpi_def lapic.defs acpi.defs)

section \<open>Properties\<close>

text \<open>
  C33. A run of \<open>n\<close> records of one type that follows a record of another type, or starts the table,
  is copied: element \<open>k\<close> of the array of the type is the structure in the \<open>k\<close>-th record of the run,
  the counter of the type grows by \<open>n\<close>, nothing else in memory changes, and the loop goes on after
  the run.
\<close>

theorem madt_run_copied:
  fixes madt p :: u64
  assumes "madt_size ty = Some (of_nat z)" and "z \<le> 14" and "z + 2 \<le> unat len" and "0 < n"
    and "madt_ptr s ty = p" and "p \<noteq> 0"
    and "unat (read32 (mem s) (madt + 4)) = L" and "8 \<le> L" and "off + n * unat len \<le> L"
    and "disjoint_ranges p (n * z) madt L"
    and "\<forall>k < n. mem s (madt + of_nat (off + k * unat len)) = ty \<and> mem s (madt + of_nat (off + k * unat len + 1)) = len"
    and "prev \<noteq> Some ty"
  shows "\<exists>t. madt_loop madt (of_nat off) prev i s = madt_loop madt (of_nat (off + n * unat len)) (Some ty) (of_nat n) t
    \<and> (\<forall>k < n. \<forall>b < z. mem t (p + of_nat (k * z + b)) = mem s (madt + of_nat (off + k * unat len + 2 + b)))
    \<and> (\<forall>x. n * z \<le> unat (x - p) \<longrightarrow> mem t x = mem s x)
    \<and> madt_num t = (madt_num s)(ty := madt_num s ty + of_nat n)"
  using madt_run [of ty z len s p madt L off n 0 prev i] assms by auto

lemmas example_table_eval = example_table_def read32_bytes nth_append nth_replicate

theorem madt_run_copied_witness:
  "\<exists>t. madt_loop 0x2000 44 None 0 (example_acpi [0, 8, 1, 2, 3, 4, 5, 6, 0, 8, 11, 12, 13, 14, 15, 16]) =
      madt_loop 0x2000 60 (Some 0) 2 t
    \<and> mem t 0x10001 = 2 \<and> mem t 0x10006 = 11 \<and> madt_num t 0 = 2"
proof -
  let ?s = "example_acpi [0, 8, 1, 2, 3, 4, 5, 6, 0, 8, 11, 12, 13, 14, 15, 16]"
  have len: "unat (read32 (mem ?s) (0x2000 + 4)) = 60" by (simp add: example_table_eval)
  have recs: "\<forall>k < 2. mem ?s (0x2000 + of_nat (44 + k * unat (8 :: u8))) = 0
      \<and> mem ?s (0x2000 + of_nat (44 + k * unat (8 :: u8) + 1)) = 8"
    by (auto simp: example_table_eval less_2_cases_iff)
  have disj: "disjoint_ranges 0x10000 (2 * 6) 0x2000 60" by (simp add: disjoint_ranges_def)
  obtain t where run: "madt_loop 0x2000 (of_nat 44) None 0 ?s =
      madt_loop 0x2000 (of_nat (44 + 2 * unat (8 :: u8))) (Some 0) (of_nat 2) t"
    and elems: "\<forall>k < 2. \<forall>b < 6. mem t (0x10000 + of_nat (k * 6 + b)) =
      mem ?s (0x2000 + of_nat (44 + k * unat (8 :: u8) + 2 + b))"
    and num: "madt_num t = (madt_num ?s)(0 := madt_num ?s 0 + of_nat 2)"
    using madt_run_copied [where ty = 0 and z = 6 and len = 8 and n = 2 and s = ?s and p = "0x10000" and madt = "0x2000"
        and L = 60 and off = 44 and prev = None and i = 0] len recs disj
    by (auto simp: madt_size_def)
  have "mem t 0x10001 = 2" "mem t 0x10006 = 11"
    using elems [rule_format, of 0 1] elems [rule_format, of 1 0] by (simp_all add: example_table_eval)
  with run num show ?thesis by auto
qed



text \<open>
  When records of another type stand between two records of one type, the second one overwrites
  the first: the table with a local APIC, an NMI source and another local APIC is parsed with
  \<open>local_apic_num = 2\<close>, but element 0 of \<open>local_apics\<close> is the last record, and element 1 is not
  written.
\<close>

lemma madt_interleaved_overwritten:
  "\<exists>t. madt_loop 0x2000 44 None 0 (example_acpi
      [0, 8, 1, 2, 3, 4, 5, 6, 4, 8, 9, 9, 9, 9, 9, 9, 0, 8, 11, 12, 13, 14, 15, 16]) = Done () t
    \<and> madt_num t 0 = 2 \<and> mem t 0x10000 = 11 \<and> mem t 0x10001 = 12 \<and> mem t 0x10006 = 0"
proof -
  let ?s = "example_acpi [0, 8, 1, 2, 3, 4, 5, 6, 4, 8, 9, 9, 9, 9, 9, 9, 0, 8, 11, 12, 13, 14, 15, 16]"
  show ?thesis
    by (simp add: madt_loop.simps madt_record_def madt_size_def example_table_eval Let_def copied_def)
qed

end
