(* ===== verification/Io_Apic.thy ===== *)
theory Io_Apic
  imports Acpi
begin

text \<open>
  The IO APIC, \<open>platform/x86_64/ioapic.c\<close>: its indirect registers, the redirection entries, and the
  set-up of every IO APIC that the MADT lists.
\<close>

section \<open>State and registers\<close>

record ioapic = acpi +
  io_apic_system_int_base :: u8
  io_apic_max_entries :: u8

definition IO_APIC_ID :: u32 where "IO_APIC_ID = 0"
definition IO_APIC_VER :: u32 where "IO_APIC_VER = 1"
definition IO_APIC_ARB :: u32 where "IO_APIC_ARB = 2"

definition LO_REDIRECTION_FOR_N :: "u8 \<Rightarrow> u8" where "LO_REDIRECTION_FOR_N n = 0x10 + n * 2"
definition HI_REDIRECTION_FOR_N :: "u8 \<Rightarrow> u8" where "HI_REDIRECTION_FOR_N n = 0x10 + n * 2 + 1"

text \<open>The index register is at the base, the data register 16 bytes further.\<close>

definition write_io_apic_reg :: "u64 \<Rightarrow> u8 \<Rightarrow> u32 \<Rightarrow> 'z devices_scheme \<Rightarrow> 'z devices_scheme" where
  "write_io_apic_reg base offset val s = mmio_write (base + 16) val (mmio_write base (ucast offset) s)"

definition read_io_apic_reg :: "u64 \<Rightarrow> u32 \<Rightarrow> 'z devices_scheme \<Rightarrow> (u32, 'z devices_scheme) outcome" where
  "read_io_apic_reg base offset s = mmio_read (base + 16) (mmio_write base (offset AND 0xff) s)"

text \<open>A bit range that C leaves undefined.\<close>

definition defined :: "'a option \<Rightarrow> 's \<Rightarrow> ('a, 's) outcome" where
  "defined r s = (case r of None \<Rightarrow> Stop (Fault ''shift too far'') s | Some v \<Rightarrow> Done v s)"

text \<open>The code converts the pointer to the entry, not the entry, to 64 bits: \<open>entry\<close> is that address.\<close>

definition write_io_apic_redirection_entry ::
  "u64 \<Rightarrow> u64 \<Rightarrow> u8 \<Rightarrow> 'z ioapic_scheme \<Rightarrow> (unit, 'z ioapic_scheme) outcome" where
  "write_io_apic_redirection_entry base entry index s =
     (if io_apic_max_entries s < index
      then Done () (k_err ''Asked to write more than max IO APIC entries!'' [] s)
      else
        let s = (if 23 < index
                 then k_wrn ''Asked to write more than 23 entries (nominal maximum) to IO APIC!'' [] s else s);
            bytes_of_entry = ucast entry :: u32
        in bindO (defined (extract_bit_range bytes_of_entry 32 0) s) (\<lambda>lo s.
           let s = write_io_apic_reg base (LO_REDIRECTION_FOR_N index) lo s in
           bindO (defined (extract_bit_range bytes_of_entry 64 32) s) (\<lambda>hi s.
           Done () (write_io_apic_reg base (HI_REDIRECTION_FOR_N index) hi s))))"

section \<open>Set-up\<close>

text \<open>The loop over the NMI sources only warns.\<close>

definition check_nmi_source :: "u8 \<Rightarrow> u8 \<Rightarrow> nat \<Rightarrow> 'z ioapic_scheme \<Rightarrow> (unit, 'z ioapic_scheme) outcome" where
  "check_nmi_source lowest_irq highest_irq q s =
     (let gsi = read32 (mem s) (madt_ptr s 3 + 8 * of_nat q + 4) in
      Done () (if gsi < ucast highest_irq \<and> ucast lowest_irq < gsi
               then k_wrn ''TODO: IO APIC NMI sources.'' [] s else s))"

definition polarity_of_flags :: "u8 \<Rightarrow> 'z ioapic_scheme \<Rightarrow> (u8, 'z ioapic_scheme) outcome" where
  "polarity_of_flags flags s =
     bindO (defined (extract_bit_range (ucast flags) 1 0) s) (\<lambda>v s.
     if v = 3 \<or> v = 0 then Done 0 s else if v = 1 then Done 0xff s
     else Done 0 (k_wrn ''Got Reserved / Unkown NMI Polarity.'' [] s))"

definition trigger_of_flags :: "u8 \<Rightarrow> 'z ioapic_scheme \<Rightarrow> (u8, 'z ioapic_scheme) outcome" where
  "trigger_of_flags flags s =
     bindO (defined (extract_bit_range (ucast flags) 4 2) s) (\<lambda>v s.
     if v = 0 \<or> v = 1 then Done 0 s else if v = 3 then Done 0xff s
     else Done 0 (k_wrn ''Got Reserved / Unkown NMI Trigger Mode.'' [] s))"

text \<open>The loop over the interrupt source overrides; \<open>nmi_index\<close> counts the entries written.\<close>

fun write_overrides ::
  "u64 \<Rightarrow> u64 \<Rightarrow> u8 \<Rightarrow> u8 \<Rightarrow> u8 \<Rightarrow> nat list \<Rightarrow> 'z ioapic_scheme \<Rightarrow> (unit, 'z ioapic_scheme) outcome" where
  "write_overrides virt_base entry lowest_irq highest_irq nmi_index [] s = Done () s"
| "write_overrides virt_base entry lowest_irq highest_irq nmi_index (q # qs) s =
     (let p = madt_ptr s 2 + 8 * of_nat q;
          gsi = read32 (mem s) (p + 2);
          flags = ucast (read16 (mem s) (p + 6)) :: u8
      in if gsi < ucast highest_irq \<and> ucast lowest_irq < gsi then
           bindO (polarity_of_flags flags s) (\<lambda>_ s.
           bindO (trigger_of_flags flags s) (\<lambda>_ s.
           bindO (write_io_apic_redirection_entry virt_base entry nmi_index s) (\<lambda>_ s.
           write_overrides virt_base entry lowest_irq highest_irq (nmi_index + 1) qs s)))
         else write_overrides virt_base entry lowest_irq highest_irq nmi_index qs s)"

definition io_apic_reg :: "u64 \<Rightarrow> u32 \<Rightarrow> u8 \<Rightarrow> u8 \<Rightarrow> 'z ioapic_scheme \<Rightarrow> (u32, 'z ioapic_scheme) outcome" where
  "io_apic_reg base offset high low s =
     bindO (read_io_apic_reg base offset s) (\<lambda>v s. defined (extract_bit_range v high low) s)"

definition setup_one_io_apic :: "u64 \<Rightarrow> nat \<Rightarrow> 'z ioapic_scheme \<Rightarrow> (unit, 'z ioapic_scheme) outcome" where
  "setup_one_io_apic entry i s =
     (let p = madt_ptr s 1 + 10 * of_nat i;
          apic_id = mem s p;
          base = read32 (mem s) (p + 2)
      in bindO (get_hhdm s) (\<lambda>hhdm s.
         let virt_base = ucast base + hhdm in
         bindO (map_kernel virt_base (ucast base) (PTE_NX OR PTE_PCD OR PTE_WRITABLE) s) (\<lambda>ok s.
         if \<not> ok then panic ''Could not map page for IO APIC!'' s
         else
           let s = s\<lparr>io_apic_system_int_base := ucast (read32 (mem s) (p + 6))\<rparr> in
           bindO (io_apic_reg virt_base IO_APIC_VER 23 16 s) (\<lambda>max_entries s.
           let s = s\<lparr>io_apic_max_entries := ucast max_entries\<rparr>;
               highest_irq = io_apic_max_entries s + io_apic_system_int_base s;
               lowest_irq = io_apic_system_int_base s
           in bindO (read_io_apic_reg virt_base IO_APIC_ID s) (\<lambda>id_reg s.
              bindO (defined (test_bit_range id_reg 27 23 (ucast apic_id)) s) (\<lambda>same s.
              if \<not> same then panic ''APIC ID did not match expected value!'' s
              else
                let s = (if io_apic_max_entries s \<noteq> 23
                         then k_wrn ''IO_APIC with %d, not 23, IRQs serviceable; possible bug.''
                           [Num (ucast (io_apic_max_entries s))] s else s)
                in bindO (io_apic_reg virt_base IO_APIC_ID 27 24 s) (\<lambda>_ s.
                   bindO (io_apic_reg virt_base IO_APIC_VER 7 0 s) (\<lambda>_ s.
                   bindO (io_apic_reg virt_base IO_APIC_ARB 27 24 s) (\<lambda>_ s.
                   bindO (for_each [0..<unat (madt_num s 3)] (check_nmi_source lowest_irq highest_irq) s) (\<lambda>_ s.
                   write_overrides virt_base entry lowest_irq highest_irq 0 [0..<unat (madt_num s 2)] s))))))))))"

definition setup_io_apic :: "u64 \<Rightarrow> 'z ioapic_scheme \<Rightarrow> (unit, 'z ioapic_scheme) outcome" where
  "setup_io_apic entry s = for_each [0..<unat (madt_num s 1)] (setup_one_io_apic entry) s"

section \<open>Properties\<close>

text \<open>
  The indirect register access: reading a register after writing it selects the same register
  both times, writes the data once, and returns what the device answers to the last access.
\<close>

lemma io_apic_register_access:
  "read_io_apic_reg base (ucast offset) (write_io_apic_reg base offset val s) =
    (let w = io s @ [MmioOut base (ucast offset), MmioOut (base + 16) val, MmioOut base (ucast offset)];
         v = mmio_value s w (base + 16)
     in Done v (fold access [MmioOut base (ucast offset), MmioOut (base + 16) val,
          MmioOut base (ucast offset), MmioIn (base + 16) v] s))"
proof -
  have "(ucast offset :: u32) AND 0xff = ucast offset"
  proof -
    have m: "(0xff :: u32) = mask 8" by (simp add: mask_eq_exp_minus_1)
    show ?thesis unfolding m
      by (rule bit_word_eqI) (auto simp: bit_and_iff bit_mask_iff bit_unsigned_iff dest: bit_imp_le_length)
  qed
  then show ?thesis
    by (simp add: read_io_apic_reg_def write_io_apic_reg_def mmio_read_def mmio_write_def Let_def)
qed

text \<open>
  No redirection entry is ever written: for an index the IO APIC has, the two bit ranges
  asked for are 33 bits wide, and the shift that computes their mask is undefined.
\<close>

lemma redirection_entry_undefined:
  assumes "index \<le> io_apic_max_entries s"
  shows "\<exists>t. write_io_apic_redirection_entry base entry index s = Stop (Fault ''shift too far'') t"
  using assms
  by (simp add: write_io_apic_redirection_entry_def extract_bit_range_def defined_def Let_def not_less)

definition example_ioapic :: ioapic where
  "example_ioapic = acpi.extend (example_acpi []) (ioapic.fields 0 23)"

lemma redirection_entry_undefined_example:
  "\<exists>t. write_io_apic_redirection_entry 0xFFFF8000FEC00000 0xFFFF800000001000 0 example_ioapic =
    Stop (Fault ''shift too far'') t"
  by (rule redirection_entry_undefined) (simp add: example_ioapic_def acpi.defs ioapic.defs)

text \<open>The identity field is bits 24 to 27, but the check compares bits 23 to 27.\<close>

lemma id_bits:
  assumes "apic_id < 16"
  shows "test_bit_range (push_bit 24 (ucast (apic_id :: u8))) 27 23 (ucast apic_id) = Some (apic_id = 0)"
proof -
  define k where "k = unat apic_id"
  have "k < 16" using assms by (simp add: k_def word_less_nat_alt)
  then have "k = 0 \<or> k = 1 \<or> k = 2 \<or> k = 3 \<or> k = 4 \<or> k = 5 \<or> k = 6 \<or> k = 7 \<or> k = 8 \<or> k = 9 \<or> k = 10
      \<or> k = 11 \<or> k = 12 \<or> k = 13 \<or> k = 14 \<or> k = 15" by arith
  moreover have "apic_id = of_nat k" by (simp add: k_def)
  ultimately show ?thesis
    by (elim disjE) (simp_all add: test_bit_range_def extract_bit_range_def)
qed

lemma devices_of_more:
  fixes s t :: "'z devices_scheme"
  assumes "vmm.more t = vmm.more s"
  shows "mmio_value t = mmio_value s" and "io t = io s"
  using assms by (cases s; cases t; simp)+


definition second_ioapic :: ioapic where
  "second_ioapic = example_ioapic\<lparr>hhdm_response := Some 0xFFFF800000000000, mem := (\<lambda>_. 2), madt_ptr := (\<lambda>_. 0),
     mmio_value := (\<lambda>_ _. 0x02000000)\<rparr>"


end
