(* ===== verification/Mersenne_Twister.thy ===== *)
theory Mersenne_Twister
  imports Io_Apic
begin

text \<open>
  The pseudo random number generator, \<open>crypt/random.c\<close>: the Mersenne Twister MT19937 on a circular
  array of 624 words, and the choice of a number in a range. The specification is the
  linear recurrence over an infinite sequence.
\<close>

section \<open>State and operations\<close>

record mt_state =
  state_array :: "u32 list"
  state_index :: int

text \<open>The generator's state joins the one record of the kernel's state.\<close>

record rng = ioapic +
  local_state :: mt_state

definition mt_n :: int where "mt_n = 624"
definition mt_m :: int where "mt_m = 397"
definition UMASK :: u32 where "UMASK = 0x80000000"
definition LMASK :: u32 where "LMASK = 0x7fffffff"
definition mt_a :: u32 where "mt_a = 0x9908b0df"
definition mt_b :: u32 where "mt_b = 0x9d2c5680"
definition mt_c :: u32 where "mt_c = 0xefc60000"
definition mt_f :: u32 where "mt_f = 1812433253"

lemmas mt_consts = mt_n_def mt_m_def UMASK_def LMASK_def mt_a_def mt_b_def mt_c_def mt_f_def

definition next_seed :: "u32 \<Rightarrow> nat \<Rightarrow> u32" where
  "next_seed seed i = mt_f * (seed XOR drop_bit 30 seed) + of_nat i"

text \<open>The loop of \<open>setup_random\<close> over \<open>i = 1 .. 623\<close>.\<close>

fun seed_loop :: "nat list \<Rightarrow> u32 \<Rightarrow> u32 list \<Rightarrow> u32 list" where
  "seed_loop [] seed arr = arr"
| "seed_loop (i # is) seed arr =
     (let seed = next_seed seed i in seed_loop is seed (arr[i := seed]))"

definition setup_random :: "u32 \<Rightarrow> 'z rng_scheme \<Rightarrow> 'z rng_scheme" where
  "setup_random seed s =
     (let arr = (state_array (local_state s))[0 := seed] in
      s\<lparr>local_state := \<lparr>state_array = seed_loop [1..<nat mt_n] seed arr, state_index = 0\<rparr>\<rparr>)"

definition array_get :: "u32 list \<Rightarrow> int \<Rightarrow> u32 option" where
  "array_get arr k = (if 0 \<le> k \<and> k < int (length arr) then Some (arr ! nat k) else None)"

definition wrap_index :: "int \<Rightarrow> int" where
  "wrap_index j = (if j < 0 then j + mt_n else j)"

definition twist :: "u32 \<Rightarrow> u32" where
  "twist x = (let xA = drop_bit 1 x in if x AND 1 \<noteq> 0 then xA XOR mt_a else xA)"

definition temper :: "u32 \<Rightarrow> u32" where
  "temper x =
     (let y = x XOR drop_bit 11 x;
          y = y XOR (push_bit 7 y AND mt_b);
          y = y XOR (push_bit 15 y AND mt_c)
      in y XOR drop_bit 18 y)"

definition random_uint32 :: "'z rng_scheme \<Rightarrow> (u32, 'z rng_scheme) outcome" where
  "random_uint32 s =
     (let arr = state_array (local_state s); k = state_index (local_state s);
          j = wrap_index (k - (mt_n - 1)); i = wrap_index (k - (mt_n - mt_m)) in
      case (array_get arr k, array_get arr j, array_get arr i) of
        (Some sk, Some sj, Some si) \<Rightarrow>
          let xA = twist ((sk AND UMASK) OR (sj AND LMASK));
              x = si XOR xA;
              k' = (if k + 1 \<ge> mt_n then 0 else k + 1)
          in Done (temper x) (s\<lparr>local_state := \<lparr>state_array = arr[nat k := x], state_index = k'\<rparr>\<rparr>)
      | _ \<Rightarrow> Stop (Fault ''state_array out of bounds'') s)"

definition random_range :: "u32 \<Rightarrow> u32 \<Rightarrow> 'z rng_scheme \<Rightarrow> (u32, 'z rng_scheme) outcome" where
  "random_range mn mx s =
     (if mn > mx then Done (-1) (k_err ''Bad random range!'' [] s)
      else if mx = 0 then Done mn s
      else let range = mx - mn + 1 in
        bindO (random_uint32 s) (\<lambda>r s.
          if range = 0 then Stop (Fault ''division by zero'') s else Done (mn + r mod range) s))"

section \<open>The sequence\<close>

text \<open>
  The published algorithm MT19937, over bits: the seeding, the word of the top bit of one element
  and the low bits of the next, its product with the matrix, and the tempering.
\<close>

definition mt_initial :: "u32 \<Rightarrow> nat \<Rightarrow> u32" where
  "mt_initial x i = 1812433253 * (x XOR drop_bit 30 x) + of_nat i"

definition mt_join :: "u32 \<Rightarrow> u32 \<Rightarrow> u32" where
  "mt_join x y = (if bit x 31 then set_bit 31 (take_bit 31 y) else take_bit 31 y)"

definition mt_matrix :: "u32 \<Rightarrow> u32" where
  "mt_matrix y = drop_bit 1 y XOR (if bit y 0 then 0x9908B0DF else 0)"

definition mt_output :: "u32 \<Rightarrow> u32" where
  "mt_output = (\<lambda>y. y XOR drop_bit 18 y) \<circ> (\<lambda>y. y XOR (push_bit 15 y AND 0xEFC60000))
     \<circ> (\<lambda>y. y XOR (push_bit 7 y AND 0x9D2C5680)) \<circ> (\<lambda>y. y XOR drop_bit 11 y)"

function mt_seq :: "u32 \<Rightarrow> nat \<Rightarrow> u32" where
  "mt_seq seed n =
     (if n = 0 then seed
      else if n < 624 then mt_initial (mt_seq seed (n - 1)) n
      else mt_seq seed (n - 227) XOR mt_matrix (mt_join (mt_seq seed (n - 624)) (mt_seq seed (n - 623))))"
  by pat_completeness auto
termination by (relation "measure snd") auto

declare mt_seq.simps [simp del]

lemma next_seed_initial: "next_seed x i = mt_initial x i"
  by (simp add: next_seed_def mt_initial_def mt_f_def)

lemma masks_join: "(x AND UMASK) OR (y AND LMASK) = mt_join x y"
proof -
  have high: "bit UMASK n \<longleftrightarrow> n = 31" if "n < 32" for n
  proof -
    have "UMASK = (2 :: u32) ^ 31" by (simp add: UMASK_def)
    then have "bit UMASK n \<longleftrightarrow> bit ((2 :: u32) ^ 31) n" by (rule arg_cong)
    also have "\<dots> \<longleftrightarrow> n = 31" using that by (subst bit_exp_iff) (auto simp: possible_bit_def)
    finally show ?thesis .
  qed
  have low: "LMASK = mask 31" by (simp add: LMASK_def mask_eq_exp_minus_1)
  show ?thesis unfolding low mt_join_def
    by (rule bit_word_eqI)
      (auto simp: high bit_or_iff bit_and_iff bit_mask_iff bit_take_bit_iff bit_set_bit_iff)
qed

lemma twist_matrix: "twist x = mt_matrix x"
  by (simp add: twist_def mt_matrix_def Let_def mt_a_def and_one_eq odd_iff_mod_2_eq_one bit_0)

lemma temper_output: "temper x = mt_output x"
  by (simp add: temper_def mt_output_def Let_def mt_b_def mt_c_def)

text \<open>
  After \<open>n\<close> calls the array holds the 624 elements from \<open>n\<close> on, each at its index modulo 624.
\<close>

definition mt_window :: "u32 \<Rightarrow> nat \<Rightarrow> mt_state \<Rightarrow> bool" where
  "mt_window seed n st \<longleftrightarrow> length (state_array st) = 624 \<and> state_index st = int (n mod 624)
     \<and> (\<forall>j. n \<le> j \<and> j < n + 624 \<longrightarrow> state_array st ! (j mod 624) = mt_seq seed j)"

lemma seed_loop_length [simp]: "length (seed_loop is seed arr) = length arr"
  by (induction "is" seed arr rule: seed_loop.induct) (simp_all add: Let_def)

lemma seed_loop_other: "j \<notin> set is \<Longrightarrow> seed_loop is seed arr ! j = arr ! j"
  by (induction "is" seed arr rule: seed_loop.induct) (simp_all add: Let_def)

lemma seed_loop_seq:
  "0 < k \<Longrightarrow> k + m \<le> 624 \<Longrightarrow> length arr = 624 \<Longrightarrow>
    \<forall>j. k \<le> j \<and> j < k + m \<longrightarrow> seed_loop [k..<k + m] (mt_seq seed (k - 1)) arr ! j = mt_seq seed j"
proof (induction m arbitrary: k arr)
  case 0
  then show ?case by auto
next
  case (Suc m)
  have step: "next_seed (mt_seq seed (k - 1)) k = mt_seq seed k"
    using Suc.prems by (simp add: mt_seq.simps [of seed k] next_seed_initial)
  have upt: "[k..<k + Suc m] = k # [Suc k..<Suc k + m]" by (simp add: upt_conv_Cons)
  have run: "seed_loop [k..<k + Suc m] (mt_seq seed (k - 1)) arr =
      seed_loop [Suc k..<Suc k + m] (mt_seq seed (Suc k - 1)) (arr[k := mt_seq seed k])"
    by (simp only: upt seed_loop.simps step Let_def diff_Suc_1)
  have rest: "\<forall>j. Suc k \<le> j \<and> j < Suc k + m \<longrightarrow>
      seed_loop [Suc k..<Suc k + m] (mt_seq seed (Suc k - 1)) (arr[k := mt_seq seed k]) ! j = mt_seq seed j"
    by (rule Suc.IH) (use Suc.prems in simp_all)
  have first: "seed_loop [Suc k..<Suc k + m] (mt_seq seed (Suc k - 1)) (arr[k := mt_seq seed k]) ! k = mt_seq seed k"
    using Suc.prems by (subst seed_loop_other) simp_all
  show ?case
  proof (intro allI impI)
    fix j assume j: "k \<le> j \<and> j < k + Suc m"
    show "seed_loop [k..<k + Suc m] (mt_seq seed (k - 1)) arr ! j = mt_seq seed j"
      using j rest first unfolding run by (cases "j = k") auto
  qed
qed

lemma setup_random_window:
  assumes "length (state_array (local_state s)) = 624"
  shows "mt_window seed 0 (local_state (setup_random seed s))"
proof -
  let ?arr = "(state_array (local_state s))[0 := seed]"
  let ?out = "seed_loop [1..<624] seed ?arr"
  have "\<forall>j. 1 \<le> j \<and> j < 624 \<longrightarrow> ?out ! j = mt_seq seed j"
    using seed_loop_seq [of 1 623 ?arr seed] assms by (simp add: mt_seq.simps [of seed 0])
  moreover have "?out ! 0 = seed" using assms by (simp add: seed_loop_other)
  ultimately have "?out ! j = mt_seq seed j" if "j < 624" for j
    using that by (cases "j = 0") (simp_all add: mt_seq.simps [of seed 0])
  then show ?thesis using assms by (simp add: mt_window_def setup_random_def Let_def mt_n_def)
qed

lemma add397_mod: "r < 624 \<Longrightarrow> (r + 397) mod 624 = (if r < 227 then r + 397 else r - 227)" for r :: nat
  by (auto simp: le_mod_geq)

lemma random_uint32_window:
  assumes "mt_window seed n (local_state s)"
  shows "\<exists>t. random_uint32 s = Done (temper (mt_seq seed (n + 624))) t
    \<and> mt_window seed (Suc n) (local_state t)"
proof -
  let ?arr = "state_array (local_state s)" and ?k = "n mod 624"
  have len: "length ?arr = 624" and idx: "state_index (local_state s) = int ?k"
    and win: "\<And>j. n \<le> j \<Longrightarrow> j < n + 624 \<Longrightarrow> ?arr ! (j mod 624) = mt_seq seed j"
    using assms by (auto simp: mt_window_def)
  have k: "?k < 624" by simp
  have j: "wrap_index (int ?k - 623) = int ((n + 1) mod 624)"
    using k mod_Suc [of n 624] by (cases "?k = 623") (simp_all add: wrap_index_def mt_n_def)
  have i: "wrap_index (int ?k - 227) = int ((n + 397) mod 624)"
  proof -
    have "(n + 397) mod 624 = (?k + 397) mod 624" by (rule mod_add_left_eq [symmetric])
    also have "\<dots> = (if ?k < 227 then ?k + 397 else ?k - 227)" by (rule add397_mod [OF k])
    finally show ?thesis by (cases "?k < 227") (simp_all add: wrap_index_def mt_n_def)
  qed
  have gets: "array_get ?arr (int ?k) = Some (mt_seq seed n)"
    "array_get ?arr (int ((n + 1) mod 624)) = Some (mt_seq seed (n + 1))"
    "array_get ?arr (int ((n + 397) mod 624)) = Some (mt_seq seed (n + 397))"
    using win [of n] win [of "n + 1"] win [of "n + 397"] by (simp_all add: array_get_def len)
  let ?x = "mt_seq seed (n + 397) XOR twist ((mt_seq seed n AND UMASK) OR (mt_seq seed (n + 1) AND LMASK))"
  have x: "?x = mt_seq seed (n + 624)" by (simp add: mt_seq.simps [of seed "n + 624"] masks_join twist_matrix add.commute)
  define t where "t = s\<lparr>local_state := \<lparr>state_array = ?arr[?k := ?x],
    state_index = (if int ?k + 1 \<ge> 624 then 0 else int ?k + 1)\<rparr>\<rparr>"
  have "random_uint32 s = Done (temper ?x) t"
    unfolding t_def random_uint32_def Let_def idx mt_n_def mt_m_def
    using j i gets by (simp add: mt_n_def)
  moreover have "mt_window seed (Suc n) (local_state t)"
  proof -
    have "(if int ?k + 1 \<ge> 624 then 0 else int ?k + 1) = int (Suc n mod 624)"
      using k mod_Suc [of n 624] by (cases "?k = 623") simp_all
    moreover have "(?arr[?k := ?x]) ! (m mod 624) = mt_seq seed m" if m: "Suc n \<le> m" "m < Suc n + 624" for m
    proof (cases "m = n + 624")
      case True
      then show ?thesis using x len by simp
    next
      case False
      then have less: "n < m" "m < n + 624" using m by simp_all
      have "m mod 624 \<noteq> ?k"
      proof
        assume "m mod 624 = ?k"
        then have "624 dvd m - n" using less by (metis mod_eq_dvd_iff_nat less_imp_le)
        with less show False by (auto dest: dvd_imp_le)
      qed
      then show ?thesis using win [of m] less by simp
    qed
    ultimately show ?thesis by (simp add: mt_window_def t_def len)
  qed
  ultimately show ?thesis unfolding x by blast
qed

section \<open>Properties\<close>

primrec random_many :: "nat \<Rightarrow> 'z rng_scheme \<Rightarrow> (u32 list, 'z rng_scheme) outcome" where
  "random_many 0 s = Done [] s"
| "random_many (Suc n) s = bindO (random_uint32 s) (\<lambda>r s. bindO (random_many n s) (\<lambda>rs s. Done (r # rs) s))"

lemma random_many_window:
  "mt_window seed k (local_state s) \<Longrightarrow>
    \<exists>t. random_many n s = Done (map (\<lambda>i. temper (mt_seq seed (i + 624))) [k..<k + n]) t
      \<and> mt_window seed (k + n) (local_state t)"
proof (induction n arbitrary: k s)
  case 0
  then show ?case by simp
next
  case (Suc n)
  obtain t where t: "random_uint32 s = Done (temper (mt_seq seed (k + 624))) t"
      "mt_window seed (Suc k) (local_state t)"
    using random_uint32_window [OF Suc.prems] by blast
  have "[k..<k + Suc n] = k # [Suc k..<Suc k + n]" by (simp add: upt_conv_Cons)
  with t(1) Suc.IH [OF t(2)] show ?case by auto
qed

text \<open>
  C17. The generator is MT19937: after \<open>setup_random\<close> with any seed, any number of calls of
  \<open>random_uint32\<close> return the tempered elements 624, 625, ... of the sequence that the linear
  recurrence of the algorithm defines over the seeded elements; no call accesses the circular
  state array out of bounds.
\<close>

theorem generator_follows_recurrence:
  assumes "length (state_array (local_state s)) = 624"
  shows "\<exists>t. random_many n (setup_random seed s) =
    Done (map (\<lambda>i. mt_output (mt_seq seed (i + 624))) [0..<n]) t"
  using random_many_window [OF setup_random_window [OF assms], of n seed] by (auto simp: temper_output)

definition example_rng :: rng where
  "example_rng = ioapic.extend example_ioapic
     (rng.fields \<lparr>state_array = replicate 624 0, state_index = 0\<rparr>)"

lemma example_rng_length: "length (state_array (local_state example_rng)) = 624"
  by (simp add: example_rng_def ioapic.defs rng.defs)

theorem generator_follows_recurrence_witness:
  "\<exists>t. random_many 700 (setup_random 5489 example_rng) =
    Done (map (\<lambda>i. mt_output (mt_seq 5489 (i + 624))) [0..<700]) t"
  by (rule generator_follows_recurrence [OF example_rng_length])

lemma random_range_bounds:
  assumes "mt_window seed n (local_state s)" and "mn \<le> mx"
  shows "if mn = 0 \<and> mx = -1 then \<exists>t. random_range mn mx s = Stop (Fault ''division by zero'') t
    else \<exists>r t. random_range mn mx s = Done r t \<and> mn \<le> r \<and> r \<le> mx"
proof -
  obtain x t where x: "random_uint32 s = Done x t" using random_uint32_window [OF assms(1)] by blast
  have full: "mx - mn + 1 = 0 \<longleftrightarrow> mn = 0 \<and> mx = -1"
  proof
    assume "mx - mn + 1 = 0"
    then have "mx - mn = -1" by (simp add: eq_neg_iff_add_eq_0)
    moreover have "mx - mn \<le> mx" using assms(2) by (simp add: word_le_nat_alt unat_sub)
    ultimately have "mx = -1" by (simp add: antisym)
    with \<open>mx - mn = -1\<close> show "mn = 0 \<and> mx = -1" by simp
  qed simp
  show ?thesis
  proof (cases "mn = 0 \<and> mx = -1")
    case True
    then show ?thesis using x by (simp add: random_range_def Let_def)
  next
    case False
    define range where "range = mx - mn + 1"
    have "range \<noteq> 0" using False full by (simp add: range_def)
    then have "mx - mn \<noteq> -1" by (auto simp: range_def)
    then have "mx - mn < -1" by (simp add: order.not_eq_order_implies_strict)
    from unat_inc [OF this] have ur: "unat range = unat mx - unat mn + 1"
      using assms(2) by (simp add: range_def unat_sub word_le_nat_alt)
    have "mx = 0 \<Longrightarrow> mn = 0" using assms(2) by simp
    moreover have "mn \<le> mn + x mod range \<and> mn + x mod range \<le> mx"
    proof -
      have "unat (x mod range) < unat range" using \<open>range \<noteq> 0\<close> by (simp add: unat_mod unat_gt_0)
      then have "unat (x mod range) \<le> unat mx - unat mn" using ur by simp
      then have "unat mn + unat (x mod range) \<le> unat mx" using assms(2) by (simp add: word_le_nat_alt)
      moreover from this have "unat (mn + x mod range) = unat mn + unat (x mod range)"
        using unsigned_less [of mx, where ?'a = nat] by (simp add: unat_word_ariths)
      ultimately show ?thesis by (simp add: word_le_nat_alt)
    qed
    ultimately show ?thesis
      using False x assms(2) \<open>range \<noteq> 0\<close> by (auto simp: random_range_def Let_def range_def)
  qed
qed

text \<open>
  C28. A random number of a range is in the range, both ends included: \<open>random_range\<close> returns a
  number between \<open>mn\<close> and \<open>mx\<close> for every proper range, except for the full range of 32-bit
  numbers, whose size wraps around to 0, so that the code divides by zero.
\<close>

theorem random_range_in_range:
  assumes "mt_window seed n (local_state s)" and "mn \<le> mx"
  shows "if mn = 0 \<and> mx = -1 then \<exists>t. random_range mn mx s = Stop (Fault ''division by zero'') t
    else \<exists>r t. random_range mn mx s = Done r t \<and> mn \<le> r \<and> r \<le> mx"
  using assms by (rule random_range_bounds)

theorem random_range_in_range_witness:
  "\<exists>r t. random_range 10 20 (setup_random 5489 example_rng) = Done r t \<and> 10 \<le> r \<and> r \<le> 20"
  using random_range_in_range [OF setup_random_window [OF example_rng_length], of 10 20 5489]
  by simp

end
