(* ===== verification/Calendar.thy ===== *)
theory Calendar
  imports Printf "HOL-Library.Signed_Division"
begin

text \<open>
  The calendar of \<open>platform/x86_64/rtc.c\<close>: \<open>get_jdn\<close> and \<open>get_unix_epoch\<close> turn a civil date and time
  into seconds since 1970, \<open>ms_to_iso8601\<close> turns milliseconds since 1970 back into a civil date and
  prints it. The theory proves both exact against the Gregorian calendar, and inverse to each other.
\<close>

section \<open>Time to text\<close>

record civil_time =
  ct_year :: u32
  ct_month :: u32
  ct_day :: u32
  ct_hour :: u32
  ct_min :: u32
  ct_sec :: u32
  ct_ms :: u32

text \<open>The computation of \<open>ms_to_iso8601\<close>, at the widths of its variables.\<close>

definition civil_of_ms :: "u64 \<Rightarrow> civil_time" where
  "civil_of_ms ms_epoch =
     (let ms = ucast (ms_epoch mod 1000) :: u32;
          secs = ms_epoch div 1000;
          sec = ucast (secs mod 60) :: u32;
          secs = secs div 60;
          mins = ucast (secs mod 60) :: u32;
          secs = secs div 60;
          hr = ucast (secs mod 24) :: u32;
          secs = secs div 24;
          days = secs + 719468;
          era = days div 146097;
          doe = ucast (days - era * 146097) :: u32;
          yoe = (doe - doe div 1460 + doe div 36524 - doe div 146096) div 365;
          y = ucast (ucast yoe + era * 400) :: u32;
          doy = doe - (365 * yoe + yoe div 4 - yoe div 100);
          mp = (5 * doy + 2) div 153;
          day = doy - (153 * mp + 2) div 5 + 1;
          mon = mp + (if mp < 10 then 3 else - 9);
          y = y + (if mon \<le> 2 then 1 else 0)
      in \<lparr>ct_year = y, ct_month = mon, ct_day = day, ct_hour = hr, ct_min = mins, ct_sec = sec, ct_ms = ms\<rparr>)"

definition iso8601_format :: string where
  "iso8601_format = ''%04d-%02d-%02dT%02d:%02d:%02d.%03dZ''"

definition iso8601_args :: "civil_time \<Rightarrow> fmt_arg list" where
  "iso8601_args c = map (Num \<circ> ucast)
     [ct_year c, ct_month c, ct_day c, ct_hour c, ct_min c, ct_sec c, ct_ms c]"

definition ms_to_iso8601 :: "u64 \<Rightarrow> u64 \<Rightarrow> u64 \<Rightarrow> 'z machine_scheme \<Rightarrow> (unit, 'z machine_scheme) outcome" where
  "ms_to_iso8601 ms_epoch buf buf_size s =
     bindO (snprintf buf buf_size iso8601_format (iso8601_args (civil_of_ms ms_epoch)) s) (\<lambda>_ s. Done () s)"

section \<open>Date to time\<close>

text \<open>
  Signed 32-bit arithmetic: the arguments come from 8-bit and 16-bit values, so that no
  intermediate result leaves the range of \<open>int\<close>. C's division truncates towards zero.
\<close>

definition get_jdn :: "int \<Rightarrow> int \<Rightarrow> int \<Rightarrow> int" where
  "get_jdn days months years =
     (1461 * (years + 4800 + (months - 14) sdiv 12)) sdiv 4 +
     (367 * (months - 2 - 12 * ((months - 14) sdiv 12))) sdiv 12 -
     (3 * ((years + 4900 + (months - 14) sdiv 12) sdiv 100)) sdiv 4 + days - 32075"

definition get_unix_epoch :: "u8 \<Rightarrow> u8 \<Rightarrow> u8 \<Rightarrow> u8 \<Rightarrow> u8 \<Rightarrow> u16 \<Rightarrow> u64" where
  "get_unix_epoch seconds minutes hours days months years =
     (let jdn_current = of_int (get_jdn (uint days) (uint months) (uint years)) :: u64;
          jdn_1970 = of_int (get_jdn 1 1 1970) :: u64;
          jdn_diff = jdn_current - jdn_1970
      in jdn_diff * (60 * 60 * 24) + ucast hours * 3600 + ucast minutes * 60 + ucast seconds)"

section \<open>The Gregorian calendar\<close>

definition leap_year :: "nat \<Rightarrow> bool" where
  "leap_year y \<longleftrightarrow> y mod 4 = 0 \<and> (y mod 100 \<noteq> 0 \<or> y mod 400 = 0)"

definition month_length :: "nat \<Rightarrow> nat \<Rightarrow> nat" where
  "month_length y m =
     (if m = 2 then if leap_year y then 29 else 28 else if m \<in> {4, 6, 9, 11} then 30 else 31)"

definition valid_date :: "nat \<Rightarrow> nat \<Rightarrow> nat \<Rightarrow> bool" where
  "valid_date y m d \<longleftrightarrow> 1 \<le> m \<and> m \<le> 12 \<and> 1 \<le> d \<and> d \<le> month_length y m"

text \<open>Days since 1 March of year 0, counting years from March.\<close>

definition march_year :: "nat \<Rightarrow> nat \<Rightarrow> nat" where
  "march_year y m = (if m \<le> 2 then y - 1 else y)"

definition march_month :: "nat \<Rightarrow> nat" where
  "march_month m = (if m \<le> 2 then m + 9 else m - 3)"

definition day_of_year :: "nat \<Rightarrow> nat \<Rightarrow> nat" where
  "day_of_year m d = (153 * march_month m + 2) div 5 + d - 1"

definition days_to_year :: "nat \<Rightarrow> nat" where
  "days_to_year y = 365 * y + y div 4 - y div 100 + y div 400"

definition day_number :: "nat \<Rightarrow> nat \<Rightarrow> nat \<Rightarrow> nat" where
  "day_number y m d = days_to_year (march_year y m) + day_of_year m d"

text \<open>The day after a date, by the rules of the calendar.\<close>

definition next_day :: "nat \<times> nat \<times> nat \<Rightarrow> nat \<times> nat \<times> nat" where
  "next_day = (\<lambda>(y, m, d).
     if d < month_length y m then (y, m, d + 1) else if m < 12 then (y, m + 1, 1) else (y + 1, 1, 1))"

section \<open>The Julian day number\<close>

lemma sdiv_nonneg: "0 \<le> a \<Longrightarrow> 0 < b \<Longrightarrow> a sdiv b = a div (b :: int)"
  by (cases "a = 0") (auto simp: signed_divide_int_def sgn_mult)

lemma month_cases:
  assumes "1 \<le> m" and "m \<le> (12 :: int)"
  shows "m = 1 \<or> m = 2 \<or> m = 3 \<or> m = 4 \<or> m = 5 \<or> m = 6 \<or> m = 7 \<or> m = 8 \<or> m = 9 \<or> m = 10 \<or> m = 11 \<or> m = 12"
  using assms by arith

lemma month_cases_nat:
  assumes "1 \<le> m" and "m \<le> (12 :: nat)"
  shows "m = 1 \<or> m = 2 \<or> m = 3 \<or> m = 4 \<or> m = 5 \<or> m = 6 \<or> m = 7 \<or> m = 8 \<or> m = 9 \<or> m = 10 \<or> m = 11 \<or> m = 12"
  using assms by arith

text \<open>The two ways of counting the century leap days.\<close>

lemma century_days:
  "3 * ((y + 4900) div 100) div 4 + y div 400 = y div 100 + (36 :: int)"
proof -
  define k where "k = y div 100"
  have "(y + 4900) div 100 = k + 49" by (simp add: k_def)
  moreover have "y div 400 = k div 4" by (simp add: k_def zdiv_zmult2_eq [symmetric])
  moreover have "3 * (k + 49) div 4 + k div 4 = k + 36"
  proof -
    define q r where "q = k div 4" and "r = k mod 4"
    have k: "k = r + q * 4" by (simp add: q_def r_def)
    have "r = 0 \<or> r = 1 \<or> r = 2 \<or> r = 3" unfolding r_def by presburger
    moreover have "3 * (k + 49) = (3 * r + 147) + (3 * q) * 4" by (simp add: k)
    ultimately show ?thesis by (elim disjE) (simp_all add: k)
  qed
  ultimately show ?thesis by (simp add: k_def)
qed

lemma get_jdn_eq:
  assumes "0 \<le> y" and "1 \<le> m" and "m \<le> 12"
  shows "get_jdn d m y =
    (let z = (if m \<le> 2 then y - 1 else y) in
     365 * z + z div 4 - z div 100 + z div 400
       + (153 * (if m \<le> 2 then m + 9 else m - 3) + 2) div 5 + d + 1721119)"
proof -
  define a :: int where "a = (if m \<le> 2 then - 1 else 0)"
  define z where "z = y + a"
  have z: "- 1 \<le> z" "(if m \<le> 2 then y - 1 else y) = z" using assms(1) by (auto simp: z_def a_def)
  have a: "(m - 14) sdiv 12 = a"
    using month_cases [OF assms(2,3)] by (elim disjE) (simp_all add: a_def signed_divide_int_def)
  have mon: "(367 * (m - 2 - 12 * a)) sdiv 12 = (153 * (if m \<le> 2 then m + 9 else m - 3) + 2) div 5 + 30"
    using month_cases [OF assms(2,3)] by (elim disjE) (simp_all add: a_def signed_divide_int_def)
  have days: "(1461 * (y + 4800 + a)) sdiv 4 = 365 * z + z div 4 + 1753200"
  proof -
    have "(1461 * (y + 4800 + a)) sdiv 4 = 1461 * (z + 4800) div 4"
      using z(1) by (subst sdiv_nonneg) (auto simp: z_def algebra_simps)
    also have "1461 * (z + 4800) = z + (365 * z + 1753200) * 4" by simp
    also have "\<dots> div 4 = 365 * z + z div 4 + 1753200" by simp
    finally show ?thesis .
  qed
  have cent: "(3 * ((y + 4900 + a) sdiv 100)) sdiv 4 = z div 100 + 36 - z div 400"
  proof -
    have "(y + 4900 + a) sdiv 100 = (z + 4900) div 100"
      using z(1) by (subst sdiv_nonneg) (auto simp: z_def algebra_simps)
    moreover have "(3 * ((z + 4900) div 100)) sdiv 4 = 3 * ((z + 4900) div 100) div 4"
      using z(1) by (intro sdiv_nonneg) auto
    ultimately show ?thesis using century_days [of z] by simp
  qed
  show ?thesis unfolding get_jdn_def a mon days cent z(2) Let_def by simp
qed

lemma get_jdn_day_number:
  assumes "valid_date y m d" and "1 \<le> y"
  shows "get_jdn (int d) (int m) (int y) = int (day_number y m d) + 1721120"
proof -
  have m: "1 \<le> m" "m \<le> 12" "1 \<le> d" using assms(1) by (auto simp: valid_date_def)
  have "days_to_year z \<ge> 0" for z by simp
  have pos: "z div 100 \<le> 365 * z + z div 4" for z :: nat by linarith
  have z: "int (days_to_year z) = 365 * int z + int z div 4 - int z div 100 + int z div 400" for z
    using pos [of z] by (simp add: days_to_year_def of_nat_diff zdiv_int)
  have doy: "int (day_of_year m d) = (153 * int (march_month m) + 2) div 5 + int d - 1"
    using m(3) by (simp add: day_of_year_def of_nat_diff zdiv_int)
  have mm: "int (march_month m) = (if int m \<le> 2 then int m + 9 else int m - 3)"
    using m(1) by (auto simp: march_month_def)
  have my: "int (march_year y m) = (if int m \<le> 2 then int y - 1 else int y)"
    using assms(2) by (auto simp: march_year_def)
  show ?thesis
    using m by (subst get_jdn_eq) (auto simp: day_number_def doy z mm my Let_def)
qed

section \<open>Counting days\<close>

lemma days_to_year_sum: "days_to_year z + z div 100 = 365 * z + z div 4 + z div 400"
proof -
  have "z div 100 \<le> 365 * z + z div 4" by linarith
  then show ?thesis by (simp add: days_to_year_def)
qed

lemma days_to_year_Suc: "days_to_year (Suc z) = days_to_year z + (if leap_year (Suc z) then 366 else 365)"
proof -
  have "Suc z mod 400 = 0 \<Longrightarrow> Suc z mod 100 = 0" "Suc z mod 100 = 0 \<Longrightarrow> Suc z mod 4 = 0"
    using mod_mod_cancel [of 100 400 "Suc z"] mod_mod_cancel [of 4 100 "Suc z"] by auto
  then have leap: "Suc z div 4 + Suc z div 400 + z div 100 + 365 =
      z div 4 + z div 400 + Suc z div 100 + (if leap_year (Suc z) then 366 else 365)"
    by (simp add: leap_year_def div_Suc)
  have "D' = D + x" if "a' + b' + c + 365 = a + b + c' + x" and "D + c = 365 * z + a + b"
    and "D' + c' = 365 * Suc z + a' + b'" for a a' b b' c c' D D' x :: nat
    using that by (simp only: mult_Suc_right)
  from this [OF leap days_to_year_sum days_to_year_sum] show ?thesis .
qed

lemma day_number_next_day:
  assumes "valid_date y m d" and "1 \<le> y" and "next_day (y, m, d) = (y', m', d')"
  shows "day_number y' m' d' = Suc (day_number y m d)" and "valid_date y' m' d'"
proof -
  have m: "1 \<le> m" "m \<le> 12" "1 \<le> d" "d \<le> month_length y m" using assms(1) by (auto simp: valid_date_def)
  obtain z where y: "y = Suc z" using assms(2) by (cases y) auto
  have "day_number y' m' d' = Suc (day_number y m d) \<and> valid_date y' m' d'"
  proof (cases "d < month_length y m")
    case True
    then have "y' = y" "m' = m" "d' = d + 1" using assms(3) by (auto simp: next_day_def)
    with True m show ?thesis by (auto simp: day_number_def day_of_year_def valid_date_def)
  next
    case False
    then have d: "d = month_length y m" using m(4) by simp
    have nxt: "y' = (if m < 12 then y else y + 1)" "m' = (if m < 12 then m + 1 else 1)" "d' = 1"
      using assms(3) d by (auto simp: next_day_def split: if_splits)
    have "day_number y' m' d' = Suc (day_number y m d)"
      using month_cases_nat [OF m(1,2)]
      by (elim disjE) (simp_all add: nxt d y day_number_def march_year_def march_month_def
          day_of_year_def month_length_def days_to_year_Suc)
    moreover have "valid_date y' m' d'"
      using month_cases_nat [OF m(1,2)] by (elim disjE) (simp_all add: nxt valid_date_def month_length_def)
    ultimately show ?thesis ..
  qed
  then show "day_number y' m' d' = Suc (day_number y m d)" and "valid_date y' m' d'" by auto
qed

section \<open>The inverse\<close>

lemma year_of_era:
  fixes c q r doy :: nat
  defines "doe \<equiv> 36524 * c + 1461 * q + 365 * r + doy"
  assumes "c < 4" and "q < 25" and "r < 4" and "doy \<le> 365"
    and "doy = 365 \<Longrightarrow> r = 3 \<and> (q = 24 \<longrightarrow> c = 3)"
  shows "(doe - doe div 1460 + doe div 36524 - doe div 146096) div 365 = 100 * c + 4 * q + r"
proof -
  define f where "f = (24 * c + q + 365 * r + doy) div 1460"
  have doe: "doe = 36524 * c + (1461 * q + 365 * r + doy)" "doe = (24 * c + q + 365 * r + doy) + (25 * c + q) * 1460"
    unfolding doe_def by simp_all
  have t: "doe div 1460 = 25 * c + q + f" unfolding doe(2) f_def by simp
  have bound: "1461 * q + 365 * r + doy \<le> 36524" using assms(3-5) by linarith
  show ?thesis
  proof (cases "1461 * q + 365 * r + doy = 36524")
    case True
    then have q: "q = 24" "r = 3" "doy = 365" using assms(3-5) by linarith+
    then have "c = 3" using assms(6) by simp
    with q show ?thesis by (simp add: doe_def)
  next
    case False
    then have small: "1461 * q + 365 * r + doy < 36524" using bound by simp
    then have u: "doe div 36524 = c" unfolding doe(1) by simp
    have v: "doe div 146096 = 0" using small assms(2) unfolding doe(1) by simp
    have f: "f \<le> doy" "doy < 365 + f"
    proof -
      have "f \<le> 1" unfolding f_def using assms(2-5) by linarith
      then consider "f = 0" | "f = 1" by linarith
      then show "f \<le> doy"
      proof cases
        case 2
        then have "1460 \<le> 24 * c + q + 365 * r + doy" unfolding f_def by linarith
        then show ?thesis using 2 assms(2-4) by linarith
      qed simp
      show "doy < 365 + f"
      proof (cases "doy = 365")
        case True
        then have "r = 3" using assms(6) by simp
        with True show ?thesis unfolding f_def by simp
      qed (use assms(5) in simp)
    qed
    have "doe - doe div 1460 + doe div 36524 - doe div 146096 = (100 * c + 4 * q + r) * 365 + (doy - f)"
      unfolding t u v using f(1) doe(1) by simp
    moreover have "(doy - f) div 365 = 0" using f(2) by simp
    ultimately show ?thesis by simp
  qed
qed

lemma date_decomposition:
  assumes "valid_date y m d" and "1 \<le> y"
  obtains e c q r where "march_year y m = 400 * e + 100 * c + 4 * q + r"
    and "c < 4" and "q < 25" and "r < 4" and "day_of_year m d \<le> 365"
    and "day_of_year m d = 365 \<Longrightarrow> r = 3 \<and> (q = 24 \<longrightarrow> c = 3)"
    and "day_number y m d = (36524 * c + 1461 * q + 365 * r + day_of_year m d) + 146097 * e"
proof -
  let ?y = "march_year y m"
  define e c q r where "e = ?y div 400" and "c = ?y mod 400 div 100" and "q = ?y mod 100 div 4" and "r = ?y mod 4"
  have m: "1 \<le> m" "m \<le> 12" "1 \<le> d" "d \<le> month_length y m" using assms(1) by (auto simp: valid_date_def)
  have "?y mod 400 mod 100 = ?y mod 100" "?y mod 100 mod 4 = ?y mod 4" by (simp_all add: mod_mod_cancel)
  then have y: "?y = 400 * e + 100 * c + 4 * q + r"
    using div_mult_mod_eq [of ?y 400] div_mult_mod_eq [of "?y mod 400" 100] div_mult_mod_eq [of "?y mod 100" 4]
    unfolding e_def c_def q_def r_def by linarith
  have small: "c < 4" "q < 25" "r < 4" unfolding c_def q_def r_def by simp_all
  have "days_to_year ?y + ?y div 100 = 365 * ?y + ?y div 4 + ?y div 400" by (rule days_to_year_sum)
  moreover have "?y div 4 = 100 * e + 25 * c + q" using small unfolding y by simp
  moreover have "?y div 100 = 4 * e + c" using small unfolding y by simp
  moreover have "?y div 400 = e" using small unfolding y by simp
  ultimately have days: "days_to_year ?y = 36524 * c + 1461 * q + 365 * r + 146097 * e"
    unfolding y by simp
  have doy: "day_of_year m d \<le> 365 \<and> (day_of_year m d = 365 \<longrightarrow> m = 2 \<and> leap_year y)"
    using month_cases_nat [OF m(1,2)] m(3,4)
    by (elim disjE) (auto simp: day_of_year_def march_month_def month_length_def split: if_splits)
  have last: "r = 3 \<and> (q = 24 \<longrightarrow> c = 3)" if "day_of_year m d = 365"
  proof -
    from that doy have "m = 2" and leap: "leap_year y" by auto
    then have "y = 400 * e + 100 * c + 4 * q + r + 1" using assms(2) y by (auto simp: march_year_def)
    then have "y = (r + 1) + (100 * e + 25 * c + q) * 4" "y = (4 * q + r + 1) + (4 * e + c) * 100"
      "y = (100 * c + 4 * q + r + 1) + e * 400" by simp_all
    then have "y mod 4 = (r + 1) mod 4" "y mod 100 = (4 * q + r + 1) mod 100"
      "y mod 400 = (100 * c + 4 * q + r + 1) mod 400"
      by (metis mod_mult_self1)+
    then have r: "(r + 1) mod 4 = 0"
      and q: "(4 * q + r + 1) mod 100 \<noteq> 0 \<or> (100 * c + 4 * q + r + 1) mod 400 = 0"
      using leap by (simp_all add: leap_year_def)
    have "r = 3" using r small(3) by presburger
    moreover have "c = 3" if "q = 24"
    proof -
      have "(100 * c + 100) mod 400 = 0" using q by (simp add: that \<open>r = 3\<close> add.commute)
      then show ?thesis using small(1) by presburger
    qed
    ultimately show ?thesis by blast
  qed
  show thesis by (rule that [OF y small]) (use doy last days in \<open>auto simp: day_number_def\<close>)
qed

section \<open>The computation on machine words\<close>

text \<open>Word operations on values that do not wrap are the operations on natural numbers.\<close>

named_theorems word_nat \<open>word operations without wrap-around\<close>

lemma word_nat_div [word_nat]:
  "a < 2 ^ LENGTH('a) \<Longrightarrow> numeral k < (2 :: nat) ^ LENGTH('a) \<Longrightarrow>
    (of_nat a :: 'a::len word) div numeral k = of_nat (a div numeral k)"
  by (simp add: word_arith_nat_div unat_of_nat_less take_bit_nat_eq_self)

lemma word_nat_mod [word_nat]:
  "a < 2 ^ LENGTH('a) \<Longrightarrow> numeral k < (2 :: nat) ^ LENGTH('a) \<Longrightarrow>
    (of_nat a :: 'a::len word) mod numeral k = of_nat (a mod numeral k)"
  by (simp add: word_arith_nat_mod unat_of_nat_less take_bit_nat_eq_self)

lemma word_nat_add [word_nat]:
  "(of_nat a :: 'a::len word) + of_nat b = of_nat (a + b)"
  "(of_nat a :: 'a::len word) + numeral k = of_nat (a + numeral k)"
  by simp_all

lemma word_nat_mult [word_nat]:
  "numeral k * (of_nat a :: 'a::len word) = of_nat (numeral k * a)"
  "(of_nat a :: 'a::len word) * numeral k = of_nat (a * numeral k)"
  by simp_all

lemma word_nat_diff [word_nat]: "b \<le> a \<Longrightarrow> (of_nat a :: 'a::len word) - of_nat b = of_nat (a - b)"
  by (simp add: of_nat_diff)

lemma word_nat_ucast [word_nat]: "a < 2 ^ LENGTH('a) \<Longrightarrow> ucast (of_nat a :: 'a::len word) = (of_nat a :: 'b::len word)"
  by (simp add: unsigned_of_nat take_bit_nat_eq_self)

lemma word_nat_le [word_nat]: "a < 2 ^ LENGTH('a) \<Longrightarrow> numeral k < (2 :: nat) ^ LENGTH('a) \<Longrightarrow>
    (of_nat a :: 'a::len word) \<le> numeral k \<longleftrightarrow> a \<le> numeral k"
  by (simp add: word_le_nat_alt unat_of_nat_less take_bit_nat_eq_self)

lemma word_nat_less [word_nat]: "a < 2 ^ LENGTH('a) \<Longrightarrow> numeral k < (2 :: nat) ^ LENGTH('a) \<Longrightarrow>
    (of_nat a :: 'a::len word) < numeral k \<longleftrightarrow> a < numeral k"
  by (simp add: word_less_nat_alt unat_of_nat_less take_bit_nat_eq_self)

lemma word_nat_split:
  assumes "a < numeral k" and "a + numeral k * b < (2 :: nat) ^ LENGTH('a)" and "numeral k < (2 :: nat) ^ LENGTH('a)"
  shows "(of_nat (a + numeral k * b) :: 'a::len word) div numeral k = of_nat b"
    and "(of_nat (a + numeral k * b) :: 'a::len word) mod numeral k = of_nat a"
proof -
  have "(a + numeral k * b) div numeral k = b" "(a + numeral k * b) mod numeral k = a" using assms(1) by simp_all
  with word_nat_div [OF assms(2,3)] word_nat_mod [OF assms(2,3)]
  show "(of_nat (a + numeral k * b) :: 'a::len word) div numeral k = of_nat b"
    and "(of_nat (a + numeral k * b) :: 'a::len word) mod numeral k = of_nat a" by (simp_all only:)
qed

text \<open>The clock.\<close>

lemma clock_of_ms:
  assumes "ms < 1000" and "s < 60" and "mi < 60" and "h < 24" and "N < 2 ^ 32"
  defines "t \<equiv> (of_nat (ms + 1000 * (s + 60 * (mi + 60 * (h + 24 * N)))) :: u64)"
  shows "t mod 1000 = of_nat ms" and "t div 1000 mod 60 = of_nat s"
    and "t div 1000 div 60 mod 60 = of_nat mi" and "t div 1000 div 60 div 60 mod 24 = of_nat h"
    and "t div 1000 div 60 div 60 div 24 = of_nat N"
proof -
  have a: "h + 24 * N < 2 ^ 37" using assms(4,5) by simp
  have b: "mi + 60 * (h + 24 * N) < 2 ^ 43" using a assms(3) by simp
  have c: "s + 60 * (mi + 60 * (h + 24 * N)) < 2 ^ 49" using b assms(2) by simp
  have d: "ms + 1000 * (s + 60 * (mi + 60 * (h + 24 * N))) < 2 ^ 60" using c assms(1) by simp
  have 1: "t div 1000 = of_nat (s + 60 * (mi + 60 * (h + 24 * N)))"
    and "t mod 1000 = of_nat ms"
    unfolding t_def by (rule word_nat_split; use d assms(1) in simp)+
  have 2: "t div 1000 div 60 = of_nat (mi + 60 * (h + 24 * N))" and "t div 1000 mod 60 = of_nat s"
    unfolding 1 by (rule word_nat_split; use c assms(2) in simp)+
  have 3: "t div 1000 div 60 div 60 = of_nat (h + 24 * N)" and "t div 1000 div 60 mod 60 = of_nat mi"
    unfolding 2 by (rule word_nat_split; use b assms(3) in simp)+
  have 4: "t div 1000 div 60 div 60 div 24 = of_nat N" and "t div 1000 div 60 div 60 mod 24 = of_nat h"
    unfolding 3 by (rule word_nat_split; use a assms(4) in simp)+
  show "t mod 1000 = of_nat ms" "t div 1000 mod 60 = of_nat s"
    "t div 1000 div 60 mod 60 = of_nat mi" "t div 1000 div 60 div 60 mod 24 = of_nat h"
    "t div 1000 div 60 div 60 div 24 = of_nat N" by fact+
qed

text \<open>The date: from the days since 1 March of year 0 to the year, month and day.\<close>

lemma date_of_days:
  fixes D doe yoe mp :: nat
  assumes "D = doe + 146097 * e" and "doe = 36524 * c + 1461 * q + 365 * r + doy"
    and "c < 4" and "q < 25" and "r < 4" and "doy \<le> 365" and "doy = 365 \<Longrightarrow> r = 3 \<and> (q = 24 \<longrightarrow> c = 3)"
    and "e < 200"
  defines "yoe \<equiv> 100 * c + 4 * q + r"
  shows "(of_nat D :: u64) div 146097 = of_nat e"
    and "ucast ((of_nat D :: u64) - of_nat e * 146097) = (of_nat doe :: u32)"
    and "((of_nat doe :: u32) - of_nat doe div 1460 + of_nat doe div 36524 - of_nat doe div 146096) div 365 =
      of_nat yoe"
    and "(of_nat doe :: u32) - (365 * of_nat yoe + of_nat yoe div 4 - of_nat yoe div 100) = of_nat doy"
    and "ucast (ucast (of_nat yoe :: u32) + (of_nat e :: u64) * 400) = (of_nat (yoe + e * 400) :: u32)"
proof -
  have doe: "doe < 146097"
  proof (cases "doy = 365")
    case False
    then show ?thesis using assms(2-6) by linarith
  qed (use assms in linarith)
  have D: "D < 2 ^ 32" using doe assms(1,8) by simp
  have yoe: "yoe < 400" unfolding yoe_def using assms(3-5) by linarith
  show "(of_nat D :: u64) div 146097 = of_nat e"
    unfolding assms(1) by (rule word_nat_split) (use D doe assms(1) in simp_all)
  have "(of_nat D :: u64) - of_nat e * 146097 = of_nat doe" by (simp add: assms(1))
  then show "ucast ((of_nat D :: u64) - of_nat e * 146097) = (of_nat doe :: u32)"
    using doe by (simp add: word_nat_ucast)
  have div32: "(of_nat a :: u32) div numeral k = of_nat (a div numeral k)"
    if "a < 146097" "numeral k < (146097 :: nat)" for a k
    by (rule word_nat_div) (rule less_trans [OF that(1)], simp, rule less_trans [OF that(2)], simp)
  have "doe div 1460 \<le> doe" and "doe div 146096 \<le> doe div 36524"
    by (simp_all add: div_le_mono2)
  then have "(of_nat doe :: u32) - of_nat doe div 1460 + of_nat doe div 36524 - of_nat doe div 146096 =
      of_nat (doe - doe div 1460 + doe div 36524 - doe div 146096)"
    using doe by (simp add: div32 of_nat_diff)
  moreover have "doe - doe div 1460 + doe div 36524 - doe div 146096 < 2 * 146097"
  proof -
    have "doe div 36524 \<le> doe" by simp
    then show ?thesis using doe by linarith
  qed
  moreover have "(doe - doe div 1460 + doe div 36524 - doe div 146096) div 365 = yoe"
    unfolding yoe_def assms(2) by (rule year_of_era) (use assms(3-7) in auto)
  ultimately show "((of_nat doe :: u32) - of_nat doe div 1460 + of_nat doe div 36524 - of_nat doe div 146096) div 365 =
      of_nat yoe"
    by (simp only:) (subst word_nat_div, simp_all)
  have "yoe div 4 = 25 * c + q" "yoe div 100 = c" unfolding yoe_def using assms(3-5) by simp_all
  then have "doe + yoe div 100 = 365 * yoe + yoe div 4 + doy"
    unfolding assms(2) yoe_def by simp
  then have "(of_nat (doe + yoe div 100) :: u32) = of_nat (365 * yoe + yoe div 4 + doy)" by (simp only:)
  then show "(of_nat doe :: u32) - (365 * of_nat yoe + of_nat yoe div 4 - of_nat yoe div 100) = of_nat doy"
    using yoe by (simp add: div32 algebra_simps)
  show "ucast (ucast (of_nat yoe :: u32) + (of_nat e :: u64) * 400) = (of_nat (yoe + e * 400) :: u32)"
  proof -
    have "ucast (of_nat yoe :: u32) + (of_nat e :: u64) * 400 = of_nat (yoe + e * 400)"
      using yoe by (simp add: word_nat_ucast)
    moreover have "ucast (of_nat (yoe + e * 400) :: u64) = (of_nat (yoe + e * 400) :: u32)"
      by (rule word_nat_ucast) (use yoe assms(8) in simp)
    ultimately show ?thesis by (simp only:)
  qed
qed

lemma month_of_day:
  assumes "1 \<le> m" and "m \<le> 12" and "1 \<le> d" and "d \<le> month_length y m"
  shows "(5 * day_of_year m d + 2) div 153 = march_month m"
    and "day_of_year m d - (153 * march_month m + 2) div 5 + 1 = d"
    and "(153 * march_month m + 2) div 5 \<le> day_of_year m d"
proof -
  have "(5 * day_of_year m d + 2) div 153 = march_month m
    \<and> day_of_year m d - (153 * march_month m + 2) div 5 + 1 = d
    \<and> (153 * march_month m + 2) div 5 \<le> day_of_year m d"
    using month_cases_nat [OF assms(1,2)] assms(3,4)
    by (elim disjE) (auto simp: day_of_year_def march_month_def month_length_def split: if_splits)
  then show "(5 * day_of_year m d + 2) div 153 = march_month m"
    and "day_of_year m d - (153 * march_month m + 2) div 5 + 1 = d"
    and "(153 * march_month m + 2) div 5 \<le> day_of_year m d" by auto
qed

text \<open>A date and a time of day, as the number of milliseconds since 1970.\<close>

definition epoch_days :: nat where "epoch_days = day_number 1970 1 1"

lemma epoch_days_eq: "epoch_days = 719468"
  by (simp add: epoch_days_def day_number_def days_to_year_def march_year_def day_of_year_def march_month_def)

lemma days_to_year_mono: "y \<le> z \<Longrightarrow> days_to_year y \<le> days_to_year z"
  by (rule lift_Suc_mono_le) (simp add: days_to_year_Suc)

lemma day_number_bounds:
  assumes "valid_date y m d" and "1970 \<le> y" and "y \<le> 65535"
  shows "epoch_days \<le> day_number y m d" and "day_number y m d < 2 ^ 25"
proof -
  have m: "1 \<le> m" "m \<le> 12" "1 \<le> d" "d \<le> month_length y m" using assms(1) by (auto simp: valid_date_def)
  have doy: "m \<le> 2 \<Longrightarrow> 306 \<le> day_of_year m d" "day_of_year m d \<le> 365"
    using month_cases_nat [OF m(1,2)] m(3,4)
    by (elim disjE; auto simp: day_of_year_def march_month_def month_length_def split: if_splits)+
  have "days_to_year (if m \<le> 2 then 1969 else 1970) \<le> days_to_year (march_year y m)"
    using assms(2) by (intro days_to_year_mono) (auto simp: march_year_def)
  moreover have "days_to_year 1969 = 719162" "days_to_year 1970 = 719527" "days_to_year 65535 = 23936166"
    by (simp_all add: days_to_year_def)
  moreover have "days_to_year (march_year y m) \<le> days_to_year 65535"
    using assms(3) by (intro days_to_year_mono) (auto simp: march_year_def)
  ultimately show "epoch_days \<le> day_number y m d" "day_number y m d < 2 ^ 25"
    using doy by (auto simp: day_number_def epoch_days_eq split: if_splits)
qed

lemma get_unix_epoch_eq:
  assumes "valid_date y m d" and "1970 \<le> y" and "y \<le> 65535" and "h < 24" and "mi < 60" and "s < 60"
  shows "get_unix_epoch (of_nat s) (of_nat mi) (of_nat h) (of_nat d) (of_nat m) (of_nat y) =
    of_nat (s + 60 * (mi + 60 * (h + 24 * (day_number y m d - epoch_days))))"
proof -
  have m: "m \<le> 12" "d \<le> 31" using assms(1) by (auto simp: valid_date_def month_length_def split: if_splits)
  have args: "uint (of_nat d :: u8) = int d" "uint (of_nat m :: u8) = int m" "uint (of_nat y :: u16) = int y"
    "(ucast (of_nat h :: u8) :: u64) = of_nat h" "(ucast (of_nat mi :: u8) :: u64) = of_nat mi"
    "(ucast (of_nat s :: u8) :: u64) = of_nat s"
    using assms(3-) m by (simp_all add: word_nat_ucast unsigned_of_nat take_bit_nat_eq_self)
  have jdn: "get_jdn (int d) (int m) (int y) = int (day_number y m d) + 1721120"
    using assms(1,2) by (intro get_jdn_day_number) auto
  have "get_jdn 1 1 1970 = int epoch_days + 1721120"
    using get_jdn_day_number [of 1970 1 1] by (simp add: epoch_days_def valid_date_def month_length_def)
  moreover define N where "N = day_number y m d - epoch_days"
  ultimately have "of_int (get_jdn (int d) (int m) (int y)) - (of_int (get_jdn 1 1 1970) :: u64) = of_nat N"
    using jdn day_number_bounds(1) [OF assms(1-3)] by (simp add: of_nat_diff)
  then show ?thesis
    unfolding N_def [symmetric] by (simp add: get_unix_epoch_def Let_def args algebra_simps)
qed

lemma civil_of_ms_epoch:
  assumes "valid_date y m d" and "1970 \<le> y" and "y \<le> 65535"
    and "h < 24" and "mi < 60" and "s < 60" and "ms < 1000"
  shows "civil_of_ms (of_nat (ms + 1000 * (s + 60 * (mi + 60 * (h + 24 * (day_number y m d - epoch_days)))))) =
    \<lparr>ct_year = of_nat y, ct_month = of_nat m, ct_day = of_nat d, ct_hour = of_nat h, ct_min = of_nat mi,
      ct_sec = of_nat s, ct_ms = of_nat ms\<rparr>"
proof -
  have m: "1 \<le> m" "m \<le> 12" "1 \<le> d" "d \<le> month_length y m" using assms(1) by (auto simp: valid_date_def)
  have "1 \<le> y" using assms(2) by simp
  from assms(1) this obtain e c q r where y: "march_year y m = 400 * e + 100 * c + 4 * q + r"
    and small: "c < 4" "q < 25" "r < 4" and doy: "day_of_year m d \<le> 365"
    "day_of_year m d = 365 \<Longrightarrow> r = 3 \<and> (q = 24 \<longrightarrow> c = 3)"
    and D: "day_number y m d = (36524 * c + 1461 * q + 365 * r + day_of_year m d) + 146097 * e"
    by (rule date_decomposition) blast
  define N where "N = day_number y m d - epoch_days"
  have N: "N < 2 ^ 32" "(of_nat N :: u64) + 719468 = of_nat (day_number y m d)"
    using day_number_bounds [OF assms(1-3)] by (simp_all add: N_def epoch_days_eq of_nat_diff)
  have "march_year y m \<le> 65535" using assms(3) by (auto simp: march_year_def)
  then have e: "e < 200" unfolding y by linarith
  note date = date_of_days [OF D refl small doy e]
  note clock = clock_of_ms [OF assms(7,6,5,4) N(1)]
  let ?mp = "march_month m" and ?doy = "day_of_year m d"
  have mp: "?mp < 12" using m by (auto simp: march_month_def)
  have "((5 :: u32) * of_nat ?doy + 2) div 153 = of_nat ((5 * ?doy + 2) div 153)"
    using doy(1) by (simp only: word_nat_mult word_nat_add) (rule word_nat_div, simp_all)
  then have month: "((5 :: u32) * of_nat ?doy + 2) div 153 = of_nat ?mp" by (simp only: month_of_day(1) [OF m])
  have "(153 * (of_nat ?mp :: u32) + 2) div 5 = of_nat ((153 * ?mp + 2) div 5)"
    using mp by (simp only: word_nat_mult word_nat_add) (rule word_nat_div, simp_all)
  moreover have "?doy + 1 = d + (153 * ?mp + 2) div 5" using month_of_day(2,3) [OF m] by linarith
  then have "(of_nat (?doy + 1) :: u32) = of_nat (d + (153 * ?mp + 2) div 5)" by (simp only:)
  ultimately have day: "(of_nat ?doy :: u32) - (153 * of_nat ?mp + 2) div 5 + 1 = of_nat d" by (simp add: algebra_simps)
  have "(of_nat ?mp :: u32) < 10 \<longleftrightarrow> ?mp < 10" by (rule word_nat_less) (use mp in simp_all)
  then have mon: "(of_nat ?mp :: u32) + (if (of_nat ?mp :: u32) < 10 then 3 else - 9) = of_nat m"
    using m by (auto simp: march_month_def of_nat_diff)
  have "(of_nat m :: u32) \<le> 2 \<longleftrightarrow> m \<le> 2" by (rule word_nat_le) (use m in simp_all)
  moreover have "y = 100 * c + 4 * q + r + e * 400 + (if m \<le> 2 then 1 else 0)"
    using assms(2) y by (auto simp: march_year_def split: if_splits)
  ultimately have year: "(of_nat (100 * c + 4 * q + r + e * 400) :: u32) + (if (of_nat m :: u32) \<le> 2 then 1 else 0) = of_nat y"
    by simp
  have "ucast (of_nat k :: u64) = (of_nat k :: u32)" if "k < 1000" for k
    by (rule word_nat_ucast) (use that in simp)
  then show ?thesis
    using assms(4-7) unfolding N_def [symmetric] civil_of_ms_def Let_def
    by (simp only: clock date N(2) month day mon year)
qed

section \<open>The printed time\<close>

text \<open>The decimal numeral of \<open>n\<close> with exactly \<open>k\<close> digits.\<close>

primrec decimal :: "nat \<Rightarrow> nat \<Rightarrow> string" where
  "decimal 0 n = []"
| "decimal (Suc k) n = decimal k (n div 10) @ [digit_char False (n mod 10)]"

lemma length_decimal [simp]: "length (decimal k n) = k"
  by (induction k arbitrary: n) simp_all

lemma decimal_numeral [simp]:
  "decimal (numeral k) n = decimal (pred_numeral k) (n div 10) @ [digit_char False (n mod 10)]"
  by (simp only: numeral_eq_Suc [of k] decimal.simps)

lemma digit_chars:
  "digit_char False 0 = CHR ''0''" "digit_char False (Suc 0) = CHR ''1''" "digit_char False 1 = CHR ''1''" "digit_char False 2 = CHR ''2''"
  "digit_char False 3 = CHR ''3''" "digit_char False 4 = CHR ''4''" "digit_char False 5 = CHR ''5''"
  "digit_char False 6 = CHR ''6''" "digit_char False 7 = CHR ''7''" "digit_char False 8 = CHR ''8''"
  "digit_char False 9 = CHR ''9''"
  by (simp_all add: digit_char_def char_of_def bit_simps flip: bit_eq_iff)

lemma decimal_zero: "decimal k 0 = replicate k (CHR ''0'')"
  by (induction k) (simp_all add: digit_char_def char_of_def bit_simps flip: replicate_append_same)

lemma padded_digits:
  assumes "n < 10 ^ k" and "0 < k" and "len + k \<le> 20" and "n < 2 ^ 64"
  shows "rev (digits False 10 (of_nat n) len @ replicate (k - length (digits False 10 (of_nat n) len)) (CHR ''0'')) =
      decimal k n \<and> length (digits False 10 (of_nat n) len) \<le> k"
  using assms
proof (induction k arbitrary: n len)
  case 0
  then show ?case by simp
next
  case (Suc k)
  have dm: "(of_nat n :: u64) div 10 = of_nat (n div 10)" "(of_nat n :: u64) mod 10 = of_nat (n mod 10)"
    using Suc.prems(4) by (simp_all add: word_nat_div word_nat_mod)
  have zero: "(of_nat (n div 10) :: u64) = 0 \<longleftrightarrow> n div 10 = 0"
    using of_nat_word_inject [of "n div 10" 0, where 'a = 64] Suc.prems(4) by simp
  have dig: "unat (of_nat (n mod 10) :: u64) = n mod 10" by (rule unat_of_nat_less) simp
  show ?case
  proof (cases "n div 10 = 0")
    case True
    moreover have "unat (of_nat n :: u64) = n" using Suc.prems(4) by (simp add: unat_of_nat_less)
    ultimately show ?thesis
      by (simp add: digits.simps [of False 10 "of_nat n"] dm dig decimal_zero)
  next
    case False
    then have "k \<noteq> 0" using Suc.prems(1) by (cases k) auto
    with Suc.prems have "rev (digits False 10 (of_nat (n div 10)) (Suc len) @
          replicate (k - length (digits False 10 (of_nat (n div 10)) (Suc len))) (CHR ''0'')) = decimal k (n div 10)
        \<and> length (digits False 10 (of_nat (n div 10)) (Suc len)) \<le> k"
      by (intro Suc.IH) auto
    moreover have "Suc len < NTOA_BUFFER_SIZE" using Suc.prems(3) by (simp add: NTOA_BUFFER_SIZE_def)
    ultimately show ?thesis
      using False zero by (simp add: digits.simps [of False 10 "of_nat n"] dm dig)
  qed
qed

lemma format_padded:
  assumes "n < 10 ^ unat w" and "0 < unat w" and "unat w \<le> 9"
  shows "format_int (CHR ''d'') (no_flags\<lparr>zeropad := True\<rparr>) w 0 (ucast (of_nat n :: u32)) = decimal (unat w) n"
proof -
  have "10 ^ unat w \<le> (10 :: nat) ^ 9" using assms(3) by (intro power_increasing) auto
  then have n: "n < 10 ^ 9" using assms(1) by simp
  have v: "(ucast (of_nat n :: u32) :: u64) = of_nat n" using n by (intro word_nat_ucast) simp
  have nn: "(ucast (of_nat n :: u64) :: u32) = of_nat n" using n by (intro word_nat_ucast) simp
  have s: "sint (of_nat n :: u32) = int n"
    using n by (simp add: sint_uint signed_take_bit_int_eq_self unsigned_of_nat take_bit_nat_eq_self)
  have mag: "magnitude32 (of_nat n) = of_nat n" and neg: "\<not> (of_nat n :: u32) <s 0"
    by (auto simp: magnitude32_def word_sless_alt s)
  have m0: "magnitude32 0 = 0" by (simp add: magnitude32_def)
  have pad: "rev (digits False 10 (of_nat n) 0 @ replicate (unat w - length (digits False 10 (of_nat n) 0)) (CHR ''0'')) =
      decimal (unat w) n"
    using padded_digits [of n "unat w" 0] assms n by simp
  have "min (unat w) NTOA_BUFFER_SIZE = unat w" using assms(3) by (simp add: NTOA_BUFFER_SIZE_def)
  then show ?thesis
    using neg pad
    by (cases "(of_nat n :: u64) = 0") (simp_all add: format_int_def v nn no_flags_def Let_def mag m0 ntoa_long_def
        ntoa_format_def pad_zeros_def out_rev_def)
qed

text \<open>The text \<open>YYYY-MM-DDTHH:MM:SS.mmmZ\<close>.\<close>

definition iso8601_text :: "nat \<Rightarrow> nat \<Rightarrow> nat \<Rightarrow> nat \<Rightarrow> nat \<Rightarrow> nat \<Rightarrow> nat \<Rightarrow> string" where
  "iso8601_text y m d h mi s ms =
     decimal 4 y @ ''-'' @ decimal 2 m @ ''-'' @ decimal 2 d @ ''T'' @
     decimal 2 h @ '':'' @ decimal 2 mi @ '':'' @ decimal 2 s @ ''.'' @ decimal 3 ms @ ''Z''"

lemma convert_padded:
  "convert (CHR ''0'' # CHR ''2'' # CHR ''d'' # rest) (Num v # args) =
    Some (format_int (CHR ''d'') (no_flags\<lparr>zeropad := True\<rparr>) 2 0 v, rest, args)"
  "convert (CHR ''0'' # CHR ''3'' # CHR ''d'' # rest) (Num v # args) =
    Some (format_int (CHR ''d'') (no_flags\<lparr>zeropad := True\<rparr>) 3 0 v, rest, args)"
  "convert (CHR ''0'' # CHR ''4'' # CHR ''d'' # rest) (Num v # args) =
    Some (format_int (CHR ''d'') (no_flags\<lparr>zeropad := True\<rparr>) 4 0 v, rest, args)"
  by (simp_all add: conversion_defs)

lemma vsn_iso8601:
  assumes "y < 10000" and "m < 100" and "d < 100" and "h < 100" and "mi < 100" and "s < 100" and "ms < 1000"
  shows "vsn iso8601_format (iso8601_args \<lparr>ct_year = of_nat y, ct_month = of_nat m, ct_day = of_nat d,
      ct_hour = of_nat h, ct_min = of_nat mi, ct_sec = of_nat s, ct_ms = of_nat ms\<rparr>) =
    Some (iso8601_text y m d h mi s ms)"
proof -
  have "format_int (CHR ''d'') (no_flags\<lparr>zeropad := True\<rparr>) 2 0 (ucast (of_nat n :: u32)) = decimal 2 n"
    if "n < 100" for n
    using format_padded [of n 2] that by simp
  moreover have "format_int (CHR ''d'') (no_flags\<lparr>zeropad := True\<rparr>) 3 0 (ucast (of_nat ms :: u32)) = decimal 3 ms"
    using format_padded [of ms 3] assms by simp
  moreover have "format_int (CHR ''d'') (no_flags\<lparr>zeropad := True\<rparr>) 4 0 (ucast (of_nat y :: u32)) = decimal 4 y"
    using format_padded [of y 4] assms by simp
  ultimately show ?thesis
    using assms by (simp add: iso8601_format_def iso8601_args_def iso8601_text_def convert_padded
        del: decimal.simps decimal_numeral)
qed

lemma length_iso8601_text: "length (iso8601_text y m d h mi s ms) = 24"
  by (simp add: iso8601_text_def del: decimal.simps decimal_numeral)

lemma iso8601_of_epoch:
  assumes "valid_date y m d" and "1970 \<le> y" and "y \<le> 9999"
    and "h < 24" and "mi < 60" and "s < 60" and "ms < 1000"
  shows "vsn iso8601_format (iso8601_args (civil_of_ms (of_nat ms + 1000 *
      get_unix_epoch (of_nat s) (of_nat mi) (of_nat h) (of_nat d) (of_nat m) (of_nat y)))) =
    Some (iso8601_text y m d h mi s ms)"
proof -
  let ?N = "s + 60 * (mi + 60 * (h + 24 * (day_number y m d - epoch_days)))"
  have m: "m \<le> 12" "d \<le> 31" using assms(1) by (auto simp: valid_date_def month_length_def split: if_splits)
  have e: "get_unix_epoch (of_nat s) (of_nat mi) (of_nat h) (of_nat d) (of_nat m) (of_nat y) = of_nat ?N"
    using assms by (intro get_unix_epoch_eq) auto
  have "(of_nat ms + 1000 * of_nat ?N :: u64) = of_nat (ms + 1000 * ?N)"
    by (simp only: of_nat_add of_nat_mult of_nat_numeral)
  moreover have "civil_of_ms (of_nat (ms + 1000 * ?N)) =
      \<lparr>ct_year = of_nat y, ct_month = of_nat m, ct_day = of_nat d, ct_hour = of_nat h, ct_min = of_nat mi,
        ct_sec = of_nat s, ct_ms = of_nat ms\<rparr>"
    using assms by (intro civil_of_ms_epoch) auto
  ultimately show ?thesis unfolding e using assms(3-7) m by (simp only:) (intro vsn_iso8601, auto)
qed

section \<open>Properties\<close>

text \<open>
  From one day to the next, the Julian day number that \<open>get_jdn\<close> computes grows by one: over
  the ends of months, over leap days, which centuries that 400 does not divide lack, and over the
  ends of years.
\<close>

lemma jdn_counts_days:
  assumes "valid_date y m d" and "1 \<le> y" and "next_day (y, m, d) = (y', m', d')"
  shows "get_jdn (int d') (int m') (int y') = get_jdn (int d) (int m) (int y) + 1"
proof -
  note step = day_number_next_day [OF assms]
  have "1 \<le> y'" using assms(2,3) by (auto simp: next_day_def split: if_splits)
  then show ?thesis
    using get_jdn_day_number [OF assms(1,2)] get_jdn_day_number [OF step(2)] step(1) by simp
qed

lemma jdn_counts_days_example: "get_jdn 1 3 2100 = get_jdn 28 2 2100 + 1 \<and> get_jdn 29 2 2000 = get_jdn 28 2 2000 + 1"
proof
  show "get_jdn 1 3 2100 = get_jdn 28 2 2100 + 1"
    using jdn_counts_days [of 2100 2 28 2100 3 1]
    by (simp add: valid_date_def month_length_def leap_year_def next_day_def)
  show "get_jdn 29 2 2000 = get_jdn 28 2 2000 + 1"
    using jdn_counts_days [of 2000 2 28 2000 2 29]
    by (simp add: valid_date_def month_length_def leap_year_def next_day_def)
qed

text \<open>
  C31. \<open>get_unix_epoch\<close> and \<open>ms_to_iso8601\<close> are inverse to each other: the milliseconds since 1970 of
  any valid date and time up to the year 9999, printed into a buffer of 25 bytes, give the text of
  that very date and time and its terminating null, and change nothing outside the buffer.
\<close>

theorem epoch_iso8601_roundtrip:
  assumes "valid_date y m d" and "1970 \<le> y" and "y \<le> 9999"
    and "h < 24" and "mi < 60" and "s < 60" and "ms < 1000" and "buf \<noteq> 0"
  shows "\<exists>t. ms_to_iso8601 (of_nat ms + 1000 *
        get_unix_epoch (of_nat s) (of_nat mi) (of_nat h) (of_nat d) (of_nat m) (of_nat y)) buf 25 st = Done () t
    \<and> (\<forall>i < 24. mem t (buf + of_nat i) = of_nat (of_char (iso8601_text y m d h mi s ms ! i)))
    \<and> mem t (buf + 24) = 0 \<and> (\<forall>p. 25 \<le> p - buf \<longrightarrow> mem t p = mem st p)"
proof -
  let ?txt = "iso8601_text y m d h mi s ms"
  obtain t where run: "vsnprintf buf 25 iso8601_format (iso8601_args (civil_of_ms (of_nat ms + 1000 *
      get_unix_epoch (of_nat s) (of_nat mi) (of_nat h) (of_nat d) (of_nat m) (of_nat y)))) st =
      Done (of_nat (length ?txt)) t"
    and mem: "mem t p = (if unat (p - buf) < min (length ?txt) (unat (25 :: u64) - 1)
        then of_nat (of_char (?txt ! unat (p - buf)))
        else if unat (p - buf) = min (length ?txt) (unat (25 :: u64) - 1) then 0 else mem st p)" for p
    using vsnprintf_mem [OF iso8601_of_epoch [OF assms(1-7)] assms(8), of 25 st]
    by (auto simp: length_iso8601_text)
  have "mem t (buf + of_nat i) = of_nat (of_char (?txt ! i))" if "i < 24" for i
    using that by (simp add: mem length_iso8601_text unat_of_nat_less)
  moreover have "mem t p = mem st p" if "25 \<le> p - buf" for p
    using that by (simp add: mem length_iso8601_text word_le_nat_alt)
  moreover have "mem t (buf + 24) = 0" by (simp add: mem length_iso8601_text)
  ultimately show ?thesis using run by (simp add: ms_to_iso8601_def snprintf_def)
qed

theorem epoch_iso8601_roundtrip_witness:
  "\<exists>t. ms_to_iso8601 (7 + 1000 * get_unix_epoch 59 30 12 29 2 2024) 4096 25 example_machine = Done () t
    \<and> mem t 4096 = 50 \<and> mem t 4115 = 46 \<and> mem t 4120 = 0"
proof -
  have iso: "iso8601_text 2024 2 29 12 30 59 7 = ''2024-02-29T12:30:59.007Z''"
    by (simp add: iso8601_text_def digit_chars)
  obtain t where run: "ms_to_iso8601 (7 + 1000 * get_unix_epoch 59 30 12 29 2 2024) 4096 25 example_machine = Done () t"
    and chars: "\<forall>i < 24. mem t (4096 + of_nat i) = of_nat (of_char (''2024-02-29T12:30:59.007Z'' ! i))"
    and null: "mem t (4096 + 24) = 0"
    using epoch_iso8601_roundtrip [of 2024 2 29 12 30 59 7 4096 example_machine]
    by (auto simp: valid_date_def month_length_def leap_year_def iso)
  have "mem t 4096 = 50" "mem t 4115 = 46"
    using chars [rule_format, of 0] chars [rule_format, of 19] by simp_all
  with run null show ?thesis by auto
qed

end
