(* ===== verification/Rtc.thy ===== *)
theory Rtc
  imports Calendar Acpi
begin

text \<open>
  The real time clock, \<open>platform/x86_64/rtc.c\<close>: the CMOS registers behind their index port, their
  binary coded decimals, which the code converts by printing them in hexadecimal and reading the
  text as a decimal number, and the time stamp. The calendar is in theory Calendar.
\<close>

section \<open>Registers\<close>

definition CMOS_UPDATE_TIME :: u32 where "CMOS_UPDATE_TIME = 10"
definition REGISTER_SECONDS :: u8 where "REGISTER_SECONDS = 0x00"
definition REGISTER_MINUTES :: u8 where "REGISTER_MINUTES = 0x02"
definition REGISTER_HOURS :: u8 where "REGISTER_HOURS = 0x04"
definition REGISTER_DAY_OF_MONTH :: u8 where "REGISTER_DAY_OF_MONTH = 0x07"
definition REGISTER_MONTH :: u8 where "REGISTER_MONTH = 0x08"
definition REGISTER_YEAR :: u8 where "REGISTER_YEAR = 0x09"

lemmas rtc_consts = CMOS_UPDATE_TIME_def REGISTER_SECONDS_def REGISTER_MINUTES_def REGISTER_HOURS_def
  REGISTER_DAY_OF_MONTH_def REGISTER_MONTH_def REGISTER_YEAR_def

definition sel_cmos_reg :: "u8 \<Rightarrow> 'z devices_scheme \<Rightarrow> 'z devices_scheme" where
  "sel_cmos_reg offset = outb 0x70 (NOT (push_bit 7 1) AND offset)"

definition read_cmos_reg :: "u8 \<Rightarrow> 'z devices_scheme \<Rightarrow> (u8, 'z devices_scheme) outcome" where
  "read_cmos_reg offset s =
     bindO (apic_sleep_ms CMOS_UPDATE_TIME (sel_cmos_reg offset s)) (\<lambda>_ s. inb 0x71 s)"

definition write_cmos_reg :: "u8 \<Rightarrow> u8 \<Rightarrow> 'z devices_scheme \<Rightarrow> (unit, 'z devices_scheme) outcome" where
  "write_cmos_reg offset val s =
     bindO (apic_sleep_ms CMOS_UPDATE_TIME (sel_cmos_reg offset s)) (\<lambda>_ s. Done () (outb 0x71 val s))"

text \<open>The loop reads no more than a few digits: \<open>int\<close> does not overflow.\<close>

definition cmos_atoi :: "string \<Rightarrow> int" where
  "cmos_atoi strg = foldl (\<lambda>res c. res * 10 + (of_char c - 48)) 0 strg"

section \<open>The time stamp\<close>

text \<open>
  \<open>snprintf\<close> into an array of 9 characters on the stack, with a count of 10: a text of 9 characters
  would write its terminating null past the array.
\<close>

definition snprintf_local :: "string \<Rightarrow> fmt_arg list \<Rightarrow> 's \<Rightarrow> (string, 's) outcome" where
  "snprintf_local fmt args s =
     (case vsn fmt args of
        None \<Rightarrow> Stop (Fault ''bad format arguments'') s
      | Some txt \<Rightarrow> if length txt < 9 then Done txt s else Stop (Fault ''stack buffer overflow'') s)"

definition cmos_text :: "u8 \<Rightarrow> 'z devices_scheme \<Rightarrow> (string, 'z devices_scheme) outcome" where
  "cmos_text offset s =
     bindO (read_cmos_reg offset s) (\<lambda>v s. snprintf_local ''%x'' [Num (ucast v)] s)"

definition read_century :: "'z acpi_scheme \<Rightarrow> (u32, 'z acpi_scheme) outcome" where
  "read_century s =
     (let reg = mem s (fadt s + FADT_CENTURY) in
      if reg \<noteq> 0 then bindO (read_cmos_reg reg s) (\<lambda>v s. Done (ucast v) s)
      else Done 0x20 (k_wrn (''No century supported in RTC, assuming it'' @ [CHR 0x27] @ ''s still 20xx.'') [] s))"

definition get_unix_timestamp :: "'z acpi_scheme \<Rightarrow> (u64, 'z acpi_scheme) outcome" where
  "get_unix_timestamp s =
     bindO (read_century s) (\<lambda>century s.
     bindO (cmos_text REGISTER_SECONDS s) (\<lambda>seconds s.
     bindO (cmos_text REGISTER_MINUTES s) (\<lambda>minutes s.
     bindO (cmos_text REGISTER_HOURS s) (\<lambda>hours s.
     bindO (cmos_text REGISTER_DAY_OF_MONTH s) (\<lambda>day s.
     bindO (cmos_text REGISTER_MONTH s) (\<lambda>month s.
     bindO (bindO (read_cmos_reg REGISTER_YEAR s) (\<lambda>v s.
       snprintf_local ''%x%x'' [Num (ucast century), Num (ucast v)] s)) (\<lambda>year s.
     Done (get_unix_epoch (of_int (cmos_atoi seconds)) (of_int (cmos_atoi minutes)) (of_int (cmos_atoi hours))
       (of_int (cmos_atoi day)) (of_int (cmos_atoi month)) (of_int (cmos_atoi year))) s)))))))"

text \<open>The buffer that \<open>get_formatted_time\<close> returns.\<close>

definition get_formatted_time :: "'z acpi_scheme \<Rightarrow> (u64, 'z acpi_scheme) outcome" where
  "get_formatted_time s =
     bindO (kmalloc 25 s) (\<lambda>buf s.
     bindO (get_unix_timestamp s) (\<lambda>stamp s.
     bindO (ms_to_iso8601 (stamp * 1000) buf 25 s) (\<lambda>_ s. Done buf s)))"

section \<open>Binary coded decimals\<close>

definition bcd :: "u8 \<Rightarrow> nat" where "bcd b = 10 * (unat b div 16) + unat b mod 16"

definition is_bcd :: "u8 \<Rightarrow> bool" where "is_bcd b \<longleftrightarrow> unat b div 16 < 10 \<and> unat b mod 16 < 10"

definition hex_byte :: "nat \<Rightarrow> string" where
  "hex_byte n = (if n < 16 then [digit_char False n] else [digit_char False (n div 16), digit_char False (n mod 16)])"

lemma digits_byte:
  assumes "unat v < 256"
  shows "rev (digits False 16 v 0) = hex_byte (unat v)"
proof -
  have d: "unat (v div 16) = unat v div 16" "unat (v mod 16) = unat v mod 16"
    by (simp_all add: unat_div unat_mod)
  have z: "v div 16 \<noteq> 0 \<longleftrightarrow> \<not> unat v < 16"
    using d(1) by (metis div_eq_0_iff unat_eq_zero zero_neq_numeral)
  have "v div 16 < 16" using assms d(1) by (simp add: word_less_nat_alt)
  then have z': "v div 16 div 16 = 0" and m: "v div 16 mod 16 = v div 16"
    by (rule div_word_less, rule mod_word_less)
  show ?thesis
    by (subst digits.simps, subst digits.simps)
      (simp add: z z' m d hex_byte_def NTOA_BUFFER_SIZE_def)
qed

lemma hex_conversion:
  "vsn ''%x'' [Num v] = Some (rev (digits False 16 (ucast (ucast v :: u32)) 0))"
  "vsn ''%x%x'' [Num v, Num w] =
    Some (rev (digits False 16 (ucast (ucast v :: u32)) 0) @ rev (digits False 16 (ucast (ucast w :: u32)) 0))"
  by (simp_all add: conversion_defs format_int_def ntoa_long_def ntoa_format_def no_flags_def Let_def
      pad_zeros_def out_rev_def spaces_def)

lemma hex_of_byte: "rev (digits False 16 (ucast (ucast (ucast (b :: u8) :: u64) :: u32)) 0) = hex_byte (unat b)"
proof -
  define n where "n = unat b"
  have n: "n < 256" "b = of_nat n" using unsigned_less [of b, where ?'a = nat] by (simp_all add: n_def)
  then have "ucast (ucast (ucast b :: u64) :: u32) = (of_nat n :: u64)" by (simp add: word_nat_ucast)
  then show ?thesis using n digits_byte [of "of_nat n"] by (simp add: unat_of_nat_less)
qed

lemma ucast_of_byte: "ucast (ucast (b :: u8) :: u32) = (ucast b :: u64)"
proof -
  define n where "n = unat b"
  have "n < 256" "b = of_nat n" using unsigned_less [of b, where ?'a = nat] by (simp_all add: n_def)
  then show ?thesis by (simp add: word_nat_ucast)
qed

lemma of_char_digit:
  assumes "d < 10"
  shows "(of_char (digit_char False d) :: int) = int d + 48"
proof -
  have "(of_char (digit_char False d) :: nat) = d + 48"
    using assms by (simp add: digit_char_def take_bit_nat_eq_self)
  then have "int (of_char (digit_char False d)) = int d + 48" by simp
  then show ?thesis by (simp only: of_nat_of_char)
qed

lemma cmos_atoi_snoc: "cmos_atoi (xs @ [c]) = cmos_atoi xs * 10 + (of_char c - 48)"
  by (simp add: cmos_atoi_def)

lemma cmos_atoi_append_byte:
  assumes "is_bcd b"
  shows "cmos_atoi (xs @ hex_byte (unat b)) = cmos_atoi xs * (if unat b < 16 then 10 else 100) + int (bcd b)"
proof (cases "unat b < 16")
  case True
  then show ?thesis using assms
    by (simp add: hex_byte_def cmos_atoi_snoc of_char_digit bcd_def is_bcd_def)
next
  case False
  have "cmos_atoi (xs @ hex_byte (unat b)) = cmos_atoi ((xs @ [digit_char False (unat b div 16)]) @ [digit_char False (unat b mod 16)])"
    using False by (simp add: hex_byte_def)
  also have "\<dots> = (cmos_atoi xs * 10 + int (unat b div 16)) * 10 + int (unat b mod 16)"
    unfolding cmos_atoi_snoc using assms by (simp add: is_bcd_def of_char_digit)
  finally show ?thesis using False by (simp add: bcd_def)
qed

lemma cmos_atoi_byte: "is_bcd b \<Longrightarrow> cmos_atoi (hex_byte (unat b)) = int (bcd b)"
  using cmos_atoi_append_byte [of b "[]"] by (simp add: cmos_atoi_def)

section \<open>The clock as a device\<close>

text \<open>
  A CMOS memory behind the ports answers a read of the data port with the register that was
  selected last.
\<close>

definition selected :: "io_access list \<Rightarrow> u8" where
  "selected = foldl (\<lambda>r e. case e of PortOut p v \<Rightarrow> if p = 0x70 then v else r | _ \<Rightarrow> r) 0"

definition cmos_answers :: "(u8 \<Rightarrow> u8) \<Rightarrow> 'z devices_scheme \<Rightarrow> bool" where
  "cmos_answers cmos s \<longleftrightarrow> (\<forall>tr. port_value s tr 0x71 = cmos (selected tr))"

text \<open>The clock answers, and the timer runs and has room for the waits of \<open>n\<close> register accesses.\<close>

definition rtc_ready :: "(u8 \<Rightarrow> u8) \<Rightarrow> nat \<Rightarrow> nat \<Rightarrow> 'z devices_scheme \<Rightarrow> bool" where
  "rtc_ready cmos K n s \<longleftrightarrow> cmos_answers cmos s
     \<and> (\<forall>tr. 1 \<le> snd (timer_irqs s tr) \<and> snd (timer_irqs s tr) \<le> K)
     \<and> unat (apic_ticks s) + n * (10 + K) < 2 ^ 64"

lemma selected_snoc: "selected (tr @ [PortOut 0x70 v]) = v"
  by (simp add: selected_def)

lemma selected_halts: "selected (tr @ replicate n Hlt) = selected tr"
  unfolding selected_def foldl_append by (induction n) simp_all

lemma low_register:
  assumes "(r :: u8) < 0x80"
  shows "NOT (push_bit 7 1) AND r = r"
proof (rule bit_word_eqI)
  fix n :: nat assume n: "n < LENGTH(8)"
  have "drop_bit 7 r = 0" using assms by (simp add: drop_bit_eq_div div_word_less)
  moreover have "bit (drop_bit 7 r) 0 = bit r 7" by (simp add: bit_drop_bit_eq del: bit_0)
  ultimately have "\<not> bit r 7" by simp
  moreover have "push_bit 7 1 = (2 :: u8) ^ 7" by simp
  then have "bit (push_bit 7 (1 :: u8)) n \<longleftrightarrow> n = 7"
    using n by (simp only: bit_exp_iff) (auto simp: possible_bit_def)
  ultimately show "bit (NOT (push_bit 7 1) AND r) n = bit r n"
    using n by (simp only: bit_and_iff bit_not_iff) (auto simp: possible_bit_def)
qed

text \<open>Reading a register selects it, waits, and returns it.\<close>

lemma read_cmos_done:
  assumes "rtc_ready cmos K (n + 1) s" and "r < 0x80"
  shows "\<exists>t. read_cmos_reg r s = Done (cmos r) t \<and> rtc_ready cmos K n t"
proof -
  let ?s = "s\<lparr>io := io s @ [PortOut 0x70 r]\<rparr>"
  have "unat (apic_ticks s) + (n + 1) * (10 + K) < 2 ^ 64" using assms(1) by (simp only: rtc_ready_def)
  then have room: "unat (apic_ticks s) + 10 + K + n * (10 + K) < 2 ^ 64"
    by (simp only: add_mult_distrib mult_1 ac_simps)
  have sel: "sel_cmos_reg r s = ?s"
    unfolding sel_cmos_reg_def outb_def access_def low_register [OF assms(2)] ..
  have "(0 :: u32) < 10" "unat (apic_ticks ?s) + unat (10 :: u32) + K < 2 ^ 64"
    "\<forall>tr. 1 \<le> snd (timer_irqs ?s tr) \<and> snd (timer_irqs ?s tr) \<le> K"
    using room assms(1) by (simp_all add: rtc_ready_def)
  then obtain u k p a where run: "apic_sleep_ms 10 ?s = Done () u"
    and ticks: "unat (apic_ticks u) < unat (apic_ticks ?s) + unat (10 :: u32) + K"
    and u: "u = ?s\<lparr>io := io ?s @ replicate k Hlt, pit_ticks := p, apic_ticks := a\<rparr>"
    by (rule apic_sleep_done)
  have "port_value u (io u) 0x71 = cmos (selected ((io s @ [PortOut 0x70 r]) @ replicate k Hlt))"
    using assms(1) by (simp add: u rtc_ready_def cmos_answers_def)
  then have v: "port_value u (io u) 0x71 = cmos r" by (simp only: selected_halts selected_snoc)
  have "read_cmos_reg r s = Done (cmos r) (access (PortIn 0x71 (cmos r)) u)"
    using run by (simp add: read_cmos_reg_def sel CMOS_UPDATE_TIME_def inb_def Let_def v)
  moreover have "rtc_ready cmos K n (access (PortIn 0x71 (cmos r)) u)"
    using assms(1) ticks room by (simp add: u rtc_ready_def cmos_answers_def)
  ultimately show ?thesis by blast
qed

lemma cmos_text_done:
  assumes "rtc_ready cmos K (n + 1) s" and "r < 0x80"
  shows "\<exists>t. cmos_text r s = Done (hex_byte (unat (cmos r))) t \<and> rtc_ready cmos K n t"
proof -
  obtain t where "read_cmos_reg r s = Done (cmos r) t" "rtc_ready cmos K n t"
    using read_cmos_done [OF assms] by blast
  moreover have "length (hex_byte (unat (cmos r))) < 9" by (simp add: hex_byte_def)
  moreover have "vsn ''%x'' [Num (ucast (cmos r))] = Some (hex_byte (unat (cmos r)))"
    by (simp only: hex_conversion hex_of_byte)
  ultimately show ?thesis
    by (simp add: cmos_text_def snprintf_local_def del: vsn.simps)
qed

section \<open>Properties\<close>

text \<open>
  C39. The time stamp is the time the clock shows, in seconds since 1970, when the year of the
  century has two digits: with a CMOS memory that answers with its registers, a running timer and
  registers in binary coded decimal, \<open>get_unix_timestamp\<close> returns the epoch of the decoded
  registers. In the first ten years of a century the unpadded year loses a digit: 2005 is read as
  the year 205.
\<close>

theorem timestamp_of_clock:
  assumes "rtc_ready cmos K 7 s"
    and "c = mem s (fadt s + FADT_CENTURY)" and "c \<noteq> 0" and "c < 0x80"
    and "\<forall>r \<in> {0x00, 0x02, 0x04, 0x07, 0x08, 0x09, c}. is_bcd (cmos r)"
  shows "\<exists>t. get_unix_timestamp s = Done (get_unix_epoch
      (of_nat (bcd (cmos 0x00))) (of_nat (bcd (cmos 0x02))) (of_nat (bcd (cmos 0x04)))
      (of_nat (bcd (cmos 0x07))) (of_nat (bcd (cmos 0x08)))
      (of_nat (bcd (cmos c) * (if cmos 0x09 < 0x10 then 10 else 100) + bcd (cmos 0x09)))) t"
proof -
  obtain s1 where s1: "read_cmos_reg c s = Done (cmos c) s1" "rtc_ready cmos K 6 s1"
    using read_cmos_done [of cmos K 6 s c] assms(1,4) by auto
  obtain s2 where s2: "cmos_text 0x00 s1 = Done (hex_byte (unat (cmos 0x00))) s2" "rtc_ready cmos K 5 s2"
    using cmos_text_done [of cmos K 5 s1 "0x00"] s1(2) by auto
  obtain s3 where s3: "cmos_text 0x02 s2 = Done (hex_byte (unat (cmos 0x02))) s3" "rtc_ready cmos K 4 s3"
    using cmos_text_done [of cmos K 4 s2 "0x02"] s2(2) by auto
  obtain s4 where s4: "cmos_text 0x04 s3 = Done (hex_byte (unat (cmos 0x04))) s4" "rtc_ready cmos K 3 s4"
    using cmos_text_done [of cmos K 3 s3 "0x04"] s3(2) by auto
  obtain s5 where s5: "cmos_text 0x07 s4 = Done (hex_byte (unat (cmos 0x07))) s5" "rtc_ready cmos K 2 s5"
    using cmos_text_done [of cmos K 2 s4 "0x07"] s4(2) by auto
  obtain s6 where s6: "cmos_text 0x08 s5 = Done (hex_byte (unat (cmos 0x08))) s6" "rtc_ready cmos K 1 s6"
    using cmos_text_done [OF s5(2) [folded one_add_one], of "0x08"] by auto
  obtain s7 where s7: "read_cmos_reg 0x09 s6 = Done (cmos 0x09) s7"
    using read_cmos_done [of cmos K 0 s6 "0x09"] s6(2) by auto
  let ?year = "hex_byte (unat (cmos c)) @ hex_byte (unat (cmos 0x09))"
  have "vsn ''%x%x'' [Num (ucast (ucast (cmos c) :: u32)), Num (ucast (cmos 0x09))] = Some ?year"
    by (simp only: hex_conversion hex_of_byte ucast_of_byte)
  then have printed: "snprintf_local ''%x%x'' [Num (ucast (ucast (cmos c) :: u32)), Num (ucast (cmos 0x09))] s7 = Done ?year s7"
    by (simp add: snprintf_local_def hex_byte_def del: vsn.simps)
  have "cmos_atoi ?year = int (bcd (cmos c) * (if cmos 0x09 < 0x10 then 10 else 100) + bcd (cmos 0x09))"
    using assms(5) by (simp add: cmos_atoi_append_byte cmos_atoi_byte word_less_nat_alt)
  moreover have "cmos_atoi (hex_byte (unat (cmos r))) = int (bcd (cmos r))"
    if "r \<in> {0x00, 0x02, 0x04, 0x07, 0x08}" for r
    using that assms(5) by (intro cmos_atoi_byte) auto
  ultimately show ?thesis
    using s1(1) s2(1) s3(1) s4(1) s5(1) s6(1) s7 printed assms(2,3)
    by (simp add: get_unix_timestamp_def read_century_def rtc_consts Let_def)
qed

definition example_cmos :: "u8 \<Rightarrow> u8 \<Rightarrow> u8" where
  "example_cmos year r = (if r = 0x00 then 0x59 else if r = 0x02 then 0x30 else if r = 0x04 then 0x12
     else if r = 0x07 then 0x29 else if r = 0x08 then 0x02 else if r = 0x09 then year else 0x20)"

definition example_rtc :: "u8 \<Rightarrow> acpi" where
  "example_rtc year = (example_acpi [])\<lparr>mem := (\<lambda>a. if a = 108 then 0x32 else 0),
     port_value := \<lambda>tr _. example_cmos year (selected tr)\<rparr>"

theorem timestamp_of_clock_witness:
  "(\<exists>t. get_unix_timestamp (example_rtc 0x24) = Done (get_unix_epoch 59 30 12 29 2 2024) t)
    \<and> (\<exists>t. get_unix_timestamp (example_rtc 0x05) = Done (get_unix_epoch 59 30 12 29 2 205) t)"
proof -
  have ready: "rtc_ready (example_cmos year) 1 7 (example_rtc year)" for year
    by (simp add: rtc_ready_def cmos_answers_def example_rtc_def example_acpi_def lapic.defs acpi.defs)
  have century: "0x32 = mem (example_rtc year) (fadt (example_rtc year) + FADT_CENTURY)" for year
    by (simp add: example_rtc_def example_acpi_def lapic.defs acpi.defs FADT_CENTURY_def)
  have "\<forall>r \<in> {0x00, 0x02, 0x04, 0x07, 0x08, 0x09, 0x32}. is_bcd (example_cmos year r)"
    if "is_bcd year" for year
    using that by (simp add: example_cmos_def is_bcd_def)
  from timestamp_of_clock [OF ready century _ _ this]
  have run: "\<exists>t. get_unix_timestamp (example_rtc year) = Done (get_unix_epoch 59 30 12 29 2
      (of_nat (20 * (if year < 0x10 then 10 else 100) + bcd year))) t" if "is_bcd year" for year
    using that by (simp add: example_cmos_def bcd_def)
  from run [of "0x24"] run [of "0x05"] show ?thesis by (simp add: is_bcd_def bcd_def)
qed

end
