(* ===== verification/Serial.thy ===== *)
theory Serial
  imports Timers
begin

text \<open>
  The serial line, \<open>driver/rs232.c\<close>: the registers of the UART, polled input and output, and the
  set-up with its two self tests. The loop over a C string with an 8-bit index is shared with the
  console, which has the same loop.
\<close>

section \<open>Registers\<close>

definition COM1 :: u16 where "COM1 = 0x3F8"
definition IO :: u16 where "IO = 0"
definition DIVISOR_LSB :: u16 where "DIVISOR_LSB = 0"
definition DIVISOR_MSB :: u16 where "DIVISOR_MSB = 1"
definition INTERRUPT_ENABLE :: u16 where "INTERRUPT_ENABLE = 1"
definition FIFO :: u16 where "FIFO = 2"
definition LINE_CONTROL :: u16 where "LINE_CONTROL = 3"
definition MODEM_CONTROL :: u16 where "MODEM_CONTROL = 4"
definition LINE_STATUS :: u16 where "LINE_STATUS = 5"
definition SCRATCH :: u16 where "SCRATCH = 7"
definition MAX_BAUD :: u32 where "MAX_BAUD = 115200"
definition TEST_BYTE :: u8 where "TEST_BYTE = 0x3a"

lemmas serial_consts = COM1_def IO_def DIVISOR_LSB_def DIVISOR_MSB_def INTERRUPT_ENABLE_def FIFO_def
  LINE_CONTROL_def MODEM_CONTROL_def LINE_STATUS_def SCRATCH_def MAX_BAUD_def TEST_BYTE_def

definition WRITE_REG :: "u16 \<Rightarrow> u8 \<Rightarrow> 'z devices_scheme \<Rightarrow> 'z devices_scheme" where
  "WRITE_REG offset value = outb (COM1 + offset) value"

definition READ_REG :: "u16 \<Rightarrow> 'z devices_scheme \<Rightarrow> (u8, 'z devices_scheme) outcome" where
  "READ_REG offset = inb (COM1 + offset)"

section \<open>Loops that may not end\<close>

text \<open>A loop without a result never leaves its state: the outcome is \<open>Hang\<close> in the state before it.\<close>

definition ended :: "'s \<Rightarrow> ('a, 's) outcome option \<Rightarrow> ('a, 's) outcome" where
  "ended s r = (case r of None \<Rightarrow> Stop Hang s | Some x \<Rightarrow> x)"

text \<open>\<open>while (!ready()) {}\<close>\<close>

partial_function (option) poll ::
  "('s \<Rightarrow> (bool, 's) outcome) \<Rightarrow> 's \<Rightarrow> (unit, 's) outcome option" where
  "poll ready s =
     (case ready s of
        Done r t \<Rightarrow> if r then Some (Done () t) else poll ready t
      | Stop e t \<Rightarrow> Some (Stop e t))"

text \<open>
  The loop of \<open>serial_write_string\<close> and \<open>k_puts\<close> over a null-terminated string. Its index is an
  8-bit word, which wraps around.
\<close>

definition char_at :: "string \<Rightarrow> u8 \<Rightarrow> u8" where
  "char_at txt i = (if unat i < length txt then of_char (txt ! unat i) else 0)"

partial_function (option) puts_loop ::
  "(u8 \<Rightarrow> 's \<Rightarrow> (unit, 's) outcome) \<Rightarrow> string \<Rightarrow> u8 \<Rightarrow> 's \<Rightarrow> (unit, 's) outcome option" where
  "puts_loop put txt i s =
     (if char_at txt i = 0 then Some (Done () s)
      else case put (char_at txt i) s of
        Done _ t \<Rightarrow> puts_loop put txt (i + 1) t
      | Stop e t \<Rightarrow> Some (Stop e t))"

definition no_nul :: "string \<Rightarrow> bool" where "no_nul txt \<longleftrightarrow> (\<forall>c \<in> set txt. of_char c \<noteq> (0 :: u8))"

section \<open>The driver\<close>

definition check_com1 :: "'z devices_scheme \<Rightarrow> (unit, 'z devices_scheme) outcome" where
  "check_com1 s =
     bindO (READ_REG SCRATCH (WRITE_REG SCRATCH TEST_BYTE s)) (\<lambda>v s.
     if v \<noteq> TEST_BYTE then set_state SERIAL_INTERRUPT_INITIALIZED 0 (k_err ''COM1 was bad!'' [] s)
     else Done () s)"

definition data_in_fifo :: "'z devices_scheme \<Rightarrow> (bool, 'z devices_scheme) outcome" where
  "data_in_fifo s = bindO (READ_REG LINE_STATUS s) (\<lambda>v s. Done (v AND 1 \<noteq> 0) s)"

definition transmitter_ready :: "'z devices_scheme \<Rightarrow> (bool, 'z devices_scheme) outcome" where
  "transmitter_ready s = bindO (READ_REG LINE_STATUS s) (\<lambda>v s. Done (v AND push_bit 5 1 \<noteq> 0) s)"

definition serial_readb_unsafe_nonblocking :: "'z devices_scheme \<Rightarrow> (u8, 'z devices_scheme) outcome" where
  "serial_readb_unsafe_nonblocking = READ_REG IO"

definition serial_readb_blocking :: "'z devices_scheme \<Rightarrow> (u8, 'z devices_scheme) outcome" where
  "serial_readb_blocking s =
     bindO (ended s (poll data_in_fifo s)) (\<lambda>_ s. serial_readb_unsafe_nonblocking s)"

definition serial_writeb_unsafe_nonblocking :: "u8 \<Rightarrow> 'z devices_scheme \<Rightarrow> 'z devices_scheme" where
  "serial_writeb_unsafe_nonblocking byte s =
     (if byte = 0x0A \<or> byte = 0x0D then WRITE_REG IO 0x0A (WRITE_REG IO 0x0D s)
      else WRITE_REG IO byte s)"

definition serial_writeb_blocking :: "u8 \<Rightarrow> 'z devices_scheme \<Rightarrow> (unit, 'z devices_scheme) outcome" where
  "serial_writeb_blocking byte s =
     bindO (ended s (poll transmitter_ready s)) (\<lambda>_ s. Done () (serial_writeb_unsafe_nonblocking byte s))"

definition serial_write_string :: "string \<Rightarrow> 'z devices_scheme \<Rightarrow> (unit, 'z devices_scheme) outcome" where
  "serial_write_string txt s = ended s (puts_loop serial_writeb_blocking txt 0 s)"

definition setup_serial :: "u32 \<Rightarrow> 'z devices_scheme \<Rightarrow> (unit, 'z devices_scheme) outcome" where
  "setup_serial baud s =
     bindO (check_com1 s) (\<lambda>_ s.
     if baud = 0 then Stop (Fault ''division by zero'') s
     else if MAX_BAUD mod baud \<noteq> 0
     then set_state SERIAL_INTERRUPT_INITIALIZED 0 (k_err ''Bad baud rate!'' [] s)
     else
       let lsb = ucast (MAX_BAUD div baud);
           s = WRITE_REG LINE_CONTROL 0x00 s;
           s = WRITE_REG INTERRUPT_ENABLE 0x01 s;
           s = WRITE_REG LINE_CONTROL 0x80 s;
           s = WRITE_REG DIVISOR_LSB lsb s;
           s = WRITE_REG DIVISOR_MSB 0x00 s;
           s = WRITE_REG LINE_CONTROL 0x03 s;
           s = WRITE_REG FIFO 0x07 s;
           s = WRITE_REG MODEM_CONTROL 0x0B s;
           s = WRITE_REG MODEM_CONTROL 0x1E s;
           s = WRITE_REG IO TEST_BYTE s
       in bindO (READ_REG IO s) (\<lambda>inbyte s.
          if inbyte \<noteq> TEST_BYTE
          then set_state SERIAL_INTERRUPT_INITIALIZED 0
            (k_err ''Loopback got wrong byte! Got 0x%x, expected 0x%x'' [Num (ucast inbyte), Num (ucast TEST_BYTE)] s)
          else
            bindO (unmask_irq 4 (WRITE_REG MODEM_CONTROL 0x0F s)) (\<lambda>_ s.
            set_state SERIAL_INTERRUPT_INITIALIZED 1 s)))"

section \<open>Strings\<close>

lemma of_nat_inc: "of_nat (Suc i) = (of_nat i + 1 :: 'a::len word)" by simp

lemma puts_loop_from:
  assumes "length txt < 256" and "no_nul txt" and "i \<le> length txt"
  shows "puts_loop put txt (of_nat i) s = Some (for_each (map of_char (drop i txt)) put s)"
  using assms(3)
proof (induction "length txt - i" arbitrary: i s)
  case 0
  then have "i = length txt" by simp
  then show ?case using assms(1) by (subst puts_loop.simps) (simp add: char_at_def unat_of_nat_less)
next
  case (Suc n)
  then have i: "i < length txt" by simp
  then have un: "unat (of_nat i :: u8) = i" using assms(1) by (intro unat_of_nat_less) simp
  have c: "char_at txt (of_nat i) = of_char (txt ! i)" using i un by (simp add: char_at_def)
  have nz: "of_char (txt ! i) \<noteq> (0 :: u8)" using i assms(2) by (simp add: no_nul_def)
  have IH: "puts_loop put txt (of_nat i + 1) t = Some (for_each (map of_char (drop (Suc i) txt)) put t)" for t
    using Suc(1) [of "Suc i" t] Suc(2) i by (simp add: add.commute)
  have d: "drop i txt = txt ! i # drop (Suc i) txt" using i by (rule Cons_nth_drop_Suc [symmetric])
  show ?case
    by (subst puts_loop.simps) (cases "put (of_char (txt ! i)) s"; simp add: c nz IH d)
qed

text \<open>A string shorter than 256 characters is written character by character.\<close>

lemma puts_loop_short:
  "length txt < 256 \<Longrightarrow> no_nul txt \<Longrightarrow> puts_loop put txt 0 s = Some (for_each (map of_char txt) put s)"
  using puts_loop_from [where i = 0] by simp

text \<open>A longer one never ends: the index wraps around before it reaches the terminating null.\<close>

lemma puts_loop_long:
  assumes "256 \<le> length txt" and "no_nul txt"
  shows "puts_loop put txt i s \<noteq> Some (Done u t)"
proof
  assume run: "puts_loop put txt i s = Some (Done u t)"
  have nz: "char_at txt j \<noteq> 0" for j
    using assms unsigned_less [of j, where ?'a = nat] by (auto simp: char_at_def no_nul_def)
  let ?P = "\<lambda>put' txt' i s r. put' = put \<longrightarrow> txt' = txt \<longrightarrow> r \<noteq> Done u t"
  have "?P put txt i s (Done u t)"
  proof (rule puts_loop.raw_induct [where P = ?P, OF _ run])
    fix loop and put' :: "u8 \<Rightarrow> 'a \<Rightarrow> (unit, 'a) outcome" and txt' i s r
    assume IH: "\<And>put' txt' i s r. loop put' txt' i s = Some r \<Longrightarrow> ?P put' txt' i s r"
      and run: "(if char_at txt' i = 0 then Some (Done () s)
        else case put' (char_at txt' i) s of Done _ t \<Rightarrow> loop put' txt' (i + 1) t | Stop e t \<Rightarrow> Some (Stop e t)) = Some r"
    show "?P put' txt' i s r"
    proof (intro impI)
      assume eqs: "put' = put" "txt' = txt"
      show "r \<noteq> Done u t"
      proof (cases "put (char_at txt i) s")
        case (Done x v)
        then have "loop put txt (i + 1) v = Some r" using run nz eqs by simp
        then show ?thesis using IH eqs by blast
      qed (use run nz eqs in auto)
    qed
  qed
  then show False by simp
qed

section \<open>The serial copy\<close>

text \<open>Serial output only accesses ports.\<close>

definition accessed :: "'z devices_scheme \<Rightarrow> 'z devices_scheme \<Rightarrow> bool" where
  "accessed s t \<longleftrightarrow> (\<exists>tr. t = s\<lparr>io := io s @ tr\<rparr>)"

lemma accessed_refl: "accessed s s"
  unfolding accessed_def by (intro exI [of _ "[]"]) simp

lemma accessed_access: "accessed s (access e s)"
  unfolding accessed_def access_def by blast

lemma accessed_trans: "accessed s t \<Longrightarrow> accessed t u \<Longrightarrow> accessed s u"
  unfolding accessed_def by auto

lemma transmitter_ready_accessed: "transmitter_ready s = Done r t \<Longrightarrow> accessed s t"
  by (auto simp: transmitter_ready_def READ_REG_def inb_def Let_def outcome_simps intro: accessed_access)

lemma poll_accessed:
  fixes s :: "'z devices_scheme"
  assumes "poll transmitter_ready s = Some (Done () t)"
  shows "accessed s t"
proof -
  let ?P = "\<lambda>(ready :: 'z devices_scheme \<Rightarrow> (bool, 'z devices_scheme) outcome) (s :: 'z devices_scheme) r.
    ready = transmitter_ready \<longrightarrow> (\<forall>t. r = Done () t \<longrightarrow> accessed s t)"
  have "?P transmitter_ready s (Done () t)"
  proof (rule poll.raw_induct [where P = ?P, OF _ assms])
    fix loop and ready :: "'z devices_scheme \<Rightarrow> (bool, 'z devices_scheme) outcome" and s r
    assume IH: "\<And>ready s r. loop ready s = Some r \<Longrightarrow> ?P ready s r"
      and run: "(case ready s of Done b t \<Rightarrow> if b then Some (Done () t) else loop ready t
        | Stop e t \<Rightarrow> Some (Stop e t)) = Some r"
    show "?P ready s r"
    proof (intro impI allI)
      fix t assume eqs: "ready = transmitter_ready" "r = Done () t"
      obtain b u where b: "transmitter_ready s = Done b u"
        by (simp add: transmitter_ready_def READ_REG_def inb_def Let_def)
      have "accessed s u" using transmitter_ready_accessed [OF b] .
      moreover have "accessed u t"
      proof (cases b)
        case False
        then have "loop ready u = Some (Done () t)" using run b eqs by simp
        then show ?thesis using IH eqs by blast
      qed (use run b eqs accessed_refl in auto)
      ultimately show "accessed s t" by (rule accessed_trans)
    qed
  qed
  then show ?thesis by blast
qed

lemma serial_writeb_accessed:
  assumes "serial_writeb_blocking c s = Done () t"
  shows "accessed s t"
proof -
  obtain u where u: "poll transmitter_ready s = Some (Done () u)"
    and t: "t = serial_writeb_unsafe_nonblocking c u"
    using assms by (auto simp: serial_writeb_blocking_def ended_def outcome_simps split: option.splits)
  have "accessed u t" unfolding t serial_writeb_unsafe_nonblocking_def WRITE_REG_def outb_def
    by (auto intro: accessed_access accessed_trans)
  with poll_accessed [OF u] show ?thesis by (rule accessed_trans)
qed

text \<open>A transmitter that is always ready takes every byte.\<close>

definition always_ready :: "'z devices_scheme \<Rightarrow> bool" where
  "always_ready s \<longleftrightarrow> (\<forall>tr. port_value s tr (COM1 + LINE_STATUS) AND 32 \<noteq> 0)"

lemma serial_writeb_ready:
  assumes "always_ready s"
  shows "serial_writeb_blocking c s =
    Done () (serial_writeb_unsafe_nonblocking c (access (PortIn (COM1 + LINE_STATUS) (port_value s (io s) (COM1 + LINE_STATUS))) s))"
  using assms
  by (simp add: serial_writeb_blocking_def ended_def poll.simps transmitter_ready_def READ_REG_def inb_def
      Let_def always_ready_def push_bit_eq_mult)

lemma always_ready_accessed: "accessed s t \<Longrightarrow> always_ready s \<Longrightarrow> always_ready t"
  by (auto simp: accessed_def always_ready_def)

section \<open>Text devices\<close>

text \<open>
  The contract of a character device: a device that is ready takes every character it can show and
  is ready again. Whole texts then go through, with the loop over a C string as well.
\<close>

locale text_device =
  fixes put :: "u8 \<Rightarrow> 's \<Rightarrow> (unit, 's) outcome"
    and ready :: "'s \<Rightarrow> bool"
    and shown :: "u8 \<Rightarrow> bool"
  assumes put_ready: "ready s \<Longrightarrow> shown c \<Longrightarrow> \<exists>t. put c s = Done () t \<and> ready t"
begin

lemma text_ready: "ready s \<Longrightarrow> \<forall>c \<in> set cs. shown c \<Longrightarrow> \<exists>t. for_each cs put s = Done () t \<and> ready t"
proof (induction cs arbitrary: s)
  case (Cons c cs)
  then obtain u where "put c s = Done () u" "ready u" using put_ready by (meson list.set_intros(1))
  then show ?case using Cons by simp
qed simp

lemma puts_ready:
  "ready s \<Longrightarrow> length str < 256 \<Longrightarrow> no_nul str \<Longrightarrow> \<forall>c \<in> set str. shown (of_char c) \<Longrightarrow>
    \<exists>t. puts_loop put str 0 s = Some (Done () t) \<and> ready t"
  using text_ready [of s "map of_char str"] by (simp add: puts_loop_short)

end

interpretation serial_line: text_device serial_writeb_blocking always_ready "\<lambda>_. True"
  by unfold_locales
    (metis serial_writeb_ready serial_writeb_accessed always_ready_accessed)

text \<open>The loop over a string keeps what each of its characters keeps.\<close>

lemma puts_loop_keeps:
  assumes "puts_loop put txt i s = Some (Done () t)" and "I s"
    and "\<And>c s t. I s \<Longrightarrow> put c s = Done () t \<Longrightarrow> I t"
  shows "I t"
proof -
  let ?P = "\<lambda>put' txt' i s r. put' = put \<longrightarrow> I s \<longrightarrow> r = Done () t \<longrightarrow> I t"
  have "?P put txt i s (Done () t)"
  proof (rule puts_loop.raw_induct [where P = ?P, OF _ assms(1)])
    fix loop and put' :: "u8 \<Rightarrow> 'a \<Rightarrow> (unit, 'a) outcome" and txt' i s r
    assume IH: "\<And>put' txt' i s r. loop put' txt' i s = Some r \<Longrightarrow> ?P put' txt' i s r"
      and run: "(if char_at txt' i = 0 then Some (Done () s)
        else case put' (char_at txt' i) s of Done _ t \<Rightarrow> loop put' txt' (i + 1) t | Stop e t \<Rightarrow> Some (Stop e t)) = Some r"
    show "?P put' txt' i s r"
    proof (intro impI)
      assume eqs: "put' = put" "r = Done () t" and inv: "I s"
      show "I t"
      proof (cases "char_at txt' i = 0")
        case False
        then obtain x u where u: "put (char_at txt' i) s = Done x u" and l: "loop put txt' (i + 1) u = Some r"
          using run eqs by (cases "put (char_at txt' i) s") auto
        have "I u" using assms(3) inv u by simp
        then show ?thesis using IH [OF l] eqs by blast
      qed (use run eqs inv in auto)
    qed
  qed
  then show ?thesis using assms(2) by blast
qed

end
