(* ===== verification/Console.thy ===== *)
theory Console
  imports Serial Printf Mersenne_Twister
begin

text \<open>
  The console, \<open>util/print_lowlevel.c\<close>: the cursor, the glyphs of the 8x8 font (\<open>data/font.c\<close>) drawn
  into the frame buffer, scrolling, and the text functions, which also copy their output to the
  serial line.
\<close>

section \<open>The font\<close>

definition font :: "u64 list" where
  "font = [
     0x007e464a52627e00, 0x7e81a581bd99817e, 0x7effdbffc3e7ff7e, 0x6cfefefe7c381000,
     0x10387cfe7c381000, 0x387c38fefed61038, 0x10387cfefe7c1038, 0x0000183c3c180000,
     0xffffe7c3c3e7ffff, 0x003c664242663c00, 0xffc399bdbd99c3ff, 0x0f070f7dcccccc78,
     0x3c6666663c187e18, 0x3f333f303070f0e0, 0x7f637f636367e6c0, 0x18db3ce7e73cdb18,
     0x80e0f8fef8e08000, 0x020e3efe3e0e0200, 0x183c7e18187e3c18, 0x6666666666006600,
     0x7fdbdb7b1b1b1b00, 0x3e613c66663c867c, 0x000000007e7e7e00, 0x183c7e187e3c18ff,
     0x183c7e1818181800, 0x181818187e3c1800, 0x00180cfe0c180000, 0x003060fe60300000,
     0x0000c0c0c0fe0000, 0x002466ff66240000, 0x00183c7effff0000, 0x00ffff7e3c180000,
     0x0000000000000000, 0x183c3c1818001800, 0x6666240000000000, 0x6c6cfe6cfe6c6c00,
     0x183e603c067c1800, 0x00c6cc183066c600, 0x386c3876dccc7600, 0x1818300000000000,
     0x0c18303030180c00, 0x30180c0c0c183000, 0x00663cff3c660000, 0x0018187e18180000,
     0x0000000000181830, 0x0000007e00000000, 0x0000000000181800, 0x060c183060c08000,
     0x386cc6d6c66c3800, 0x1838181818187e00, 0x7cc6061c3066fe00, 0x7cc6063c06c67c00,
     0x1c3c6cccfe0c1e00, 0xfec0c0fc06c67c00, 0x3860c0fcc6c67c00, 0xfec60c1830303000,
     0x7cc6c67cc6c67c00, 0x7cc6c67e060c7800, 0x0018180000181800, 0x0018180000181830,
     0x060c1830180c0600, 0x00007e00007e0000, 0x6030180c18306000, 0x7cc60c1818001800,
     0x7cc6dededec07800, 0x386cc6fec6c6c600, 0xfc66667c6666fc00, 0x3c66c0c0c0663c00,
     0xf86c6666666cf800, 0xfe6268786862fe00, 0xfe6268786860f000, 0x3c66c0c0ce663a00,
     0xc6c6c6fec6c6c600, 0x3c18181818183c00, 0x1e0c0c0ccccc7800, 0xe6666c786c66e600,
     0xf06060606266fe00, 0xc6eefefed6c6c600, 0xc6e6f6decec6c600, 0x7cc6c6c6c6c67c00,
     0xfc66667c6060f000, 0x7cc6c6c6c6ce7c0e, 0xfc66667c6c66e600, 0x3c6630180c663c00,
     0x7e7e5a1818183c00, 0xc6c6c6c6c6c67c00, 0xc6c6c6c6c66c3800, 0xc6c6c6d6d6fe6c00,
     0xc6c66c386cc6c600, 0x6666663c18183c00, 0xfec68c183266fe00, 0x3c30303030303c00,
     0xc06030180c060200, 0x3c0c0c0c0c0c3c00, 0x10386cc600000000, 0x00000000000000ff,
     0x30180c0000000000, 0x0000780c7ccc7600, 0xe0607c666666dc00, 0x00007cc6c0c67c00,
     0x1c0c7ccccccc7600, 0x00007cc6fec07c00, 0x3c6660f86060f000, 0x000076cccc7c0cf8,
     0xe0606c766666e600, 0x1800381818183c00, 0x060006060666663c, 0xe060666c786ce600,
     0x3818181818183c00, 0x0000ecfed6d6d600, 0x0000dc6666666600, 0x00007cc6c6c67c00,
     0x0000dc66667c60f0, 0x000076cccc7c0c1e, 0x0000dc766060f000, 0x00007ec07c06fc00,
     0x3030fc3030361c00, 0x0000cccccccc7600, 0x0000c6c6c66c3800, 0x0000c6d6d6fe6c00,
     0x0000c66c386cc600, 0x0000c6c6c67e06fc, 0x00007e4c18327e00, 0x0e18187018180e00,
     0x1818181818181800, 0x7018180e18187000, 0x76dc000000000000, 0x0010386cc6c6fe00,
     0x7cc6c0c0c67c0c78, 0xcc00cccccccc7600, 0x0c187cc6fec07c00, 0x7c82780c7ccc7600,
     0xc600780c7ccc7600, 0x3018780c7ccc7600, 0x3030780c7ccc7600, 0x00007ec0c07e0c38,
     0x7c827cc6fec07c00, 0xc6007cc6fec07c00, 0x30187cc6fec07c00, 0x6600381818183c00,
     0x7c82381818183c00, 0x3018003818183c00, 0xc6386cc6fec6c600, 0x386c7cc6fec6c600,
     0x1830fec0f8c0fe00, 0x00007e187ed87e00, 0x3e6cccfeccccce00, 0x7c827cc6c6c67c00,
     0xc6007cc6c6c67c00, 0x30187cc6c6c67c00, 0x788400cccccc7600, 0x6030cccccccc7600,
     0xc600c6c6c67e06fc, 0xc6386cc6c66c3800, 0xc600c6c6c6c67c00, 0x18187ec0c07e1818,
     0x386c64f06066fc00, 0x66663c7e187e1818, 0xf8ccccfac6cfc6c7, 0x0e1b183c18d87000,
     0x1830780c7ccc7600, 0x0c18003818183c00, 0x0c187cc6c6c67c00, 0x1830cccccccc7600,
     0x76dc00dc66666600, 0x76dc00e6f6dece00, 0x3c6c6c3e007e0000, 0x386c6c38007c0000,
     0x1800181830633e00, 0x000000fec0c00000, 0x000000fe06060000, 0x63e66c7e3366cc0f,
     0x63e66c7a366adf06, 0x180018183c3c1800, 0x003366cc66330000, 0x00cc663366cc0000,
     0x2288228822882288, 0x55aa55aa55aa55aa, 0x77dd77dd77dd77dd, 0x1818181818181818,
     0x18181818f8181818, 0x1818f818f8181818, 0x36363636f6363636, 0x00000000fe363636,
     0x0000f818f8181818, 0x3636f606f6363636, 0x3636363636363636, 0x0000fe06f6363636,
     0x3636f606fe000000, 0x36363636fe000000, 0x1818f818f8000000, 0x00000000f8181818,
     0x181818181f000000, 0x18181818ff000000, 0x00000000ff181818, 0x181818181f181818,
     0x00000000ff000000, 0x18181818ff181818, 0x18181f181f181818, 0x3636363637363636,
     0x363637303f000000, 0x00003f3037363636, 0x3636f700ff000000, 0x0000ff00f7363636,
     0x3636373037363636, 0x0000ff00ff000000, 0x3636f700f7363636, 0x1818ff00ff000000,
     0x36363636ff000000, 0x0000ff00ff181818, 0x00000000ff363636, 0x363636363f000000,
     0x18181f181f000000, 0x00001f181f181818, 0x000000003f363636, 0x36363636ff363636,
     0x1818ff18ff181818, 0x18181818f8000000, 0x000000001f181818, 0xffffffffffffffff,
     0x00000000ffffffff, 0xf0f0f0f0f0f0f0f0, 0x0f0f0f0f0f0f0f0f, 0xffffffff00000000,
     0x000076dcc8dc7600, 0x78ccccd8ccc6cc00, 0xfec6c0c0c0c0c000, 0x0000fe6c6c6c6c00,
     0xfec6603060c6fe00, 0x00007ed8d8d87000, 0x0000666666667cc0, 0x0076dc1818181800,
     0x7e183c66663c187e, 0x386cc6fec66c3800, 0x386cc6c66c6cee00, 0x0e180c3e66663c00,
     0x00007edbdb7e0000, 0x060c7edbdb7e60c0, 0x1e30607e60301e00, 0x007cc6c6c6c6c600,
     0x00fe00fe00fe0000, 0x18187e1818007e00, 0x30180c1830007e00, 0x0c1830180c007e00,
     0x0e1b1b1818181818, 0x1818181818d8d870, 0x0018007e00180000, 0x0076dc0076dc0000,
     0x386c6c3800000000, 0x0000001818000000, 0x0000001800000000, 0x0f0c0c0cec6c3c1c,
     0x6c36363636000000, 0x780c18307c000000, 0x00003c3c3c3c0000, 0x0000000000000000]"

section \<open>State\<close>

text \<open>
  The static variables of the console. The frame buffer is memory: pixel \<open>i\<close> is the 32-bit cell
  at \<open>fb_ptr + 4 * i\<close>.
\<close>

record console = rng +
  cursor_x :: u32
  cursor_y :: u32
  on_colour :: u32
  off_colour :: u32
  font_size :: u8
  skew :: u8
  cursor_x_max :: u32
  cursor_y_max :: u32
  bytes_per_line :: u32
  bytes_per_screen :: u32
  screen_height :: u32
  screen_width :: u32
  pitch :: u32
  fb_ptr :: u64

definition glyph_size :: "'z console_scheme \<Rightarrow> u32" where
  "glyph_size s = 8 * ucast (font_size s)"

definition calculate_screen_constants :: "framebuffer \<Rightarrow> 'z console_scheme \<Rightarrow> (unit, 'z console_scheme) outcome" where
  "calculate_screen_constants fb s =
     (if glyph_size s = 0 then Stop (Fault ''division by zero'') s
      else
        let s = s\<lparr>screen_width := ucast (fb_width fb), screen_height := ucast (fb_height fb)\<rparr>;
            s = s\<lparr>cursor_x_max := screen_width s div glyph_size s - 1,
                  cursor_y_max := screen_height s div glyph_size s - 1\<rparr>;
            s = s\<lparr>bytes_per_line := screen_width s * glyph_size s * 4\<rparr>;
            s = s\<lparr>bytes_per_screen := bytes_per_line s * (cursor_y_max s + 1)\<rparr>
        in Done () (s\<lparr>pitch := ucast (fb_pitch fb div 4), fb_ptr := fb_address fb\<rparr>))"

definition pixel_addr :: "'z console_scheme \<Rightarrow> u32 \<Rightarrow> u64" where
  "pixel_addr s i = fb_ptr s + 4 * ucast i"

section \<open>The cursor\<close>

definition copy_row :: "u32 \<Rightarrow> 'z console_scheme \<Rightarrow> 'z console_scheme" where
  "copy_row i s =
     (let dst = pixel_addr s (i * glyph_size s * pitch s);
          src = pixel_addr s ((i + 1) * glyph_size s * pitch s)
      in s\<lparr>mem := snd (memcpy dst src (ucast (screen_width s * 4 * glyph_size s)) (mem s))\<rparr>)"

definition scroll_line :: "'z console_scheme \<Rightarrow> (unit, 'z console_scheme) outcome" where
  "scroll_line s =
     (let s = fold (\<lambda>i. copy_row (of_nat i)) [0..<unat (cursor_y_max s)] s;
          bottom = pixel_addr s (cursor_y_max s * glyph_size s * pitch s);
          s = s\<lparr>mem := snd (memset bottom 0 (ucast (screen_width s * 4 * glyph_size s)) (mem s))\<rparr>
      in serial_writeb_blocking 0x0A s)"

definition scroll :: "u8 \<Rightarrow> 'z console_scheme \<Rightarrow> (unit, 'z console_scheme) outcome" where
  "scroll lines s = for_each [0..<unat lines] (\<lambda>_. scroll_line) s"

definition nl_cursor :: "'z console_scheme \<Rightarrow> (unit, 'z console_scheme) outcome" where
  "nl_cursor s =
     (if cursor_y s + 1 > cursor_y_max s then
        bindO (scroll 1 s) (\<lambda>_ s. Done () (s\<lparr>cursor_x := 0\<rparr>))
      else serial_writeb_blocking 0x0A (s\<lparr>cursor_x := 0, cursor_y := cursor_y s + 1\<rparr>))"

definition advance_cursor :: "'z console_scheme \<Rightarrow> (unit, 'z console_scheme) outcome" where
  "advance_cursor s =
     (if cursor_x s + 1 > cursor_x_max s then nl_cursor s
      else Done () (s\<lparr>cursor_x := cursor_x s + 1\<rparr>))"

definition cursor_goto :: "u32 \<Rightarrow> u32 \<Rightarrow> 'z console_scheme \<Rightarrow> 'z console_scheme" where
  "cursor_goto x y s =
     (if x > cursor_x_max s \<or> y > cursor_y_max s then s else s\<lparr>cursor_x := x, cursor_y := y\<rparr>)"

definition calculate_y :: "'z console_scheme \<Rightarrow> u32" where
  "calculate_y s = cursor_y s * glyph_size s"

definition calculate_x :: "'z console_scheme \<Rightarrow> u32" where
  "calculate_x s = cursor_x s * glyph_size s"

definition set_text_colour :: "u32 \<Rightarrow> 'z console_scheme \<Rightarrow> 'z console_scheme" where
  "set_text_colour colour s = s\<lparr>on_colour := colour\<rparr>"

definition set_text_bg_colour :: "u32 \<Rightarrow> 'z console_scheme \<Rightarrow> 'z console_scheme" where
  "set_text_bg_colour colour s = s\<lparr>off_colour := colour\<rparr>"

definition set_skew :: "u8 \<Rightarrow> 'z console_scheme \<Rightarrow> 'z console_scheme" where
  "set_skew n s = s\<lparr>skew := n\<rparr>"

section \<open>Glyphs\<close>

text \<open>The innermost statement of \<open>print_bitmap\<close>: pixel \<open>(dx, dy)\<close> of the block of row \<open>i\<close>, column \<open>n\<close>.\<close>

definition put_pixel :: "u64 \<Rightarrow> u32 \<Rightarrow> u32 \<Rightarrow> nat \<times> nat \<times> nat \<times> nat \<Rightarrow> 'z console_scheme \<Rightarrow> 'z console_scheme" where
  "put_pixel bitmap x y = (\<lambda>(i, n, dy, dx) s.
     let row = ucast (drop_bit ((7 - i) * 8) bitmap AND 0xFF) :: u8;
         colour = (if row AND push_bit (7 - n) 1 \<noteq> 0 then on_colour s else off_colour s);
         px = x + of_nat (n * unat (font_size s) + dx + unat (skew s) * (7 - i));
         py = y + of_nat (i * unat (font_size s) + dy)
     in s\<lparr>mem := write32 (mem s) (pixel_addr s (py * pitch s + px)) colour\<rparr>)"

definition glyph_blocks :: "nat \<Rightarrow> (nat \<times> nat \<times> nat \<times> nat) list" where
  "glyph_blocks fs = [(i, n, dy, dx). i \<leftarrow> [0..<8], n \<leftarrow> [0..<8], dy \<leftarrow> [0..<fs], dx \<leftarrow> [0..<fs]]"

definition print_bitmap :: "u64 \<Rightarrow> u32 \<Rightarrow> u32 \<Rightarrow> 'z console_scheme \<Rightarrow> 'z console_scheme" where
  "print_bitmap bitmap x y s = fold (put_pixel bitmap x y) (glyph_blocks (unat (font_size s))) s"

section \<open>Text\<close>

definition clear :: "'z console_scheme \<Rightarrow> (unit, 'z console_scheme) outcome" where
  "clear s =
     (let s = s\<lparr>mem := snd (memset (fb_ptr s) 0 (ucast (bytes_per_screen s)) (mem s))\<rparr>;
          s = s\<lparr>cursor_y := 0, cursor_x := 0\<rparr>
      in serial_write_string (''Cleared VGA.'' @ [CHR 0x0A]) s)"

text \<open>
  \<open>font[c]\<close> is read before the range check; the array has 256 elements, so the read is undefined
  from 256 on.
\<close>

definition k_putc :: "u16 \<Rightarrow> 'z console_scheme \<Rightarrow> (unit, 'z console_scheme) outcome" where
  "k_putc c s =
     (if c = 0x0A then bindO (nl_cursor s) (\<lambda>_ s. Done () (s\<lparr>cursor_x := 0\<rparr>))
      else if c = 0x0D then Done () (s\<lparr>cursor_x := 0\<rparr>)
      else if \<not> unat c < length font then Stop (Fault ''font out of bounds'') s
      else
        let char_bitmap = font ! unat c in
        if c > 256 then Done () s
        else
          let s = print_bitmap char_bitmap (calculate_x s) (calculate_y s) s in
          bindO (if c < 128 then serial_writeb_blocking (ucast c) s else Done () s) (\<lambda>_ s.
          advance_cursor s))"

text \<open>A \<open>char\<close> is signed: it is sign-extended when it is passed to \<open>k_putc\<close>.\<close>

definition k_puts_char :: "u8 \<Rightarrow> 'z console_scheme \<Rightarrow> (unit, 'z console_scheme) outcome" where
  "k_puts_char c s =
     (if c = 0x0A then bindO (nl_cursor s) (\<lambda>_ s. Done () (s\<lparr>cursor_x := 0\<rparr>))
      else if c = 0x0D then Done () (s\<lparr>cursor_x := 0\<rparr>)
      else k_putc (scast c) s)"

definition k_puts :: "string \<Rightarrow> 'z console_scheme \<Rightarrow> (unit, 'z console_scheme) outcome" where
  "k_puts txt s = ended s (puts_loop k_puts_char txt 0 s)"

text \<open>\<open>k_puti\<close>: the largest power of ten that is not above \<open>n\<close>, and the number of digits.\<close>

partial_function (option) puti_scale :: "u32 \<Rightarrow> u32 \<Rightarrow> u32 \<Rightarrow> (u32 \<times> u32) option" where
  "puti_scale n scale digit_count =
     (if scale \<le> n div 10 then puti_scale n (scale * 10) (digit_count + 1) else Some (scale, digit_count))"

fun puti_digits :: "nat \<Rightarrow> u32 \<Rightarrow> u32 \<Rightarrow> 'z console_scheme \<Rightarrow> (unit, 'z console_scheme) outcome" where
  "puti_digits 0 n scale s = Done () s"
| "puti_digits (Suc digit_count) n scale s =
     (if scale = 0 then Stop (Fault ''division by zero'') s
      else
        let digit = n div scale + 48 in
        if \<not> unat digit < length font then Stop (Fault ''font out of bounds'') s
        else
          let char_bitmap = (if digit > 57 \<or> digit < 48 then font ! 0 else font ! unat digit);
              s = print_bitmap char_bitmap (calculate_x s) (calculate_y s) s
          in bindO (serial_writeb_blocking (ucast digit) s) (\<lambda>_ s.
             bindO (advance_cursor s) (\<lambda>_ s.
             puti_digits digit_count (n mod scale) (scale div 10) s)))"

definition k_puti :: "u32 \<Rightarrow> 'z console_scheme \<Rightarrow> (unit, 'z console_scheme) outcome" where
  "k_puti n s = (case puti_scale n 1 1 of
     None \<Rightarrow> Stop Hang s
   | Some (scale, digit_count) \<Rightarrow> puti_digits (unat digit_count) n scale s)"

definition crlf :: "'z console_scheme \<Rightarrow> (unit, 'z console_scheme) outcome" where
  "crlf = k_puts [CHR 0x0D, CHR 0x0A]"

section \<open>What the operations keep\<close>

text \<open>
  Every text operation only changes pixels, the cursor and the record of the port accesses, and
  it keeps a cursor that is on the screen on the screen.
\<close>

definition cursor_ok :: "'z console_scheme \<Rightarrow> bool" where
  "cursor_ok s \<longleftrightarrow> cursor_x s \<le> cursor_x_max s \<and> cursor_y s \<le> cursor_y_max s"

definition console_moved :: "'z console_scheme \<Rightarrow> 'z console_scheme \<Rightarrow> bool" where
  "console_moved s t \<longleftrightarrow>
     (\<exists>m tr x y. t = s\<lparr>mem := m, io := io s @ tr, cursor_x := x, cursor_y := y\<rparr>) \<and> (cursor_ok s \<longrightarrow> cursor_ok t)"

lemma console_movedI:
  "t = s\<lparr>mem := m, io := io s @ tr, cursor_x := x, cursor_y := y\<rparr> \<Longrightarrow>
    (cursor_ok s \<Longrightarrow> x \<le> cursor_x_max s \<and> y \<le> cursor_y_max s) \<Longrightarrow> console_moved s t"
  unfolding console_moved_def by (auto simp: cursor_ok_def)

lemma console_moved_refl: "console_moved s s"
  by (rule console_movedI [where tr = "[]" and m = "mem s" and x = "cursor_x s" and y = "cursor_y s"]) (simp_all add: cursor_ok_def)

lemma console_moved_trans: "console_moved s t \<Longrightarrow> console_moved t u \<Longrightarrow> console_moved s u"
  unfolding console_moved_def by (clarsimp, metis)

lemma console_moved_mem: "console_moved s (s\<lparr>mem := m\<rparr>)"
  by (rule console_movedI [where tr = "[]" and m = m and x = "cursor_x s" and y = "cursor_y s"]) (simp_all add: cursor_ok_def)

lemma console_moved_cursor:
  "(cursor_ok s \<Longrightarrow> x \<le> cursor_x_max s \<and> y \<le> cursor_y_max s) \<Longrightarrow>
    console_moved s (s\<lparr>cursor_x := x, cursor_y := y\<rparr>)"
  by (rule console_movedI [where tr = "[]" and m = "mem s"]) simp_all

lemma console_moved_x:
  "(cursor_ok s \<Longrightarrow> x \<le> cursor_x_max s) \<Longrightarrow> console_moved s (s\<lparr>cursor_x := x\<rparr>)"
  using console_moved_cursor [of s x "cursor_y s"] by (simp add: cursor_ok_def)

lemma console_moved_left: "console_moved s (s\<lparr>cursor_x := 0\<rparr>)"
  by (rule console_moved_x) simp

lemma console_moved_accessed: "accessed s t \<Longrightarrow> console_moved s t"
  unfolding accessed_def
  by (clarify, rule console_movedI [where m = "mem s" and x = "cursor_x s" and y = "cursor_y s"])
    (simp_all add: cursor_ok_def)

lemma serial_writeb_moved: "serial_writeb_blocking c s = Done () t \<Longrightarrow> console_moved s t"
  by (rule console_moved_accessed [OF serial_writeb_accessed])

lemma put_pixel_mem: "\<exists>m. put_pixel b x y k s = s\<lparr>mem := m\<rparr>"
  by (cases k) (auto simp: put_pixel_def Let_def)

lemma fold_moved:
  "(\<And>k s. console_moved s (f k s)) \<Longrightarrow> console_moved s (fold f ks s)"
  by (induction ks arbitrary: s) (auto intro: console_moved_refl console_moved_trans)

lemma print_bitmap_moved: "console_moved s (print_bitmap b x y s)"
  unfolding print_bitmap_def
  by (rule fold_moved) (metis put_pixel_mem console_moved_mem)

lemma scroll_line_moved: "scroll_line s = Done () t \<Longrightarrow> console_moved s t"
  unfolding scroll_line_def Let_def
  by (rule console_moved_trans [OF console_moved_trans [OF fold_moved console_moved_mem]
      console_moved_accessed [OF serial_writeb_accessed]])
    (simp_all add: copy_row_def Let_def console_moved_mem)

lemma scroll_moved: "scroll lines s = Done () t \<Longrightarrow> console_moved s t"
  unfolding scroll_def
  by (erule for_each_invariant [where I = "console_moved s"])
    (auto intro: console_moved_refl console_moved_trans scroll_line_moved)

lemma nl_cursor_moved:
  assumes "nl_cursor s = Done () t" shows "console_moved s t"
proof (cases "cursor_y s + 1 > cursor_y_max s")
  case True
  then obtain u where "scroll 1 s = Done () u" and "t = u\<lparr>cursor_x := 0\<rparr>"
    using assms by (auto simp: nl_cursor_def outcome_simps)
  then show ?thesis using console_moved_trans [OF scroll_moved console_moved_left] by simp
next
  case False
  let ?s = "s\<lparr>cursor_x := 0, cursor_y := cursor_y s + 1\<rparr>"
  have "console_moved s ?s" using False by (intro console_moved_cursor) auto
  moreover have "console_moved ?s t"
    using assms False by (intro console_moved_accessed serial_writeb_accessed) (simp add: nl_cursor_def)
  ultimately show ?thesis by (rule console_moved_trans)
qed

lemma advance_cursor_moved:
  assumes "advance_cursor s = Done () t" shows "console_moved s t"
proof (cases "cursor_x s + 1 > cursor_x_max s")
  case False
  then have "t = s\<lparr>cursor_x := cursor_x s + 1\<rparr>" using assms by (simp add: advance_cursor_def)
  then show ?thesis using False by (auto intro!: console_moved_x)
qed (use assms nl_cursor_moved in \<open>auto simp: advance_cursor_def\<close>)

lemma k_putc_moved:
  assumes "k_putc c s = Done () t" shows "console_moved s t"
proof (cases "c = 0x0A \<or> c = 0x0D \<or> c > 256")
  case True
  then show ?thesis using assms console_moved_trans [OF nl_cursor_moved console_moved_left]
    by (auto simp: k_putc_def Let_def outcome_simps console_moved_left console_moved_refl split: if_splits)
next
  case False
  let ?s = "print_bitmap (font ! unat c) (calculate_x s) (calculate_y s) s"
  obtain u where u: "(if c < 128 then serial_writeb_blocking (ucast c) ?s else Done () ?s) = Done () u"
    and t: "advance_cursor u = Done () t"
    using assms False by (auto simp: k_putc_def Let_def outcome_simps split: if_splits)
  from u have "console_moved ?s u"
    by (auto intro: serial_writeb_moved console_moved_refl split: if_splits)
  with print_bitmap_moved advance_cursor_moved [OF t] show ?thesis by (blast intro: console_moved_trans)
qed

lemma k_puts_char_moved:
  assumes "k_puts_char c s = Done () t" shows "console_moved s t"
  using assms console_moved_trans [OF nl_cursor_moved console_moved_left]
  by (auto simp: k_puts_char_def outcome_simps console_moved_left k_putc_moved split: if_splits)

lemma k_puts_moved: "k_puts txt s = Done () t \<Longrightarrow> console_moved s t"
  unfolding k_puts_def ended_def
  by (rule puts_loop_keeps [where put = k_puts_char and I = "console_moved s"])
    (auto split: option.splits intro: console_moved_refl console_moved_trans k_puts_char_moved)

lemma clear_moved:
  assumes "clear s = Done () t" shows "console_moved s t"
proof -
  let ?m = "snd (memset (fb_ptr s) 0 (ucast (bytes_per_screen s)) (mem s))"
  let ?s = "s\<lparr>mem := ?m, cursor_y := 0, cursor_x := 0\<rparr>"
  have "puts_loop serial_writeb_blocking (''Cleared VGA.'' @ [CHR 0x0A]) 0 ?s = Some (Done () t)"
    using assms by (simp add: clear_def Let_def serial_write_string_def ended_def split: option.splits)
  then have "accessed ?s t"
    by (rule puts_loop_keeps) (blast intro: accessed_refl accessed_trans serial_writeb_accessed)+
  moreover have "console_moved s ?s"
    by (rule console_movedI [where tr = "[]" and m = ?m and x = 0 and y = 0]) simp_all
  ultimately show ?thesis by (blast intro: console_moved_trans console_moved_accessed)
qed

lemma puti_digits_moved: "puti_digits count n scale s = Done () t \<Longrightarrow> console_moved s t"
proof (induction count arbitrary: n scale s)
  case 0
  then show ?case by (simp add: console_moved_refl)
next
  case (Suc count)
  then show ?case
    by (auto simp: Let_def outcome_simps split: if_splits
        dest!: serial_writeb_moved advance_cursor_moved Suc.IH)
      (blast intro: console_moved_trans print_bitmap_moved)+
qed

section \<open>Glyphs on the screen\<close>

text \<open>The pixel of column \<open>X\<close> and line \<open>Y\<close>, and a screen whose pixels have 32-bit indices.\<close>

definition pixel :: "'z console_scheme \<Rightarrow> nat \<Rightarrow> nat \<Rightarrow> u32" where
  "pixel s X Y = read32 (mem s) (fb_ptr s + of_nat (4 * (Y * unat (pitch s) + X)))"

definition screen_ok :: "'z console_scheme \<Rightarrow> bool" where
  "screen_ok s \<longleftrightarrow> unat (screen_width s) \<le> unat (pitch s)
     \<and> unat (screen_height s) * unat (pitch s) < 2 ^ 32"

context cell_store
begin

text \<open>An array of cells after a sequence of stores.\<close>

lemma ld_fold_st:
  assumes "\<And>k. k \<in> set ks \<Longrightarrow> f k < n" and "j < n" and "width * n \<le> 2 ^ 64"
    and "\<And>k. k \<in> set ks \<Longrightarrow> f k = j \<Longrightarrow> v k = c"
  shows "ld (fold (\<lambda>k m. st m (a + of_nat (width * f k)) (v k)) ks m) (a + of_nat (width * j)) =
    (if j \<in> f ` set ks then c else ld m (a + of_nat (width * j)))"
  using assms(1,4)
proof (induction ks arbitrary: m rule: rev_induct)
  case Nil
  then show ?case by simp
next
  case (snoc k ks)
  let ?store = "\<lambda>k m. st m (a + of_nat (width * f k)) (v k)"
  have "f k < n" using snoc.prems(1) by simp
  then have "ld (fold ?store (ks @ [k]) m) (a + of_nat (width * j)) =
      (if f k = j then v k else ld (fold ?store ks m) (a + of_nat (width * j)))"
    by (simp only: fold_append fold.simps comp_apply id_apply ld_st_index [OF _ assms(2,3)])
  moreover have "ld (fold ?store ks m) (a + of_nat (width * j)) =
      (if j \<in> f ` set ks then c else ld m (a + of_nat (width * j)))"
    by (rule snoc.IH) (use snoc.prems in auto)
  ultimately show ?case using snoc.prems(2) [of k] by (auto simp del: of_nat_mult)
qed

end

text \<open>The statement of the loops, over memory: the index of the pixel and its colour.\<close>

definition glyph_index :: "'z console_scheme \<Rightarrow> u32 \<Rightarrow> u32 \<Rightarrow> nat \<times> nat \<times> nat \<times> nat \<Rightarrow> nat" where
  "glyph_index s x y = (\<lambda>(i, n, dy, dx). (unat y + i * unat (font_size s) + dy) * unat (pitch s)
     + (unat x + n * unat (font_size s) + dx))"

definition glyph_colour :: "'z console_scheme \<Rightarrow> u64 \<Rightarrow> nat \<times> nat \<times> nat \<times> nat \<Rightarrow> u32" where
  "glyph_colour s bitmap = (\<lambda>(i, n, dy, dx).
     if bit bitmap (8 * (7 - i) + (7 - n)) then on_colour s else off_colour s)"

lemma glyph_row_bit:
  assumes "n < 8"
  shows "(ucast (drop_bit k bitmap AND 0xFF) :: u8) AND push_bit (7 - n) 1 \<noteq> 0 \<longleftrightarrow> bit (bitmap :: u64) (k + (7 - n))"
proof -
  have mask8: "(0xFF :: u64) = mask 8" by (simp add: mask_eq_exp_minus_1)
  let ?row = "ucast (drop_bit k bitmap AND 0xFF) :: u8"
  have "?row AND push_bit (7 - n) 1 \<noteq> 0 \<longleftrightarrow> bit ?row (7 - n)"
    by (simp add: push_bit_eq_mult and_exp_eq_0_iff_not_bit)
  also have "\<dots> \<longleftrightarrow> bit bitmap (k + (7 - n))"
    unfolding mask8 using assms
    by (auto simp: bit_unsigned_iff bit_and_iff bit_mask_iff bit_drop_bit_eq dest: bit_imp_le_length)
  finally show ?thesis .
qed

definition glyph_fits :: "'z console_scheme \<Rightarrow> u32 \<Rightarrow> u32 \<Rightarrow> bool" where
  "glyph_fits s x y \<longleftrightarrow> screen_ok s \<and> skew s = 0
     \<and> unat x + 8 * unat (font_size s) \<le> unat (screen_width s)
     \<and> unat y + 8 * unat (font_size s) \<le> unat (screen_height s)"

lemma glyph_blocks_iff:
  "(i, n, dy, dx) \<in> set (glyph_blocks fs) \<longleftrightarrow> i < 8 \<and> n < 8 \<and> dy < fs \<and> dx < fs"
  by (auto simp: glyph_blocks_def image_iff)

lemma glyph_blockE:
  assumes "k \<in> set (glyph_blocks fs)"
  obtains i n dy dx where "k = (i, n, dy, dx)" "i < 8" "n < 8" "dy < fs" "dx < fs"
  using assms by (cases k rule: prod_cases4) (auto simp: glyph_blocks_iff)

lemma line_index:
  assumes "Y < h" and "X < p"
  shows "Y * p + X < h * (p :: nat)"
  using mult_le_mono1 [of "Suc Y" h p] assms by simp

lemma block_offset: "n < 8 \<Longrightarrow> d < fs \<Longrightarrow> n * fs + d < 8 * (fs :: nat)"
  by (rule line_index)

lemma glyph_index_less:
  assumes "glyph_fits s x y" and "k \<in> set (glyph_blocks (unat (font_size s)))"
  shows "glyph_index s x y k < 2 ^ 32"
proof -
  obtain i n dy dx where k: "k = (i, n, dy, dx)" "i < 8" "n < 8" "dy < unat (font_size s)" "dx < unat (font_size s)"
    using assms(2) by (rule glyph_blockE)
  have "glyph_index s x y k < unat (screen_height s) * unat (pitch s)"
    unfolding glyph_index_def k(1) prod.case
    using assms(1) block_offset [OF k(2,4)] block_offset [OF k(3,5)]
    by (intro line_index) (auto simp: glyph_fits_def screen_ok_def)
  then show ?thesis using assms(1) by (auto simp: glyph_fits_def screen_ok_def)
qed

lemma unat_add_of_nat:
  "unat a + n < 2 ^ LENGTH('a) \<Longrightarrow> unat (a + of_nat n :: 'a::len word) = unat a + n"
  by (subst unat_add_less) (simp_all add: unat_of_nat_less)

lemma pixel_addr_nat: "pixel_addr s i = fb_ptr s + of_nat (4 * unat i)"
proof -
  have "(ucast i :: u64) = of_nat (unat i)" by (simp only: of_nat_unat)
  then show ?thesis by (simp add: pixel_addr_def)
qed

lemma unat_index:
  "unat a * unat b + unat c < 2 ^ LENGTH('a) \<Longrightarrow> unat (a * b + c :: 'a::len word) = unat a * unat b + unat c"
  by (simp add: unat_word_ariths)

lemma put_pixel_index:
  assumes "glyph_fits s x y" and "k \<in> set (glyph_blocks (unat (font_size s)))"
  shows "put_pixel bitmap x y k s =
    s\<lparr>mem := write32 (mem s) (fb_ptr s + of_nat (4 * glyph_index s x y k)) (glyph_colour s bitmap k)\<rparr>"
proof -
  obtain i n dy dx where k: "k = (i, n, dy, dx)" "i < 8" "n < 8" "dy < unat (font_size s)" "dx < unat (font_size s)"
    using assms(2) by (rule glyph_blockE)
  let ?fs = "unat (font_size s)"
  let ?px = "x + of_nat (n * ?fs + dx)" and ?py = "y + of_nat (i * ?fs + dy)"
  have small: "unat (screen_width s) < 2 ^ 32" "unat (screen_height s) < 2 ^ 32"
    using unsigned_less [of "screen_width s", where ?'a = nat] unsigned_less [of "screen_height s", where ?'a = nat]
    by simp_all
  have px: "unat ?px = unat x + (n * ?fs + dx)"
    using assms(1) block_offset [OF k(3,5)] small(1) by (intro unat_add_of_nat) (simp add: glyph_fits_def)
  have py: "unat ?py = unat y + (i * ?fs + dy)"
    using assms(1) block_offset [OF k(2,4)] small(2) by (intro unat_add_of_nat) (simp add: glyph_fits_def)
  have idx: "glyph_index s x y k = unat ?py * unat (pitch s) + unat ?px"
    by (simp only: px py glyph_index_def k(1) prod.case add.assoc)
  have "(2 :: nat) ^ LENGTH(32) = 2 ^ 32" by simp
  then have less: "unat ?py * unat (pitch s) + unat ?px < 2 ^ LENGTH(32)"
    using glyph_index_less [OF assms] by (simp only: idx)
  have addr: "pixel_addr s (?py * pitch s + ?px) = fb_ptr s + of_nat (4 * glyph_index s x y k)"
    by (simp only: pixel_addr_nat idx unat_index [OF less])
  have colour: "(if (ucast (drop_bit ((7 - i) * 8) bitmap AND 0xFF) :: u8) AND push_bit (7 - n) 1 \<noteq> 0
      then on_colour s else off_colour s) = glyph_colour s bitmap k"
    unfolding glyph_row_bit [OF k(3)] by (simp add: glyph_colour_def k(1) mult.commute)
  have skew: "skew s = 0" using assms(1) by (simp add: glyph_fits_def)
  show ?thesis
    unfolding put_pixel_def k(1) prod.case Let_def skew unat_0 mult_0 add_0_right
    by (simp only: colour [unfolded k(1)] addr [unfolded k(1)])
qed

lemma put_pixels_index:
  assumes "glyph_fits s x y" and "set ks \<subseteq> set (glyph_blocks (unat (font_size s)))"
  shows "fold (put_pixel bitmap x y) ks s =
    s\<lparr>mem := fold (\<lambda>k m. write32 m (fb_ptr s + of_nat (4 * glyph_index s x y k)) (glyph_colour s bitmap k)) ks (mem s)\<rparr>"
  using assms
proof (induction ks arbitrary: s)
  case Nil
  then show ?case by simp
next
  case (Cons k ks)
  let ?m = "write32 (mem s) (fb_ptr s + of_nat (4 * glyph_index s x y k)) (glyph_colour s bitmap k)"
  have "put_pixel bitmap x y k s = s\<lparr>mem := ?m\<rparr>" using Cons.prems by (intro put_pixel_index) auto
  moreover have "glyph_fits (s\<lparr>mem := ?m\<rparr>) x y" using Cons.prems(1) by (simp add: glyph_fits_def screen_ok_def)
  moreover have "glyph_index (s\<lparr>mem := ?m\<rparr>) x y = glyph_index s x y"
    "glyph_colour (s\<lparr>mem := ?m\<rparr>) bitmap = glyph_colour s bitmap"
    by (auto simp: glyph_index_def glyph_colour_def fun_eq_iff)
  ultimately show ?case using Cons.IH [of "s\<lparr>mem := ?m\<rparr>"] Cons.prems(2) by (simp del: of_nat_mult)
qed

text \<open>The coordinates of a pixel inside a glyph determine its block.\<close>

lemma glyph_index_eq_iff:
  assumes fits: "glyph_fits s x y" and k: "k \<in> set (glyph_blocks (unat (font_size s)))" "k = (i, n, dy, dx)"
    and X: "X < unat (screen_width s)"
  shows "glyph_index s x y k = Y * unat (pitch s) + X \<longleftrightarrow>
    Y = unat y + (i * unat (font_size s) + dy) \<and> X = unat x + (n * unat (font_size s) + dx)"
proof -
  let ?fs = "unat (font_size s)" and ?p = "unat (pitch s)"
  have b: "n < 8" "dx < ?fs" using k by (auto simp: glyph_blocks_iff)
  have less: "unat x + (n * ?fs + dx) < ?p" "X < ?p"
    using fits X block_offset [OF b] by (auto simp: glyph_fits_def screen_ok_def)
  have "A * ?p + B = C * ?p + D \<longleftrightarrow> A = C \<and> B = D" if "B < ?p" "D < ?p" for A B C D
  proof
    assume eq: "A * ?p + B = C * ?p + D"
    have "(A * ?p + B) div ?p = (C * ?p + D) div ?p" "(A * ?p + B) mod ?p = (C * ?p + D) mod ?p"
      using eq by simp_all
    then show "A = C \<and> B = D" using that by simp
  qed simp
  from this [OF less] show ?thesis by (auto simp: glyph_index_def k(2) add.assoc)
qed

lemma pixel_mem: "pixel (s\<lparr>mem := m\<rparr>) X Y = read32 m (fb_ptr s + of_nat (4 * (Y * unat (pitch s) + X)))"
  by (simp add: pixel_def)

lemma print_bitmap_pixel:
  assumes fits: "glyph_fits s x y" and X: "X < unat (screen_width s)" and Y: "Y < unat (screen_height s)"
  shows "pixel (print_bitmap bitmap x y s) X Y =
    (let fs = unat (font_size s) in
     if unat x \<le> X \<and> X < unat x + 8 * fs \<and> unat y \<le> Y \<and> Y < unat y + 8 * fs
     then if bit bitmap (8 * (7 - (Y - unat y) div fs) + (7 - (X - unat x) div fs)) then on_colour s else off_colour s
     else pixel s X Y)"
proof -
  let ?fs = "unat (font_size s)" and ?ks = "glyph_blocks (unat (font_size s))"
  let ?j = "Y * unat (pitch s) + X"
  let ?a = "Y - unat y" and ?b = "X - unat x"
  let ?c = "if bit bitmap (8 * (7 - ?a div ?fs) + (7 - ?b div ?fs)) then on_colour s else off_colour s"
  let ?in = "unat x \<le> X \<and> X < unat x + 8 * ?fs \<and> unat y \<le> Y \<and> Y < unat y + 8 * ?fs"
  have j: "?j < 2 ^ 32"
    using line_index [OF Y, of X "unat (pitch s)"] X fits by (auto simp: glyph_fits_def screen_ok_def)
  have hit: "?in \<and> glyph_colour s bitmap k = ?c" if kin: "k \<in> set ?ks" and idx: "glyph_index s x y k = ?j" for k
  proof -
    obtain i n dy dx where k: "k = (i, n, dy, dx)" "i < 8" "n < 8" "dy < ?fs" "dx < ?fs"
      using kin by (rule glyph_blockE)
    have eqs: "Y = unat y + (i * ?fs + dy)" "X = unat x + (n * ?fs + dx)"
      using idx glyph_index_eq_iff [OF fits kin k(1) X] by simp_all
    have "?a div ?fs = i" "?b div ?fs = n" using k by (simp_all add: eqs)
    then show ?thesis
      using block_offset [OF k(2,4)] block_offset [OF k(3,5)] by (simp add: eqs glyph_colour_def k(1))
  qed
  have covered: "?j \<in> glyph_index s x y ` set ?ks" if "?in"
  proof -
    let ?k = "(?a div ?fs, ?b div ?fs, ?a mod ?fs, ?b mod ?fs)"
    have "0 < ?fs" using that by (cases "?fs = 0") auto
    then have k: "?k \<in> set ?ks" using that by (auto simp: glyph_blocks_iff less_mult_imp_div_less)
    have "glyph_index s x y ?k = ?j"
      using that by (subst glyph_index_eq_iff [OF fits k refl X]) (simp add: mult.commute)
    then show ?thesis using k by (metis imageI)
  qed
  have "pixel (print_bitmap bitmap x y s) X Y =
      (if ?j \<in> glyph_index s x y ` set ?ks then ?c else pixel s X Y)"
    unfolding print_bitmap_def put_pixels_index [OF fits subset_refl] pixel_mem
    unfolding pixel_def
    by (rule cells32.ld_fold_st [OF _ j]) (use glyph_index_less [OF fits] hit in auto)
  moreover have "?j \<in> glyph_index s x y ` set ?ks \<longleftrightarrow> ?in"
  proof
    assume "?j \<in> glyph_index s x y ` set ?ks"
    then obtain k where "?j = glyph_index s x y k" "k \<in> set ?ks" by (rule imageE)
    then show ?in using hit [of k] by simp
  qed (rule covered)
  ultimately show ?thesis by (simp only: Let_def)
qed

section \<open>Scrolling\<close>

text \<open>A copy and a fill inside one region, in terms of offsets.\<close>

lemma offset_in_range:
  assumes "d < 2 ^ 62" and "n < 2 ^ 62" and "q < 2 ^ 62"
  shows "(a + of_nat q) - (a + of_nat d) < (of_nat n :: u64) \<longleftrightarrow> d \<le> q \<and> q < d + n"
proof (cases "d \<le> q")
  case True
  have "unat ((a + of_nat q) - (a + of_nat d) :: u64) = q - d"
    using True assms by (intro unat_offset_diff) simp_all
  then show ?thesis using True assms by (auto simp: word_less_nat_alt unat_of_nat_less)
next
  case False
  have "unat ((a + of_nat q) - (a + of_nat d) :: u64) = 2 ^ LENGTH(64) - (d - q)"
    using False assms by (intro unat_offset_diff_neg) simp_all
  then show ?thesis using False assms by (auto simp: word_less_nat_alt unat_of_nat_less)
qed

lemma copied_at:
  assumes "d < 2 ^ 62" and "n < 2 ^ 62" and "q < 2 ^ 62"
  shows "copied (a + of_nat d) (a + of_nat e) (of_nat n) m (a + of_nat q) =
    (if d \<le> q \<and> q < d + n then m (a + of_nat (e + (q - d))) else m (a + of_nat q))"
  unfolding copied_def offset_in_range [OF assms]
  by (auto simp: of_nat_diff algebra_simps)

lemma filled_at:
  assumes "d < 2 ^ 62" and "n < 2 ^ 62" and "q < 2 ^ 62"
  shows "filled (a + of_nat d) c (of_nat n) m (a + of_nat q) =
    (if d \<le> q \<and> q < d + n then c else m (a + of_nat q))"
  unfolding filled_def offset_in_range [OF assms] ..

text \<open>A screen without padding between its lines, with room for the text rows.\<close>

definition rows_fit :: "'z console_scheme \<Rightarrow> bool" where
  "rows_fit s \<longleftrightarrow> screen_ok s \<and> pitch s = screen_width s \<and> 0 < font_size s
     \<and> (unat (cursor_y_max s) + 1) * (8 * unat (font_size s)) \<le> unat (screen_height s)
     \<and> 4 * unat (screen_width s) * (8 * unat (font_size s)) < 2 ^ 32"

definition row_bytes :: "'z console_scheme \<Rightarrow> nat" where
  "row_bytes s = 4 * (8 * unat (font_size s) * unat (screen_width s))"

lemma unat_glyph_size: "unat (glyph_size s) = 8 * unat (font_size s)"
proof -
  have "unat (font_size s) < 2 ^ 8" using unsigned_less [of "font_size s", where ?'a = nat] by simp
  then show ?thesis unfolding glyph_size_def by (subst unat_mult_lem [THEN iffD1]) simp_all
qed

lemma unat_mult_small:
  "unat a * unat b < 2 ^ LENGTH('a) \<Longrightarrow> unat (a * b :: 'a::len word) = unat a * unat b"
  by (simp add: unat_mult_lem [THEN iffD1])

lemma rows_index:
  assumes "rows_fit s" and "i \<le> unat (cursor_y_max s)"
  shows "pixel_addr s (of_nat i * glyph_size s * pitch s) = fb_ptr s + of_nat (i * row_bytes s)"
    and "i * row_bytes s < 2 ^ 34"
proof -
  let ?G = "8 * unat (font_size s)" and ?W = "unat (screen_width s)"
  have "i * ?G * ?W \<le> (unat (cursor_y_max s) + 1) * ?G * ?W" using assms(2) by (intro mult_le_mono1) simp
  also have "\<dots> \<le> unat (screen_height s) * ?W"
    using assms(1) by (intro mult_le_mono1) (simp add: rows_fit_def)
  also have "\<dots> < 2 ^ 32" using assms(1) by (auto simp: rows_fit_def screen_ok_def)
  finally have small: "i * ?G * ?W < 2 ^ 32" .
  then show "i * row_bytes s < 2 ^ 34" by (simp add: row_bytes_def algebra_simps)
  show "pixel_addr s (of_nat i * glyph_size s * pitch s) = fb_ptr s + of_nat (i * row_bytes s)"
  proof (cases "?W = 0 \<or> ?G = 0")
    case True
    then show ?thesis using assms(1) by (auto simp: pixel_addr_nat row_bytes_def rows_fit_def unat_eq_zero)
  next
    case False
    have "i * ?G \<le> i * ?G * ?W" "i \<le> i * ?G" using False by simp_all
    then have iG: "i * ?G < 2 ^ 32" and i: "i < 2 ^ 32" using small by (meson le_less_trans)+
    have ui: "unat (of_nat i :: u32) = i" by (rule unat_of_nat_less) (use i in simp)
    have "unat (of_nat i * glyph_size s :: u32) = i * ?G"
      by (subst unat_mult_small) (use iG in \<open>simp_all add: ui unat_glyph_size\<close>)
    then have "unat (of_nat i * glyph_size s * pitch s :: u32) = i * ?G * ?W"
      by (subst unat_mult_small) (use assms(1) small in \<open>simp_all add: rows_fit_def\<close>)
    then show ?thesis by (simp add: pixel_addr_nat row_bytes_def algebra_simps)
  qed
qed

lemma row_count:
  assumes "rows_fit s"
  shows "(ucast (screen_width s * 4 * glyph_size s) :: u64) = of_nat (row_bytes s)" and "row_bytes s < 2 ^ 32"
proof -
  let ?W = "unat (screen_width s)"
  define G where "G = 8 * unat (font_size s)"
  have G: "unat (glyph_size s) = G" "row_bytes s = ?W * 4 * G"
    by (simp_all add: G_def unat_glyph_size row_bytes_def)
  have small: "?W * 4 * G < 2 ^ 32" and pos: "0 < G"
    using assms by (simp_all add: rows_fit_def word_less_nat_alt G_def mult.assoc mult.left_commute)
  have "?W * 4 \<le> ?W * 4 * G" using pos by simp
  then have "?W * 4 < 2 ^ 32" using small by (rule le_less_trans)
  then have "unat (screen_width s * 4) = ?W * 4" by (subst unat_mult_small) simp_all
  then have "unat (screen_width s * 4 * glyph_size s) = row_bytes s"
    unfolding G(2) by (subst unat_mult_small) (use small in \<open>simp_all add: G(1)\<close>)
  then show "(ucast (screen_width s * 4 * glyph_size s) :: u64) = of_nat (row_bytes s)"
    by (metis of_nat_unat)
  show "row_bytes s < 2 ^ 32" using small by (simp only: G(2))
qed

lemma copy_rows_mem:
  assumes fit: "rows_fit s" and k: "k \<le> unat (cursor_y_max s)"
  shows "\<exists>m. fold (\<lambda>i. copy_row (of_nat i)) [0..<k] s = s\<lparr>mem := m\<rparr>
    \<and> (\<forall>q < (unat (cursor_y_max s) + 1) * row_bytes s. m (fb_ptr s + of_nat q) =
        (if q < k * row_bytes s then mem s (fb_ptr s + of_nat (q + row_bytes s)) else mem s (fb_ptr s + of_nat q)))"
  using k
proof (induction k)
  case 0
  show ?case by (intro exI [of _ "mem s"]) simp
next
  case (Suc k)
  let ?B = "row_bytes s" and ?fb = "fb_ptr s" and ?R = "(unat (cursor_y_max s) + 1) * row_bytes s"
  obtain m where run: "fold (\<lambda>i. copy_row (of_nat i)) [0..<k] s = s\<lparr>mem := m\<rparr>"
    and m: "\<And>q. q < ?R \<Longrightarrow> m (?fb + of_nat q) =
      (if q < k * ?B then mem s (?fb + of_nat (q + ?B)) else mem s (?fb + of_nat q))"
    using Suc.IH Suc.prems by auto
  have B: "?B < 2 ^ 32" and kB: "k * ?B < 2 ^ 34" "(k + 1) * ?B < 2 ^ 34"
    using row_count(2) [OF fit] rows_index(2) [OF fit, of k] rows_index(2) [OF fit, of "k + 1"] Suc.prems by simp_all
  have dst: "pixel_addr s (of_nat k * glyph_size s * pitch s) = ?fb + of_nat (k * ?B)"
    and src: "pixel_addr s ((of_nat k + 1) * glyph_size s * pitch s) = ?fb + of_nat ((k + 1) * ?B)"
    using rows_index(1) [OF fit, of k] rows_index(1) [OF fit, of "k + 1"] Suc.prems
    by (simp_all add: add.commute)
  have apart: "(of_nat ?B :: u64) \<le> (?fb + of_nat (k * ?B)) - (?fb + of_nat ((k + 1) * ?B))"
  proof (cases "?B = 0")
    case False
    have "unat ((?fb + of_nat (k * ?B)) - (?fb + of_nat ((k + 1) * ?B)) :: u64) = 2 ^ LENGTH(64) - ?B"
      using False B by (subst unat_offset_diff_neg) simp_all
    then show ?thesis using B by (simp add: word_le_nat_alt unat_of_nat_less)
  qed simp
  let ?m = "copied (?fb + of_nat (k * ?B)) (?fb + of_nat ((k + 1) * ?B)) (of_nat ?B) m"
  have step: "copy_row (of_nat k) (s\<lparr>mem := m\<rparr>) = s\<lparr>mem := ?m\<rparr>"
    using memcpy_copied [OF disjI2 [OF apart], of m] dst src row_count(1) [OF fit]
    by (simp add: copy_row_def Let_def pixel_addr_def glyph_size_def del: of_nat_mult)
  have "?m (?fb + of_nat q) =
      (if q < Suc k * ?B then mem s (?fb + of_nat (q + ?B)) else mem s (?fb + of_nat q))" if q: "q < ?R" for q
  proof -
    have R: "?R = unat (cursor_y_max s) * ?B + ?B" by simp
    have "unat (cursor_y_max s) * ?B < 2 ^ 34" using rows_index(2) [OF fit order_refl] .
    then have q62: "q < 2 ^ 62" using q B unfolding R by simp
    have le: "Suc k * ?B \<le> unat (cursor_y_max s) * ?B" using Suc.prems by (rule mult_le_mono1)
    have at: "?m (?fb + of_nat q) = (if k * ?B \<le> q \<and> q < k * ?B + ?B
        then m (?fb + of_nat ((k + 1) * ?B + (q - k * ?B))) else m (?fb + of_nat q))"
      using kB B q62 by (intro copied_at) simp_all
    show ?thesis
    proof (cases "k * ?B \<le> q \<and> q < k * ?B + ?B")
      case True
      then have eq: "(k + 1) * ?B + (q - k * ?B) = q + ?B" by simp
      have "q + ?B < ?R" using True le unfolding R by simp
      then show ?thesis using True m [of "q + ?B"] unfolding at eq by (simp del: of_nat_add)
    next
      case False
      then show ?thesis using m [OF q] unfolding at if_not_P [OF False] by auto
    qed
  qed
  with run step show ?case by (intro exI [of _ ?m]) simp
qed

lemma load_le_zero: "load_le (\<lambda>_. 0) a n = 0"
  by (induction n arbitrary: a) simp_all

lemma load_le_at:
  "(\<And>i. i < n \<Longrightarrow> m (a + of_nat i) = m' (b + of_nat i)) \<Longrightarrow>
    (load_le m a n :: 'a::len word) = load_le m' b n"
proof (induction n arbitrary: a b)
  case 0
  then show ?case by simp
next
  case (Suc n)
  have "(load_le m (a + 1) n :: 'a word) = load_le m' (b + 1) n"
  proof (rule Suc.IH)
    fix i assume "i < n"
    then show "m (a + 1 + of_nat i) = m' (b + 1 + of_nat i)"
      using Suc.prems [of "Suc i"] by (simp add: add.assoc)
  qed
  with Suc.prems [of 0] show ?case by simp
qed

lemma scroll_line_mem:
  assumes fit: "rows_fit s" and run: "scroll_line s = Done () t"
  shows "\<forall>q < (unat (cursor_y_max s) + 1) * row_bytes s. mem t (fb_ptr s + of_nat q) =
      (if q < unat (cursor_y_max s) * row_bytes s then mem s (fb_ptr s + of_nat (q + row_bytes s)) else 0)"
    and "fb_ptr t = fb_ptr s \<and> pitch t = pitch s"
proof -
  let ?B = "row_bytes s" and ?fb = "fb_ptr s" and ?y = "unat (cursor_y_max s)"
  obtain m where rows: "fold (\<lambda>i. copy_row (of_nat i)) [0..<?y] s = s\<lparr>mem := m\<rparr>"
    and m: "\<forall>q < (?y + 1) * ?B. m (?fb + of_nat q) =
      (if q < ?y * ?B then mem s (?fb + of_nat (q + ?B)) else mem s (?fb + of_nat q))"
    using copy_rows_mem [OF fit order_refl] by auto
  let ?m = "filled (?fb + of_nat (?y * ?B)) 0 (of_nat ?B) m"
  have bottom: "pixel_addr s (cursor_y_max s * glyph_size s * pitch s) = ?fb + of_nat (?y * ?B)"
    using rows_index(1) [OF fit order_refl] by simp
  have "serial_writeb_blocking 0x0A (s\<lparr>mem := ?m\<rparr>) = Done () t"
    using run rows bottom row_count(1) [OF fit]
    by (simp add: scroll_line_def Let_def pixel_addr_def glyph_size_def del: of_nat_mult)
  from serial_writeb_accessed [OF this] have t: "mem t = ?m \<and> fb_ptr t = fb_ptr s \<and> pitch t = pitch s"
    by (auto simp: accessed_def)
  then show "fb_ptr t = fb_ptr s \<and> pitch t = pitch s" by simp
  have B: "?B < 2 ^ 62" "?y * ?B < 2 ^ 62" "(?y + 1) * ?B < 2 ^ 62"
    using row_count(2) [OF fit] rows_index(2) [OF fit order_refl] by simp_all
  show "\<forall>q < (?y + 1) * ?B. mem t (?fb + of_nat q) =
      (if q < ?y * ?B then mem s (?fb + of_nat (q + ?B)) else 0)"
  proof (intro allI impI)
    fix q assume q: "q < (?y + 1) * ?B"
    then have "q < 2 ^ 62" using B(3) by (rule less_trans)
    with B have "?m (?fb + of_nat q) = (if ?y * ?B \<le> q \<and> q < ?y * ?B + ?B then 0 else m (?fb + of_nat q))"
      by (intro filled_at)
    then show "mem t (?fb + of_nat q) = (if q < ?y * ?B then mem s (?fb + of_nat (q + ?B)) else 0)"
      using t m q by (auto simp: not_less simp del: of_nat_add)
  qed
qed

lemma scroll_line_pixel:
  assumes fit: "rows_fit s" and run: "scroll_line s = Done () t"
    and X: "X < unat (screen_width s)" and Y: "Y < (unat (cursor_y_max s) + 1) * (8 * unat (font_size s))"
  shows "pixel t X Y =
    (if Y < unat (cursor_y_max s) * (8 * unat (font_size s)) then pixel s X (Y + 8 * unat (font_size s)) else 0)"
proof -
  let ?W = "unat (screen_width s)" and ?G = "8 * unat (font_size s)" and ?y = "unat (cursor_y_max s)"
  have W: "unat (pitch s) = ?W" using fit by (simp add: rows_fit_def)
  have rb: "row_bytes s = 4 * (?G * ?W)" by (simp add: row_bytes_def)
  have inside: "4 * (Y * ?W + X) + i < n * row_bytes s" if "i < 4" "Y < n * ?G" for i n
    using line_index [OF that(2) X] that(1) by (simp add: rb algebra_simps)
  have outside: "n * row_bytes s \<le> 4 * (Y * ?W + X) + i" if "n * ?G \<le> Y" for i n
  proof -
    have "n * ?G * ?W \<le> Y * ?W" using that by (rule mult_le_mono1)
    then have "4 * (n * ?G * ?W) \<le> 4 * (Y * ?W)" by (rule mult_le_mono2)
    moreover have "n * row_bytes s = 4 * (n * ?G * ?W)" by (simp add: rb)
    moreover have "4 * (Y * ?W) \<le> 4 * (Y * ?W + X) + i" by (simp only: add_mult_distrib2 add.assoc le_add1)
    ultimately show ?thesis by (simp only:)
  qed
  have byte: "mem t (fb_ptr s + of_nat (4 * (Y * ?W + X)) + of_nat i) =
      (if Y < ?y * ?G then mem s (fb_ptr s + of_nat (4 * ((Y + ?G) * ?W + X)) + of_nat i) else 0)"
    if i: "i < 4" for i
  proof -
    have shift: "4 * (Y * ?W + X) + i + row_bytes s = 4 * ((Y + ?G) * ?W + X) + i"
      by (simp add: rb algebra_simps)
    have "4 * (Y * ?W + X) + i < (?y + 1) * row_bytes s" using i Y by (rule inside)
    then have "mem t (fb_ptr s + of_nat (4 * (Y * ?W + X) + i)) =
        (if 4 * (Y * ?W + X) + i < ?y * row_bytes s
         then mem s (fb_ptr s + of_nat (4 * ((Y + ?G) * ?W + X) + i)) else 0)"
      using scroll_line_mem(1) [OF fit run] unfolding shift [symmetric] by blast
    moreover have "4 * (Y * ?W + X) + i < ?y * row_bytes s \<longleftrightarrow> Y < ?y * ?G"
      using inside [OF i, of ?y] outside [of ?y i] by (meson not_less)
    ultimately show ?thesis by (simp only: of_nat_add add.assoc)
  qed
  have fields: "fb_ptr t = fb_ptr s" "unat (pitch t) = ?W"
    using scroll_line_mem(2) [OF fit run] W by simp_all
  show ?thesis
  proof (cases "Y < ?y * ?G")
    case True
    then have "pixel t X Y = pixel s X (Y + ?G)"
      unfolding pixel_def fields W using byte by (intro load_le_at) (simp del: of_nat_mult of_nat_add)
    then show ?thesis using True by simp
  next
    case False
    have "pixel t X Y = load_le (\<lambda>_. 0) (fb_ptr s + of_nat (4 * (Y * ?W + X))) 4"
      unfolding pixel_def fields using False byte by (intro load_le_cong) (simp del: of_nat_mult of_nat_add)
    then show ?thesis using False by (simp add: load_le_zero)
  qed
qed

section \<open>Properties\<close>

text \<open>The operations of the console, as steps.\<close>

inductive console_step :: "'z console_scheme \<Rightarrow> 'z console_scheme \<Rightarrow> bool" where
  step_putc: "k_putc c s = Done () t \<Longrightarrow> console_step s t"
| step_puts: "k_puts txt s = Done () t \<Longrightarrow> console_step s t"
| step_puti: "k_puti n s = Done () t \<Longrightarrow> console_step s t"
| step_clear: "clear s = Done () t \<Longrightarrow> console_step s t"
| step_goto: "t = cursor_goto x y s \<Longrightarrow> console_step s t"

inductive_cases console_stepE: "console_step s t"

lemma console_step_moved: "console_step s t \<Longrightarrow> console_moved s t"
proof (induction rule: console_step.induct)
  case (step_puti n s t)
  then show ?case by (auto simp: k_puti_def intro: puti_digits_moved split: option.splits)
next
  case (step_goto t x y s)
  then show ?case by (auto simp: cursor_goto_def intro: console_moved_refl console_moved_cursor)
qed (blast intro: k_putc_moved k_puts_moved clear_moved)+

text \<open>
  C16. The cursor stays on the screen: from a state whose cursor is within the text grid, every
  sequence of console operations that returns (characters, strings, numbers, clearing, cursor
  movement, with the line feeds and the scrolling they cause) ends with the cursor within the
  grid, and leaves the geometry of the screen, the colours and every other component's state as
  they were.
\<close>

theorem cursor_stays_on_screen:
  assumes "console_step\<^sup>*\<^sup>* s t" and "cursor_ok s"
  shows "cursor_ok t \<and> (\<exists>m tr x y. t = s\<lparr>mem := m, io := io s @ tr, cursor_x := x, cursor_y := y\<rparr>)"
proof -
  have "console_moved s t"
    using assms(1) by (induction rule: rtranclp_induct)
      (blast intro: console_moved_refl console_moved_trans console_step_moved)+
  then show ?thesis using assms(2) by (auto simp: console_moved_def)
qed

text \<open>
  C36. A glyph is drawn as the font has it: when its cell lies on the screen and the text is not
  skewed, \<open>print_bitmap\<close> gives every pixel of the cell the text colour or the background colour
  according to the bit of its 8x8 block, and changes no other pixel of the screen.
\<close>

theorem glyph_drawn:
  assumes "glyph_fits s x y" and "X < unat (screen_width s)" and "Y < unat (screen_height s)"
  shows "pixel (print_bitmap bitmap x y s) X Y =
    (let fs = unat (font_size s) in
     if unat x \<le> X \<and> X < unat x + 8 * fs \<and> unat y \<le> Y \<and> Y < unat y + 8 * fs
     then if bit bitmap (8 * (7 - (Y - unat y) div fs) + (7 - (X - unat x) div fs)) then on_colour s else off_colour s
     else pixel s X Y)"
  using assms by (rule print_bitmap_pixel)

text \<open>
  C37. Scrolling moves the text up by one row: on a screen without padding between its lines,
  every pixel takes the colour of the pixel one text row below it, and the last text row is black.
\<close>

theorem scroll_moves_rows_up:
  assumes "rows_fit s" and "scroll 1 s = Done () t"
    and "X < unat (screen_width s)" and "Y < (unat (cursor_y_max s) + 1) * (8 * unat (font_size s))"
  shows "pixel t X Y =
    (if Y < unat (cursor_y_max s) * (8 * unat (font_size s)) then pixel s X (Y + 8 * unat (font_size s)) else 0)"
proof -
  have "scroll_line s = Done () t" using assms(2) by (simp add: scroll_def outcome_simps)
  from scroll_line_pixel [OF assms(1) this assms(3,4)] show ?thesis .
qed

section \<open>An example screen\<close>

definition example_console :: console where
  "example_console = rng.extend example_rng
     (console.fields 0 0 0xb0b0b0 0 2 0 3 2 4096 12288 48 64 64 0xFFFF8000FD000000)"

lemma example_console_sel [simp]:
  "cursor_x example_console = 0" "cursor_y example_console = 0" "cursor_x_max example_console = 3"
  "cursor_y_max example_console = 2" "screen_width example_console = 64" "screen_height example_console = 48"
  "pitch example_console = 64" "font_size example_console = 2" "skew example_console = 0"
  "on_colour example_console = 0xb0b0b0" "off_colour example_console = 0"
  "port_value example_console = (\<lambda>_ _. 255)" "timer_irqs example_console = (\<lambda>_. (1, 1))"
  "pit_ticks example_console = 0" "apic_ticks example_console = 0"
  "timer_goal_frequency example_console = 1000" "global_state example_console = replicate 12 0"
  by (simp_all add: example_console_def example_rng_def example_ioapic_def example_acpi_def example_lapic_def
      example_devices_def pmm.defs vmm.defs heap.defs devices.defs lapic.defs acpi.defs ioapic.defs rng.defs console.defs)

lemma example_console_ready: "always_ready example_console"
  by (simp add: always_ready_def)

theorem cursor_stays_on_screen_witness:
  "\<exists>t. crlf example_console = Done () t \<and> cursor_ok t"
proof -
  let ?s = "example_console\<lparr>cursor_x := 0\<rparr>"
  have ready: "always_ready (?s\<lparr>cursor_x := 0, cursor_y := 1\<rparr>)"
    using example_console_ready by (simp add: always_ready_def)
  have "\<exists>t. crlf example_console = Done () t"
    using serial_writeb_ready [OF ready, of "0x0A"]
    by (simp add: crlf_def k_puts_def ended_def puts_loop_short no_nul_def k_puts_char_def nl_cursor_def)
  then obtain t where t: "crlf example_console = Done () t" by blast
  then have "console_step\<^sup>*\<^sup>* example_console t" unfolding crlf_def by (blast intro: step_puts)
  moreover have "cursor_ok example_console" by (simp add: cursor_ok_def)
  ultimately show ?thesis using t cursor_stays_on_screen by blast
qed

lemma example_screen_ok: "screen_ok example_console"
  by (simp add: screen_ok_def)

theorem glyph_drawn_witness:
  "pixel (print_bitmap 0x8000000000000001 16 0 example_console) 17 1 = 0xb0b0b0
    \<and> pixel (print_bitmap 0x8000000000000001 16 0 example_console) 18 1 = 0"
proof -
  have "glyph_fits example_console 16 0" using example_screen_ok by (simp add: glyph_fits_def)
  from glyph_drawn [OF this] show ?thesis by simp
qed

theorem scroll_moves_rows_up_witness:
  "\<exists>t. scroll 1 example_console = Done () t \<and> pixel t 5 0 = pixel example_console 5 16 \<and> pixel t 5 40 = 0"
proof -
  have fit: "rows_fit example_console" using example_screen_ok by (simp add: rows_fit_def)
  obtain m where m: "fold (\<lambda>i. copy_row (of_nat i)) [0..<unat (cursor_y_max example_console)] example_console =
      example_console\<lparr>mem := m\<rparr>"
    using copy_rows_mem [OF fit order_refl] by blast
  have ready: "always_ready (example_console\<lparr>mem := m'\<rparr>)" for m'
    using example_console_ready by (simp add: always_ready_def)
  have "\<exists>t. scroll_line example_console = Done () t"
    unfolding scroll_line_def Let_def m using serial_writeb_ready [OF ready] by simp
  then obtain t where t: "scroll 1 example_console = Done () t" by (auto simp: scroll_def)
  from scroll_moves_rows_up [OF fit this, of 5 0] scroll_moves_rows_up [OF fit this, of 5 40] t
  show ?thesis by auto
qed

end
