(* ===== verification/Logging.thy ===== *)
theory Logging
  imports Console
begin

text \<open>
  The text output built on the console: the entry points of the \<open>printf\<close> family that write to a
  device (\<open>util/printf.c\<close>), the logging functions (\<open>util/log.c\<close>) and the panic path
  (\<open>util/panic.c\<close>). The other components record their log messages; \<open>show_event\<close> is what such a
  record does on the machine.
\<close>

section \<open>Formatted output to devices\<close>

text \<open>
  \<open>_out_char\<close>, \<open>_serial_out_char\<close> and \<open>_out_fct\<close> drop null characters and hand every other one to the
  device. The result is the length of the whole text.
\<close>

definition send_text ::
  "(u8 \<Rightarrow> 's \<Rightarrow> (unit, 's) outcome) \<Rightarrow> string \<Rightarrow> fmt_arg list \<Rightarrow> 's \<Rightarrow> (u32, 's) outcome" where
  "send_text put fmt args s =
     (case (vsn fmt args, printf_chars fmt args) of
        (Some cs, Some shown) \<Rightarrow>
          bindO (for_each (map of_char shown) put s) (\<lambda>_ s. Done (of_nat (length cs)) s)
      | _ \<Rightarrow> Stop (Fault ''bad format arguments'') s)"

definition putchar :: "u8 \<Rightarrow> 'z console_scheme \<Rightarrow> (unit, 'z console_scheme) outcome" where
  "putchar c = k_putc (scast c)"

definition vprintf :: "string \<Rightarrow> fmt_arg list \<Rightarrow> 'z console_scheme \<Rightarrow> (u32, 'z console_scheme) outcome" where
  "vprintf = send_text putchar"

definition printf :: "string \<Rightarrow> fmt_arg list \<Rightarrow> 'z console_scheme \<Rightarrow> (u32, 'z console_scheme) outcome" where
  "printf = send_text putchar"

definition serial_printf :: "string \<Rightarrow> fmt_arg list \<Rightarrow> 'z devices_scheme \<Rightarrow> (u32, 'z devices_scheme) outcome" where
  "serial_printf = send_text serial_writeb_blocking"

definition fctprintf ::
  "(u8 \<Rightarrow> 's \<Rightarrow> (unit, 's) outcome) \<Rightarrow> string \<Rightarrow> fmt_arg list \<Rightarrow> 's \<Rightarrow> (u32, 's) outcome" where
  "fctprintf out = send_text out"

section \<open>The log levels\<close>

definition PLAIN_TEXT_COLOUR :: u32 where "PLAIN_TEXT_COLOUR = 0xb0b0b0"
definition DBG_TEXT_COLOUR :: u32 where "DBG_TEXT_COLOUR = 0x888888"
definition OK_TEXT_COLOUR :: u32 where "OK_TEXT_COLOUR = 0x66ff66"
definition WRN_TEXT_COLOUR :: u32 where "WRN_TEXT_COLOUR = 0xffff66"
definition ERR_TEXT_COLOUR :: u32 where "ERR_TEXT_COLOUR = 0xff6666"
definition TEST_FAIL_FREQUENCY :: u32 where "TEST_FAIL_FREQUENCY = 400"
definition TEST_FAIL_HOLD :: u32 where "TEST_FAIL_HOLD = 400"

text \<open>The shape all levels but the first two share: a coloured tag between brackets, the text, a new line.\<close>

definition tagged_line ::
  "u32 \<Rightarrow> string \<Rightarrow> string \<Rightarrow> string \<Rightarrow> fmt_arg list \<Rightarrow> 'z console_scheme \<Rightarrow> (unit, 'z console_scheme) outcome" where
  "tagged_line colour tag after fmt args s =
     bindO (k_puts ''['' s) (\<lambda>_ s.
     bindO (k_puts tag (set_text_colour colour s)) (\<lambda>_ s.
     bindO (k_puts after (set_text_colour PLAIN_TEXT_COLOUR s)) (\<lambda>_ s.
     bindO (vprintf fmt args s) (\<lambda>_ s.
     crlf s))))"

text \<open>\<open>DBG\<close> is not defined: \<open>k_debug\<close> is empty.\<close>

definition put_debug :: "string \<Rightarrow> fmt_arg list \<Rightarrow> 'z console_scheme \<Rightarrow> (unit, 'z console_scheme) outcome" where
  "put_debug fmt args s = Done () s"

definition put_log :: "string \<Rightarrow> fmt_arg list \<Rightarrow> 'z console_scheme \<Rightarrow> (unit, 'z console_scheme) outcome" where
  "put_log fmt args s =
     bindO (k_puts ''[LOG] Kernel: '' (set_text_colour PLAIN_TEXT_COLOUR s)) (\<lambda>_ s.
     bindO (vprintf fmt args s) (\<lambda>_ s. crlf s))"

definition put_ok :: "string \<Rightarrow> fmt_arg list \<Rightarrow> 'z console_scheme \<Rightarrow> (unit, 'z console_scheme) outcome" where
  "put_ok = tagged_line OK_TEXT_COLOUR ''OK~'' ''] Kernel: ''"

definition put_wrn :: "string \<Rightarrow> fmt_arg list \<Rightarrow> 'z console_scheme \<Rightarrow> (unit, 'z console_scheme) outcome" where
  "put_wrn = tagged_line WRN_TEXT_COLOUR ''WRN'' ''] Kernel: ''"

definition put_err :: "string \<Rightarrow> fmt_arg list \<Rightarrow> 'z console_scheme \<Rightarrow> (unit, 'z console_scheme) outcome" where
  "put_err = tagged_line ERR_TEXT_COLOUR ''ERR'' ''] Kernel: ''"

definition put_todo :: "string \<Rightarrow> fmt_arg list \<Rightarrow> 'z console_scheme \<Rightarrow> (unit, 'z console_scheme) outcome" where
  "put_todo = tagged_line DBG_TEXT_COLOUR ''   TODO~   '' ''] ''"

definition put_test_pass :: "string \<Rightarrow> fmt_arg list \<Rightarrow> 'z console_scheme \<Rightarrow> (unit, 'z console_scheme) outcome" where
  "put_test_pass = tagged_line OK_TEXT_COLOUR ''TEST PASSED'' ''] ''"

definition put_test_fail :: "string \<Rightarrow> fmt_arg list \<Rightarrow> 'z console_scheme \<Rightarrow> (unit, 'z console_scheme) outcome" where
  "put_test_fail fmt args s =
     bindO (if get_global_state s PIT_INITIALIZED \<noteq> 0 then play_sound TEST_FAIL_FREQUENCY s else Done () s) (\<lambda>_ s.
     bindO (tagged_line ERR_TEXT_COLOUR ''TEST FAILED'' ''] '' fmt args s) (\<lambda>_ s.
     if get_global_state s PIT_INITIALIZED \<noteq> 0 then
       bindO (if get_global_state s PIT_TIMER_RUNNING \<noteq> 0 then pit_sleep_ms TEST_FAIL_HOLD s
              else if get_global_state s APIC_INITIALIZED = 0xf0 then apic_sleep_ms TEST_FAIL_HOLD s
              else Done () s) (\<lambda>_ s.
       sound_off s)
     else Done () s))"

fun show_event :: "out_event \<Rightarrow> 'z console_scheme \<Rightarrow> (unit, 'z console_scheme) outcome" where
  "show_event (LogMsg Lvl_log fmt args) s = put_log fmt args s"
| "show_event (LogMsg Lvl_ok fmt args) s = put_ok fmt args s"
| "show_event (LogMsg Lvl_wrn fmt args) s = put_wrn fmt args s"
| "show_event (LogMsg Lvl_err fmt args) s = put_err fmt args s"
| "show_event (LogMsg Lvl_todo fmt args) s = put_todo fmt args s"
| "show_event (LogMsg Lvl_test_pass fmt args) s = put_test_pass fmt args s"
| "show_event (LogMsg Lvl_test_fail fmt args) s = put_test_fail fmt args s"
| "show_event (SerialPrintf fmt args) s = bindO (serial_printf fmt args s) (\<lambda>_ s. Done () s)"
| "show_event (ConsolePrintf fmt args) s = bindO (printf fmt args s) (\<lambda>_ s. Done () s)"

section \<open>Panic\<close>

record logger = console +
  panics :: u8

definition PANIC_SOUND_INTERVAL :: u32 where "PANIC_SOUND_INTERVAL = 200"
definition PANIC_SOUND_FREQUENCY :: u32 where "PANIC_SOUND_FREQUENCY = 400"
definition PANIC_BEEPS :: nat where "PANIC_BEEPS = 6"

text \<open>The loop around \<open>hlt\<close> of \<open>hcf\<close> is never left.\<close>

definition hcf :: "'s \<Rightarrow> ('a, 's) outcome" where
  "hcf s = Stop Halted s"

definition panic_beep :: "'z devices_scheme \<Rightarrow> (unit, 'z devices_scheme) outcome" where
  "panic_beep s =
     bindO (play_sound PANIC_SOUND_FREQUENCY s) (\<lambda>_ s.
     bindO (if get_global_state s APIC_INITIALIZED = 0xf0 then apic_sleep_ms PANIC_SOUND_INTERVAL s
            else pit_sleep_ms PANIC_SOUND_INTERVAL s) (\<lambda>_ s.
     bindO (sound_off s) (\<lambda>_ s.
     if get_global_state s APIC_INITIALIZED = 0xf0 then apic_sleep_ms PANIC_SOUND_INTERVAL s
     else Done () s)))"

definition run_panic :: "string \<Rightarrow> 'z logger_scheme \<Rightarrow> ('a, 'z logger_scheme) outcome" where
  "run_panic msg s =
     bindO (if panics s > 0
            then bindO (put_err ''Something is super fucky, panic panicked %d time(s). yay osdev >:3''
              [Num (ucast (panics s))] s) (\<lambda>_ s. hcf s)
            else Done () s) (\<lambda>_ s.
     let s = s\<lparr>panics := panics s + 1\<rparr> in
     bindO (put_err ''Unrecoverable error: %s Halt.'' [Str msg] s) (\<lambda>_ s.
     bindO (if get_global_state s PIT_INITIALIZED \<noteq> 0
            then for_each [0..<PANIC_BEEPS] (\<lambda>_. panic_beep) s else Done () s) (\<lambda>_ s.
     hcf s)))"

section \<open>Output that returns\<close>

lemma console_moved_ready: "console_moved s t \<Longrightarrow> always_ready s \<Longrightarrow> always_ready t"
  by (auto simp: console_moved_def always_ready_def)

lemma scroll_ready:
  assumes "always_ready s"
  shows "\<exists>t. scroll 1 s = Done () t"
proof -
  have "console_moved s (fold (\<lambda>i. copy_row (of_nat i)) [0..<unat (cursor_y_max s)] s)"
    by (rule fold_moved) (simp add: copy_row_def Let_def console_moved_mem)
  then have "always_ready (fold (\<lambda>i. copy_row (of_nat i)) [0..<unat (cursor_y_max s)] s)"
    using assms by (rule console_moved_ready)
  then have ready: "always_ready ((fold (\<lambda>i. copy_row (of_nat i)) [0..<unat (cursor_y_max s)] s)\<lparr>mem := m\<rparr>)" for m
    by (simp add: always_ready_def)
  have "\<exists>t. scroll_line s = Done () t"
    unfolding scroll_line_def Let_def using serial_writeb_ready [OF ready] by blast
  then show ?thesis by (auto simp: scroll_def)
qed

lemma nl_cursor_ready:
  assumes "always_ready s"
  shows "\<exists>t. nl_cursor s = Done () t \<and> always_ready t"
proof -
  have "always_ready (s\<lparr>cursor_x := 0, cursor_y := cursor_y s + 1\<rparr>)"
    using assms by (simp add: always_ready_def)
  then have "\<exists>t. nl_cursor s = Done () t"
    using scroll_ready [OF assms] serial_writeb_ready unfolding nl_cursor_def by (auto split: if_splits)
  then show ?thesis using nl_cursor_moved console_moved_ready assms by blast
qed

lemma advance_cursor_ready: "always_ready s \<Longrightarrow> \<exists>t. advance_cursor s = Done () t"
  using nl_cursor_ready [of s] by (auto simp: advance_cursor_def)

lemma k_putc_ready:
  assumes "always_ready s" and "c < 128"
  shows "\<exists>t. k_putc c s = Done () t \<and> always_ready t"
proof -
  have "\<exists>t. k_putc c s = Done () t"
  proof (cases "c = 0x0A \<or> c = 0x0D")
    case True
    then show ?thesis using nl_cursor_ready [OF assms(1)] by (auto simp: k_putc_def)
  next
    case False
    let ?s = "print_bitmap (font ! unat c) (calculate_x s) (calculate_y s) s"
    have "always_ready ?s" using print_bitmap_moved assms(1) by (rule console_moved_ready)
    then obtain u where u: "serial_writeb_blocking (ucast c) ?s = Done () u" "always_ready u"
      using serial_line.put_ready by blast
    obtain t where "advance_cursor u = Done () t" using advance_cursor_ready [OF u(2)] ..
    moreover have "unat c < length font" "\<not> c > 256"
      using assms(2) by (simp_all add: font_def word_less_nat_alt)
    ultimately show ?thesis using False u assms(2) by (simp add: k_putc_def Let_def)
  qed
  then show ?thesis using k_putc_moved console_moved_ready assms(1) by blast
qed

lemma ascii_char:
  assumes "c < 128"
  shows "(scast (c :: u8) :: u16) = ucast c"
proof -
  have "drop_bit 7 c = 0"
    using assms by (simp add: drop_bit_eq_div div_word_less)
  moreover have "bit (drop_bit 7 c) 0 = bit c 7" by (simp add: bit_drop_bit_eq del: bit_0)
  ultimately have bit7: "\<not> bit c 7" by simp
  have high: "\<not> bit c n" if "7 \<le> n" for n
    using bit7 that bit_imp_le_length [of c n] by (cases "n = 7") auto
  show ?thesis
    by (intro bit_word_eqI) (auto simp: bit_signed_iff bit_unsigned_iff min_def not_le high)
qed

interpretation console_chars: text_device putchar always_ready "\<lambda>c. c < 128"
proof
  fix c :: u8 and s :: "'a console_scheme" assume ok: "always_ready s" "c < 128"
  then have "(ucast c :: u16) < 128" by (simp add: word_less_nat_alt)
  with ok show "\<exists>t. putchar c s = Done () t \<and> always_ready t"
    using k_putc_ready [of s "ucast c"] by (simp add: putchar_def ascii_char)
qed

lemma k_puts_char_ready:
  assumes "always_ready s" and "c < 128"
  shows "\<exists>t. k_puts_char c s = Done () t \<and> always_ready t"
proof -
  have "always_ready (s\<lparr>cursor_x := 0\<rparr>)" if "always_ready s" for s :: "'a console_scheme"
    using that by (simp add: always_ready_def)
  then show ?thesis
    using console_chars.put_ready [OF assms] nl_cursor_ready [OF assms(1)] assms(1)
    by (auto simp: k_puts_char_def putchar_def)
qed

interpretation console_text: text_device k_puts_char always_ready "\<lambda>c. c < 128"
  by unfold_locales (rule k_puts_char_ready)

text \<open>A text a log message can show: nothing but 7-bit characters.\<close>

definition ascii :: "string \<Rightarrow> bool" where
  "ascii txt \<longleftrightarrow> (\<forall>c \<in> set txt. (of_char c :: u8) < 128)"

text \<open>What no text output changes.\<close>

definition quiet :: "'z console_scheme \<Rightarrow> 'z console_scheme \<Rightarrow> bool" where
  "quiet s t \<longleftrightarrow> (\<exists>m tr x y c. t = s\<lparr>mem := m, io := io s @ tr, cursor_x := x, cursor_y := y, on_colour := c\<rparr>)"

lemma quiet_trans: "quiet s t \<Longrightarrow> quiet t u \<Longrightarrow> quiet s u"
  unfolding quiet_def by clarsimp blast

lemma quiet_moved: "console_moved s t \<Longrightarrow> quiet s t"
  unfolding console_moved_def quiet_def
  by (elim conjE exE) (intro exI [of _ "on_colour s"] exI, simp)

lemma quiet_colour: "quiet s (set_text_colour c s)"
  unfolding quiet_def set_text_colour_def
  by (intro exI [of _ "mem s"] exI [of _ "[]"] exI [of _ "cursor_x s"] exI [of _ "cursor_y s"] exI [of _ c]) simp

lemma quiet_ready: "quiet s t \<Longrightarrow> always_ready s \<Longrightarrow> always_ready t"
  by (auto simp: quiet_def always_ready_def)

lemma quiet_fields:
  "quiet s t \<Longrightarrow> timer_irqs t = timer_irqs s \<and> pit_ticks t = pit_ticks s \<and> apic_ticks t = apic_ticks s
    \<and> timer_goal_frequency t = timer_goal_frequency s \<and> global_state t = global_state s
    \<and> console.more t = console.more s"
  by (auto simp: quiet_def)

lemma k_puts_ready:
  assumes "always_ready s" and "length str < 256" and "no_nul str" and "ascii str"
  shows "\<exists>t. k_puts str s = Done () t \<and> quiet s t \<and> always_ready t"
proof -
  obtain t where t: "k_puts str s = Done () t"
    using console_text.puts_ready [OF assms(1-3)] assms(4) by (auto simp: k_puts_def ended_def ascii_def)
  then have "quiet s t" by (intro quiet_moved k_puts_moved)
  with t assms(1) show ?thesis by (blast intro: quiet_ready)
qed

lemma vprintf_ready:
  assumes "always_ready s" and "vsn fmt args = Some str" and "ascii str"
  shows "\<exists>r t. vprintf fmt args s = Done r t \<and> quiet s t \<and> always_ready t"
proof -
  let ?cs = "map of_char (filter (\<lambda>c. c \<noteq> CHR 0x00) str)"
  obtain t where t: "for_each ?cs putchar s = Done () t"
    using console_chars.text_ready [OF assms(1), of ?cs] assms(3) by (auto simp: ascii_def)
  have "console_moved s t"
    by (rule for_each_invariant [OF t, where I = "console_moved s"])
      (auto simp: putchar_def intro: console_moved_refl console_moved_trans k_putc_moved)
  then have "quiet s t" by (rule quiet_moved)
  with t assms(1,2) show ?thesis
    by (auto simp: vprintf_def send_text_def printf_chars_def intro: quiet_ready)
qed

lemma tagged_line_ready:
  assumes "always_ready s" and "vsn fmt args = Some str" and "ascii str"
    and "length tag < 256" "no_nul tag" "ascii tag" and "length after < 256" "no_nul after" "ascii after"
  shows "\<exists>t. tagged_line colour tag after fmt args s = Done () t \<and> quiet s t \<and> always_ready t"
proof -
  note colour = quiet_ready [OF quiet_colour]
  obtain a where a: "k_puts ''['' s = Done () a" "quiet s a" "always_ready a"
    using k_puts_ready [OF assms(1), of "''[''"] by (auto simp: no_nul_def ascii_def)
  obtain b where b: "k_puts tag (set_text_colour colour a) = Done () b"
      "quiet (set_text_colour colour a) b" "always_ready b"
    using k_puts_ready [OF colour [OF a(3)] assms(4-6)] by blast
  obtain c where c: "k_puts after (set_text_colour PLAIN_TEXT_COLOUR b) = Done () c"
      "quiet (set_text_colour PLAIN_TEXT_COLOUR b) c" "always_ready c"
    using k_puts_ready [OF colour [OF b(3)] assms(7-9)] by blast
  obtain r d where d: "vprintf fmt args c = Done r d" "quiet c d" "always_ready d"
    using vprintf_ready [OF c(3) assms(2,3)] by blast
  obtain e where e: "crlf d = Done () e" "quiet d e" "always_ready e"
    using k_puts_ready [OF d(3), of "[CHR 0x0D, CHR 0x0A]"] by (auto simp: crlf_def no_nul_def ascii_def)
  have "quiet s e" using a(2) b(2) c(2) d(2) e(2) quiet_colour by (meson quiet_trans)
  then show ?thesis using a(1) b(1) c(1) d(1) e(1,3) by (simp add: tagged_line_def)
qed

section \<open>The beeps\<close>

text \<open>Timers that interrupt at every halt, and counters that have room for \<open>n\<close> more ticks.\<close>

definition timers_run :: "nat \<Rightarrow> 'z devices_scheme \<Rightarrow> bool" where
  "timers_run K s \<longleftrightarrow> timer_goal_frequency s = 1000
     \<and> (\<forall>tr. 1 \<le> fst (timer_irqs s tr) \<and> fst (timer_irqs s tr) \<le> K
          \<and> 1 \<le> snd (timer_irqs s tr) \<and> snd (timer_irqs s tr) \<le> K)"

definition clock :: "'z devices_scheme \<Rightarrow> u64" where
  "clock s = (if get_global_state s APIC_INITIALIZED = 0xf0 then apic_ticks s else pit_ticks s)"

lemma accessed_accessI: "accessed s t \<Longrightarrow> accessed s (access e t)"
  using accessed_access accessed_trans by blast

lemma play_sound_done: "f \<noteq> 0 \<Longrightarrow> \<exists>t. play_sound f s = Done () t \<and> accessed s t"
  by (simp add: play_sound_def set_speaker_frequency_def inb_def outb_def Let_def)
    (auto intro!: accessed_accessI accessed_refl)

lemma sound_off_done: "\<exists>t. sound_off s = Done () t \<and> accessed s t"
  by (simp add: sound_off_def inb_def outb_def Let_def) (auto intro!: accessed_accessI accessed_refl)

lemma accessed_timers:
  "accessed s t \<Longrightarrow> timers_run K t = timers_run K s \<and> clock t = clock s \<and> global_state t = global_state s"
  by (auto simp: accessed_def timers_run_def clock_def get_global_state_def)

text \<open>A sleep of the beep, with whichever timer the panic uses.\<close>

lemma beep_sleep_done:
  assumes "timers_run K s" and "unat (clock s) + 200 + K < 2 ^ 64"
  shows "\<exists>t. (if get_global_state s APIC_INITIALIZED = 0xf0 then apic_sleep_ms 200 s else pit_sleep_ms 200 s) = Done () t
    \<and> timers_run K t \<and> global_state t = global_state s \<and> unat (clock t) < unat (clock s) + 200 + K"
proof (cases "get_global_state s APIC_INITIALIZED = 0xf0")
  case True
  have c: "clock s = apic_ticks s" using True by (simp add: clock_def)
  have "(0 :: u32) < 200" "unat (apic_ticks s) + unat (200 :: u32) + K < 2 ^ 64"
    "\<forall>tr. 1 \<le> snd (timer_irqs s tr) \<and> snd (timer_irqs s tr) \<le> K"
    using assms c by (auto simp: timers_run_def)
  then obtain t n p a where "apic_sleep_ms 200 s = Done () t"
    and less: "unat (apic_ticks t) < unat (apic_ticks s) + unat (200 :: u32) + K"
    and t: "t = s\<lparr>io := io s @ replicate n Hlt, pit_ticks := p, apic_ticks := a\<rparr>"
    by (rule apic_sleep_done)
  moreover have "timers_run K t" "global_state t = global_state s"
    using assms(1) by (simp_all add: t timers_run_def)
  moreover from this(2) have "clock t = apic_ticks t" using True by (simp add: clock_def get_global_state_def)
  ultimately show ?thesis using True c by simp
next
  case False
  have c: "clock s = pit_ticks s" using False by (simp add: clock_def)
  have "timer_goal_frequency s = 1000" "(0 :: u32) < 200" "unat (200 :: u32) * 1000 < 2 ^ 32"
    "\<forall>tr. 1 \<le> fst (timer_irqs s tr) \<and> fst (timer_irqs s tr) \<le> K"
    "unat (pit_ticks s) + unat (200 :: u32) + K < 2 ^ 64"
    using assms c by (auto simp: timers_run_def)
  then obtain t n p a where "pit_sleep_ms 200 s = Done () t"
    and less: "unat (pit_ticks t) < unat (pit_ticks s) + unat (200 :: u32) - 1 + K"
    and t: "t = s\<lparr>io := io s @ [PortOut PIT_CONTROL_PORT 0x36, PortOut PIT_CHANNEL0_PORT 169, PortOut PIT_CHANNEL0_PORT 4]
      @ replicate n Hlt, pit_ticks := p, apic_ticks := a\<rparr>"
    by (rule pit_sleep_done)
  moreover have "timers_run K t" "global_state t = global_state s"
    using assms(1) by (simp_all add: t timers_run_def)
  moreover from this(2) have "clock t = pit_ticks t" using False by (simp add: clock_def get_global_state_def)
  ultimately show ?thesis using False c by simp
qed

lemma panic_beep_done:
  assumes "timers_run K s" and "unat (clock s) + n + 2 * (200 + K) < 2 ^ 64"
  shows "\<exists>t. panic_beep s = Done () t \<and> timers_run K t \<and> unat (clock t) + n < 2 ^ 64
    \<and> global_state t = global_state s"
proof -
  let ?apic = "get_global_state s APIC_INITIALIZED = 0xf0"
  obtain a where a: "play_sound 400 s = Done () a" "accessed s a" using play_sound_done [of 400 s] by auto
  note at = accessed_timers [OF a(2), of K]
  obtain b where b: "(if ?apic then apic_sleep_ms 200 a else pit_sleep_ms 200 a) = Done () b"
      "timers_run K b" "global_state b = global_state a" "unat (clock b) < unat (clock a) + 200 + K"
    using beep_sleep_done [of K a] assms at by (auto simp: get_global_state_def)
  obtain c where c: "sound_off b = Done () c" "accessed b c" using sound_off_done by blast
  note ct = accessed_timers [OF c(2), of K]
  have gs: "global_state c = global_state s" using at b(3) ct by simp
  have room: "unat (clock c) + 200 + K < 2 ^ 64 - n" using assms(2) at b(4) ct by simp
  then have room200: "unat (clock c) + 200 + K < 2 ^ 64" by linarith
  have run: "panic_beep s = (if ?apic then apic_sleep_ms 200 c else Done () c)"
    using a(1) b(1) c(1) at b(3) gs
    by (cases ?apic) (simp_all add: panic_beep_def PANIC_SOUND_FREQUENCY_def PANIC_SOUND_INTERVAL_def get_global_state_def)
  show ?thesis
  proof (cases ?apic)
    case True
    obtain d where "apic_sleep_ms 200 c = Done () d" "timers_run K d" "global_state d = global_state c"
        "unat (clock d) < unat (clock c) + 200 + K"
      using beep_sleep_done [of K c] room200 b(2) ct True gs by (auto simp: get_global_state_def)
    then show ?thesis using run True gs room by simp
  next
    case False
    then show ?thesis using run gs room b(2) ct by simp
  qed
qed

lemma panic_beeps_done:
  "timers_run K s \<Longrightarrow> unat (clock s) + length is * (2 * (200 + K)) < 2 ^ 64 \<Longrightarrow>
    \<exists>t. for_each is (\<lambda>_. panic_beep) s = Done () t"
proof (induction "is" arbitrary: s)
  case (Cons i "is")
  obtain u where "panic_beep s = Done () u" "timers_run K u" "unat (clock u) + length is * (2 * (200 + K)) < 2 ^ 64"
    using panic_beep_done [of K s "length is * (2 * (200 + K))"] Cons.prems by auto
  then show ?case using Cons.IH by simp
qed simp

section \<open>Properties\<close>

lemma panic_text:
  assumes "no_nul msg"
  shows "vsn ''Unrecoverable error: %s Halt.'' [Str msg] = Some (''Unrecoverable error: '' @ msg @ '' Halt.'')"
proof -
  have "\<forall>c \<in> set msg. c \<noteq> CHR 0x00" using assms by (auto simp: no_nul_def)
  then show ?thesis by (simp add: conversion_defs format_str_def no_flags_def spaces_def Let_def)
qed

lemma run_panic_halts:
  assumes "panics s = 0" and "always_ready s" and "timers_run K s"
    and "unat (clock s) + 12 * (200 + K) < 2 ^ 64" and "ascii msg" and "no_nul msg"
  shows "\<exists>t. run_panic msg s = Stop Halted t"
proof -
  let ?s = "s\<lparr>panics := 1\<rparr>"
  have "always_ready ?s" using assms(2) by (simp add: always_ready_def)
  moreover have "ascii (''Unrecoverable error: '' @ msg @ '' Halt.'')" using assms(5) by (auto simp: ascii_def)
  ultimately obtain u where u: "put_err ''Unrecoverable error: %s Halt.'' [Str msg] ?s = Done () u" "quiet ?s u"
    using tagged_line_ready [OF _ panic_text [OF assms(6)], of ?s "''ERR''" "''] Kernel: ''" ERR_TEXT_COLOUR]
    unfolding put_err_def by (auto simp: no_nul_def ascii_def)
  have "timers_run K u" "clock u = clock s" "global_state u = global_state s"
    using quiet_fields [OF u(2)] assms(3) by (simp_all add: timers_run_def clock_def get_global_state_def)
  then obtain v where "for_each [0..<PANIC_BEEPS] (\<lambda>_. panic_beep) u = Done () v"
    using panic_beeps_done [of K u "[0..<PANIC_BEEPS]"] assms(4) by (auto simp: PANIC_BEEPS_def)
  then show ?thesis using u(1) assms(1) by (simp add: run_panic_def hcf_def)
qed


definition example_logger :: logger where
  "example_logger = console.extend example_console (logger.fields 0)"


end
