(* ===== verification/Descriptors.thy ===== *)
theory Descriptors
  imports Logging
begin

text \<open>
  The descriptor tables, \<open>platform/x86_64/gdt.c\<close> and \<open>idt.c\<close>: the encoding of segment descriptors,
  of the task state segment's descriptor and of interrupt gates, and the two set-ups. The
  instructions that load the tables are assembly: they are recorded with their operands.
\<close>

section \<open>State\<close>

text \<open>The addresses of static data and of the assembly stubs, which the linker chooses.\<close>

record static_addresses =
  at_gdt :: u64
  at_tss :: u64
  at_idt :: u64
  at_kernel_stack :: u64
  at_df_stack :: u64
  at_nmi_stack :: u64
  at_isr_stub :: "nat \<Rightarrow> u64"
  at_isr :: "u8 \<Rightarrow> u64"

text \<open>The packed structure \<open>gdt__gdt_entry\<close>; the two bit fields have 4 bits each.\<close>

record gdt_entry =
  bounds_low :: u16
  base_low :: u16
  base_mid :: u8
  access_byte :: u8
  bounds_high :: "4 word"
  seg_flags :: "4 word"
  base_high :: u8

text \<open>An element of the table is a union: a segment descriptor or the upper half of a TSS address.\<close>

datatype gdt_slot = Segment gdt_entry | Tss_addr u64

record tss_entry =
  tss_rsp0 :: u64
  tss_ist :: "u64 list"
  io_map_base :: u16

record idt_entry =
  offset_low :: u16
  selector :: u16
  ist :: u8
  type_attr :: u8
  offset_mid :: u16
  offset_high :: u32
  zero_word :: u32

datatype cpu_load = Lgdt u16 u64 | Reload_segments | Ltr u16 | Lidt u16 u64

record descriptors = logger +
  gdt :: "gdt_slot list"
  tss :: tss_entry
  idt :: "idt_entry list"
  cpu_loads :: "cpu_load list"

definition load_table :: "cpu_load \<Rightarrow> 'z descriptors_scheme \<Rightarrow> 'z descriptors_scheme" where
  "load_table e s = s\<lparr>cpu_loads := cpu_loads s @ [e]\<rparr>"

section \<open>The global descriptor table\<close>

definition SIZEOF_TSS :: u64 where "SIZEOF_TSS = 104"
definition STACK_SIZE :: u64 where "STACK_SIZE = 4096"

definition set_gdt :: "nat \<Rightarrow> gdt_slot \<Rightarrow> 'z descriptors_scheme \<Rightarrow> (unit, 'z descriptors_scheme) outcome" where
  "set_gdt index slot s =
     (if index < length (gdt s) then Done () (s\<lparr>gdt := (gdt s)[index := slot]\<rparr>)
      else Stop (Fault ''gdt out of bounds'') s)"

definition make_gdt_entry :: "nat \<Rightarrow> u8 \<Rightarrow> u8 \<Rightarrow> 'z descriptors_scheme \<Rightarrow> (unit, 'z descriptors_scheme) outcome" where
  "make_gdt_entry index acc flags =
     set_gdt index (Segment \<lparr>bounds_low = 0, base_low = 0, base_mid = 0, access_byte = acc,
       bounds_high = 0, seg_flags = ucast flags, base_high = 0\<rparr>)"

definition make_tts_gdt_entry :: "nat \<Rightarrow> u64 \<Rightarrow> 'z descriptors_scheme \<Rightarrow> (unit, 'z descriptors_scheme) outcome" where
  "make_tts_gdt_entry index tss_base s =
     bindO (set_gdt index (Segment
       \<lparr>bounds_low = ucast (SIZEOF_TSS - 1),
        base_low = ucast (tss_base AND 0xffff),
        base_mid = ucast (drop_bit 16 tss_base AND 0xff),
        access_byte = 0x89,
        bounds_high = ucast (drop_bit 16 (SIZEOF_TSS - 1) AND 0x0F),
        seg_flags = 0,
        base_high = ucast (drop_bit 24 tss_base AND 0xff)\<rparr>) s) (\<lambda>_ s.
     set_gdt (index + 1) (Tss_addr (drop_bit 32 tss_base)) s)"

definition setup_gdt :: "static_addresses \<Rightarrow> 'z descriptors_scheme \<Rightarrow> (unit, 'z descriptors_scheme) outcome" where
  "setup_gdt a s =
     bindO (make_gdt_entry 0 0 0 (s\<lparr>tss := (tss s)\<lparr>io_map_base := 0xFFFF\<rparr>\<rparr>)) (\<lambda>_ s.
     bindO (make_gdt_entry 1 0x9A 0xA s) (\<lambda>_ s.
     bindO (make_gdt_entry 2 0x92 0xC s) (\<lambda>_ s.
     bindO (make_gdt_entry 3 0xFA 0xC s) (\<lambda>_ s.
     bindO (make_gdt_entry 4 0xF2 0xC s) (\<lambda>_ s.
     bindO (make_gdt_entry 5 0xFA 0xA s) (\<lambda>_ s.
     bindO (make_tts_gdt_entry 6 (at_tss a) s) (\<lambda>_ s.
     let stacks = (tss_ist (tss s))[1 := at_df_stack a + STACK_SIZE, 2 := at_nmi_stack a + STACK_SIZE];
         s = s\<lparr>tss := (tss s)\<lparr>tss_ist := stacks, tss_rsp0 := at_kernel_stack a + STACK_SIZE\<rparr>\<rparr>;
         s = load_table (Lgdt (of_nat (8 * length (gdt s)) - 1) (at_gdt a)) s;
         s = load_table Reload_segments s
     in Done () (load_table (Ltr 0x30) s))))))))"

section \<open>The interrupt descriptor table\<close>

definition GDT_OFFSET_KERNEL_CODE :: u16 where "GDT_OFFSET_KERNEL_CODE = 0x8"
definition IDT_VECTORS :: nat where "IDT_VECTORS = 255"
definition IDT_DEFAULT_FLAGS :: u8 where "IDT_DEFAULT_FLAGS = 0x8E"

definition gate :: "u64 \<Rightarrow> u8 \<Rightarrow> idt_entry" where
  "gate isr flags =
     \<lparr>offset_low = ucast (isr AND 0xFFFF),
      selector = GDT_OFFSET_KERNEL_CODE,
      ist = 0,
      type_attr = flags,
      offset_mid = ucast (drop_bit 16 isr AND 0xFFFF),
      offset_high = ucast (drop_bit 32 isr AND 0xFFFFFFFF),
      zero_word = 0\<rparr>"

definition idt_set_descriptor :: "u8 \<Rightarrow> u64 \<Rightarrow> u8 \<Rightarrow> 'z descriptors_scheme \<Rightarrow> (unit, 'z descriptors_scheme) outcome" where
  "idt_set_descriptor index isr flags s =
     (if unat index < length (idt s) then Done () (s\<lparr>idt := (idt s)[unat index := gate isr flags]\<rparr>)
      else Stop (Fault ''idt out of bounds'') s)"

text \<open>The vectors of the handlers beyond the 32 exceptions.\<close>

definition handled_vectors :: "u8 list" where
  "handled_vectors = [0x20, 0x24, 0x70, 0xf0, 0xf1, 0xf2, 0xf3, 0xf4, 0xf5, 0xf6]"

definition setup_idt :: "static_addresses \<Rightarrow> 'z descriptors_scheme \<Rightarrow> (unit, 'z descriptors_scheme) outcome" where
  "setup_idt a s =
     bindO (for_each [0..<32] (\<lambda>vector. idt_set_descriptor (of_nat vector) (at_isr_stub a vector) IDT_DEFAULT_FLAGS) s) (\<lambda>_ s.
     bindO (for_each handled_vectors (\<lambda>vector. idt_set_descriptor vector (at_isr a vector) IDT_DEFAULT_FLAGS) s) (\<lambda>_ s.
     Done () (load_table (Lidt (16 * of_nat IDT_VECTORS - 1) (at_idt a)) s)))"

section \<open>What the processor reads\<close>

text \<open>The target of a gate, and the eight bytes of a slot of the table in the packed layout.\<close>

definition gate_target :: "idt_entry \<Rightarrow> u64" where
  "gate_target e = ucast (offset_low e) OR push_bit 16 (ucast (offset_mid e)) OR push_bit 32 (ucast (offset_high e))"

definition segment_word :: "gdt_entry \<Rightarrow> u64" where
  "segment_word e = ucast (bounds_low e) OR push_bit 16 (ucast (base_low e)) OR push_bit 32 (ucast (base_mid e))
     OR push_bit 40 (ucast (access_byte e)) OR push_bit 48 (ucast (bounds_high e))
     OR push_bit 52 (ucast (seg_flags e)) OR push_bit 56 (ucast (base_high e))"

fun slot_word :: "gdt_slot \<Rightarrow> u64" where
  "slot_word (Segment e) = segment_word e"
| "slot_word (Tss_addr w) = w"

text \<open>The base and the limit of a system descriptor of two words, as the processor decodes them.\<close>

definition system_base :: "u64 \<Rightarrow> u64 \<Rightarrow> u64" where
  "system_base lo hi = (drop_bit 16 lo AND mask 24) OR push_bit 24 (drop_bit 56 lo AND mask 8) OR push_bit 32 hi"

definition system_limit :: "u64 \<Rightarrow> u64" where
  "system_limit lo = (lo AND mask 16) OR push_bit 16 (drop_bit 48 lo AND mask 4)"

lemma low_masks: "(0xff :: u64) = mask 8" "(0xffff :: u64) = mask 16" "(0xFFFFFFFF :: u64) = mask 32"
  by (simp_all add: mask_eq_exp_minus_1)

lemma part_bit: "m \<le> n \<Longrightarrow> bit w (m + (n - m)) = bit w n"
  by simp

lemmas descriptor_bits =
  bit_or_iff bit_push_bit_iff bit_unsigned_iff bit_and_iff bit_mask_iff bit_drop_bit_eq

lemma gate_target_gate [simp]: "gate_target (gate isr flags) = isr"
proof (rule bit_word_eqI)
  fix n assume n: "n < LENGTH(64)"
  consider "n < 16" | "16 \<le> n" "n < 32" | "32 \<le> n" by linarith
  then show "bit (gate_target (gate isr flags)) n = bit isr n"
    using n unfolding gate_target_def gate_def low_masks
    by cases (auto simp: descriptor_bits)
qed

lemma gate_fields [simp]:
  "selector (gate isr flags) = 8" "ist (gate isr flags) = 0" "type_attr (gate isr flags) = flags"
  by (simp_all add: gate_def GDT_OFFSET_KERNEL_CODE_def)

text \<open>The descriptor that \<open>make_tts_gdt_entry\<close> writes.\<close>

definition tss_segment :: "u64 \<Rightarrow> gdt_entry" where
  "tss_segment a = \<lparr>bounds_low = 103, base_low = ucast (a AND 0xffff),
     base_mid = ucast (drop_bit 16 a AND 0xff), access_byte = 0x89, bounds_high = 0, seg_flags = 0,
     base_high = ucast (drop_bit 24 a AND 0xff)\<rparr>"

lemma entry_bits:
  "bit (bounds_low e) n \<Longrightarrow> n < 16" "bit (base_low e) n \<Longrightarrow> n < 16" "bit (base_mid e) n \<Longrightarrow> n < 8"
  "bit (access_byte e) n \<Longrightarrow> n < 8" "bit (bounds_high e) n \<Longrightarrow> n < 4" "bit (seg_flags e) n \<Longrightarrow> n < 4"
  "bit (base_high e) n \<Longrightarrow> n < 8"
  using bit_imp_le_length by fastforce+

lemma system_base_of_segment:
  "system_base (segment_word e) hi =
     ucast (base_low e) OR push_bit 16 (ucast (base_mid e)) OR push_bit 24 (ucast (base_high e)) OR push_bit 32 hi"
  (is "?l = ?r")
proof (rule bit_word_eqI)
  fix n assume n: "n < LENGTH(64)"
  consider "n < 16" | "16 \<le> n" "n < 24" | "24 \<le> n" "n < 32" | "32 \<le> n" by linarith
  then show "bit ?l n = bit ?r n"
    using n unfolding system_base_def segment_word_def
    by cases (auto simp: descriptor_bits dest: entry_bits)
qed

lemma system_limit_of_segment:
  "system_limit (segment_word e) = ucast (bounds_low e) OR push_bit 16 (ucast (bounds_high e))"
  (is "?l = ?r")
proof (rule bit_word_eqI)
  fix n assume n: "n < LENGTH(64)"
  consider "n < 16" | k where "n = 16 + k" "k < 4" | "20 \<le> n"
    proof -
    assume a: "n < 16 \<Longrightarrow> thesis" "\<And>k. n = 16 + k \<Longrightarrow> k < 4 \<Longrightarrow> thesis" "20 \<le> n \<Longrightarrow> thesis"
    show thesis using a(1) a(2)[of "n - 16"] a(3) by linarith
  qed
  then show "bit ?l n = bit ?r n"
  proof cases
    case 1
    then show ?thesis using n by (simp add: system_limit_def segment_word_def descriptor_bits)
  next
    case 2
    then show ?thesis using n
      by (auto simp: system_limit_def segment_word_def descriptor_bits dest: entry_bits)
  next
    case 3
    then have "\<not> bit (bounds_low e) n" "\<not> bit (bounds_high e) (n - 16)" "\<not> n - 16 < 4" using entry_bits[of e] by fastforce+
    then show ?thesis using 3 by (simp add: system_limit_def descriptor_bits)
  qed
qed

lemma tss_base_split: "system_base (segment_word (tss_segment a)) (drop_bit 32 a) = a" (is "?l = a")
proof (rule bit_word_eqI)
  fix n assume n: "n < LENGTH(64)"
  consider "n < 16" | "16 \<le> n" "n < 24" | "24 \<le> n" "n < 32" | "32 \<le> n" by linarith
  then show "bit ?l n = bit a n"
    using n unfolding system_base_of_segment tss_segment_def low_masks
    by cases (auto simp: descriptor_bits)
qed

lemma tss_limit: "system_limit (segment_word (tss_segment a)) = 103"
  by (simp add: system_limit_of_segment tss_segment_def)

section \<open>The set-ups\<close>

lemma set_gdt_in [simp]: "index < length (gdt s) \<Longrightarrow> set_gdt index slot s = Done () (s\<lparr>gdt := (gdt s)[index := slot]\<rparr>)"
  by (simp add: set_gdt_def)

text \<open>The table after \<open>setup_gdt\<close>.\<close>

lemma segment_words:
  "segment_word \<lparr>bounds_low = 0, base_low = 0, base_mid = 0, access_byte = acc, bounds_high = 0,
     seg_flags = fl, base_high = 0\<rparr> = push_bit 40 (ucast acc) OR push_bit 52 (ucast fl)"
  by (simp add: segment_word_def)

lemma setup_gdt_done:
  assumes gdt: "length (gdt s) = 8"
  shows "\<exists>t. setup_gdt a s = Done () t \<and>
     map slot_word (gdt t) =
       [0, 0x00A09A0000000000, 0x00C0920000000000, 0x00C0FA0000000000, 0x00C0F20000000000,
        0x00A0FA0000000000, segment_word (tss_segment (at_tss a)), drop_bit 32 (at_tss a)] \<and>
     tss_rsp0 (tss t) = at_kernel_stack a + 4096 \<and> io_map_base (tss t) = 0xFFFF \<and>
     tss_ist (tss t) = (tss_ist (tss s))[1 := at_df_stack a + 4096, 2 := at_nmi_stack a + 4096] \<and>
     idt t = idt s \<and> cpu_loads t = cpu_loads s @ [Lgdt 63 (at_gdt a), Reload_segments, Ltr 0x30]"
proof -
  obtain g0 g1 g2 g3 g4 g5 g6 g7 where g: "gdt s = [g0, g1, g2, g3, g4, g5, g6, g7]"
    using gdt by (auto simp: numeral_eq_Suc length_Suc_conv)
  show ?thesis
    by (simp add: setup_gdt_def make_gdt_entry_def make_tts_gdt_entry_def g load_table_def Let_def
        segment_words SIZEOF_TSS_def STACK_SIZE_def tss_segment_def)
qed

lemma idt_set_descriptor_in [simp]:
  "unat index < length (idt s) \<Longrightarrow>
   idt_set_descriptor index isr flags s = Done () (s\<lparr>idt := (idt s)[unat index := gate isr flags]\<rparr>)"
  by (simp add: idt_set_descriptor_def)

lemma idt_set_each:
  assumes "\<And>v. v \<in> set vs \<Longrightarrow> unat (ix v) < length (idt s)"
  shows "for_each vs (\<lambda>v. idt_set_descriptor (ix v) (stub v) flags) s =
     Done () (s\<lparr>idt := fold (\<lambda>v t. t[unat (ix v) := gate (stub v) flags]) vs (idt s)\<rparr>)"
  using assms by (induction vs arbitrary: s) simp_all

lemma fold_length [simp]: "length (fold (\<lambda>v t. t[ix v := f v]) vs t) = length t"
  by (induction vs arbitrary: t) simp_all

lemma inj_unat: "inj_on (\<lambda>v :: u8. unat v) UNIV"
  by (simp add: inj_on_def word_unat_eq_iff)

lemma fold_gates:
  assumes "inj_on (\<lambda>v. unat (ix v)) (set vs)" and "\<forall>v \<in> set vs. unat (ix v) < length t"
  shows "length (fold (\<lambda>v t. t[unat (ix v) := f v]) vs t) = length t \<and>
     (\<forall>v \<in> set vs. fold (\<lambda>v t. t[unat (ix v) := f v]) vs t ! unat (ix v) = f v) \<and>
     (\<forall>n. n \<notin> (\<lambda>v. unat (ix v)) ` set vs \<longrightarrow> fold (\<lambda>v t. t[unat (ix v) := f v]) vs t ! n = t ! n)"
  using assms
proof (induction vs arbitrary: t)
  case (Cons w vs)
  let ?t = "t[unat (ix w) := f w]"
  have ih: "length (fold (\<lambda>v t. t[unat (ix v) := f v]) vs ?t) = length ?t"
    "\<forall>v \<in> set vs. fold (\<lambda>v t. t[unat (ix v) := f v]) vs ?t ! unat (ix v) = f v"
    "\<forall>n. n \<notin> (\<lambda>v. unat (ix v)) ` set vs \<longrightarrow> fold (\<lambda>v t. t[unat (ix v) := f v]) vs ?t ! n = ?t ! n"
    using Cons.IH[of ?t] Cons.prems by (auto intro: inj_on_subset)
  have w: "fold (\<lambda>v t. t[unat (ix v) := f v]) vs ?t ! unat (ix w) = f w"
  proof (cases "w \<in> set vs")
    case False
    then have "unat (ix w) \<notin> (\<lambda>v. unat (ix v)) ` set vs" using Cons.prems(1) by (auto dest: inj_onD)
    then show ?thesis using ih(3) Cons.prems(2) by simp
  qed (use ih(2) in simp)
  show ?case using ih w by (auto simp: nth_list_update)
qed simp

text \<open>The gates that \<open>setup_idt\<close> installs, and those it leaves.\<close>

definition stub_of :: "static_addresses \<Rightarrow> nat \<Rightarrow> u64" where
  "stub_of a v = (if v < 32 then at_isr_stub a v else at_isr a (of_nat v))"

definition installed :: "nat set" where
  "installed = {0..<32} \<union> unat ` set handled_vectors"

lemma setup_idt_done:
  assumes idt: "length (idt s) = IDT_VECTORS"
  shows "\<exists>t. setup_idt a s = Done () t \<and> length (idt t) = IDT_VECTORS \<and>
     (\<forall>v \<in> installed. idt t ! v = gate (stub_of a v) IDT_DEFAULT_FLAGS) \<and>
     (\<forall>v. v \<notin> installed \<longrightarrow> idt t ! v = idt s ! v) \<and>
     gdt t = gdt s \<and> tss t = tss s \<and> cpu_loads t = cpu_loads s @ [Lidt 4079 (at_idt a)]"
proof -
  let ?t1 = "fold (\<lambda>v t. t[unat (of_nat v :: u8) := gate (at_isr_stub a v) IDT_DEFAULT_FLAGS]) [0..<32] (idt s)"
  let ?t2 = "fold (\<lambda>v t. t[unat v := gate (at_isr a v) IDT_DEFAULT_FLAGS]) handled_vectors ?t1"
  have u: "unat (of_nat v :: u8) = v" if "v < 32" for v using that by (simp add: unat_of_nat)
  have hv: "\<forall>v \<in> set handled_vectors. unat v < IDT_VECTORS \<and> 32 \<le> unat v"
    by (simp add: handled_vectors_def IDT_VECTORS_def)
  have t1: "length ?t1 = IDT_VECTORS" "\<forall>v < 32. ?t1 ! v = gate (at_isr_stub a v) IDT_DEFAULT_FLAGS"
    "\<forall>n. 32 \<le> n \<longrightarrow> ?t1 ! n = idt s ! n"
    using fold_gates[of "\<lambda>v. of_nat v :: u8" "[0..<32]" "idt s" "\<lambda>v. gate (at_isr_stub a v) IDT_DEFAULT_FLAGS"] u idt
    by (auto simp: inj_on_def IDT_VECTORS_def image_iff)
  have hv': "\<forall>v \<in> set handled_vectors. unat v < length ?t1" using hv t1(1) by simp
  note f2 = fold_gates[of "\<lambda>v. v" handled_vectors ?t1 "\<lambda>v. gate (at_isr a v) IDT_DEFAULT_FLAGS",
      OF inj_on_subset[OF inj_unat subset_UNIV] hv']
  have t2: "length ?t2 = IDT_VECTORS"
    "\<forall>v \<in> set handled_vectors. ?t2 ! unat v = gate (at_isr a v) IDT_DEFAULT_FLAGS"
    "\<forall>n. n \<notin> unat ` set handled_vectors \<longrightarrow> ?t2 ! n = ?t1 ! n"
    using f2 [THEN conjunct1] f2 [THEN conjunct2, THEN conjunct1] f2 [THEN conjunct2, THEN conjunct2] t1(1)
    by (simp only:)+
  have first: "for_each [0..<32] (\<lambda>vector. idt_set_descriptor (of_nat vector) (at_isr_stub a vector) IDT_DEFAULT_FLAGS) s
      = Done () (s\<lparr>idt := ?t1\<rparr>)"
    using idt u by (intro idt_set_each) (auto simp: IDT_VECTORS_def)
  have second: "for_each handled_vectors (\<lambda>vector. idt_set_descriptor vector (at_isr a vector) IDT_DEFAULT_FLAGS) (s\<lparr>idt := ?t1\<rparr>)
      = Done () (s\<lparr>idt := ?t2\<rparr>)"
    using idt_set_each[of handled_vectors "\<lambda>v. v" "s\<lparr>idt := ?t1\<rparr>"] hv t1(1) by simp
  have "setup_idt a s = Done () (s\<lparr>idt := ?t2, cpu_loads := cpu_loads s @ [Lidt 4079 (at_idt a)]\<rparr>)"
    by (simp add: setup_idt_def first second load_table_def IDT_VECTORS_def)
  moreover have "\<forall>v \<in> installed. ?t2 ! v = gate (stub_of a v) IDT_DEFAULT_FLAGS"
  proof
    fix v assume v: "v \<in> installed"
    show "?t2 ! v = gate (stub_of a v) IDT_DEFAULT_FLAGS"
    proof (cases "v < 32")
      case True
      then have "v \<notin> unat ` set handled_vectors" using hv by auto
      then show ?thesis using t2(3) t1(2) True by (simp add: stub_of_def)
    next
      case False
      then obtain w where "w \<in> set handled_vectors" "v = unat w" using v by (auto simp: installed_def)
      then show ?thesis using t2(2) False by (simp add: stub_of_def)
    qed
  qed
  ultimately show ?thesis using t2 t1 by (auto simp: installed_def)
qed


definition example_descriptors :: descriptors where
  "example_descriptors = logger.extend example_logger
     (descriptors.fields (replicate 8 (Tss_addr 0)) \<lparr>tss_rsp0 = 0, tss_ist = replicate 7 0, io_map_base = 0\<rparr>
        (replicate 255 \<lparr>offset_low = 0, selector = 0, ist = 0, type_attr = 0, offset_mid = 0, offset_high = 0, zero_word = 0\<rparr>) [])"

definition example_addresses :: static_addresses where
  "example_addresses = \<lparr>at_gdt = 0x1000, at_tss = 0xFFFFFFFF80012345, at_idt = 0x3000, at_kernel_stack = 0x4000,
     at_df_stack = 0x5000, at_nmi_stack = 0x6000, at_isr_stub = (\<lambda>n. 0x7000 + of_nat n), at_isr = (\<lambda>v. 0x8000 + ucast v)\<rparr>"


end
