(* ===== verification/Shell.thy ===== *)
theory Shell
  imports Descriptors Rtc
begin

text \<open>
  The debug shell on the serial line, \<open>interupt/rs232_handler.c\<close>: the line buffer, its editing and
  the commands. An abstract line editor says what a key does, and the handler refines it.
\<close>

section \<open>Output of the other components\<close>

text \<open>
  The other components record their messages in \<open>klog\<close>. \<open>shown\<close> runs one of their operations on the
  machine: the messages it has recorded are put out when it is done, and where it panics the panic
  path runs.
\<close>

definition put_events :: "out_event list \<Rightarrow> 'z console_scheme \<Rightarrow> (unit, 'z console_scheme) outcome" where
  "put_events = (\<lambda>es. for_each es show_event)"

definition shown ::
  "('z logger_scheme \<Rightarrow> ('a, 'z logger_scheme) outcome) \<Rightarrow> 'z logger_scheme \<Rightarrow> ('a, 'z logger_scheme) outcome" where
  "shown op s =
     (case op (s\<lparr>klog := []\<rparr>) of
        Done a t \<Rightarrow> bindO (put_events (klog t) (t\<lparr>klog := klog s\<rparr>)) (\<lambda>_ t. Done a t)
      | Stop r t \<Rightarrow> bindO (put_events (klog t) (t\<lparr>klog := klog s\<rparr>)) (\<lambda>_ t.
          case r of Panic msg \<Rightarrow> run_panic msg t | _ \<Rightarrow> Stop r t))"

section \<open>State\<close>

text \<open>The registers that the interrupt stub has pushed, \<open>struct interrupt_cpu_status\<close> of \<open>isr.h\<close>.\<close>

record interrupt_cpu_status =
  cs_r15 :: u64
  cs_r14 :: u64
  cs_r13 :: u64
  cs_r12 :: u64
  cs_r11 :: u64
  cs_r10 :: u64
  cs_r9 :: u64
  cs_r8 :: u64
  cs_rbp :: u64
  cs_rdi :: u64
  cs_rsi :: u64
  cs_rdx :: u64
  cs_rcx :: u64
  cs_rbx :: u64
  cs_rax :: u64
  cs_vector :: u64
  cs_error_code :: u64
  cs_iret_rip :: u64
  cs_iret_cs :: u64
  cs_iret_flags :: u64
  cs_iret_rsp :: u64
  cs_iret_ss :: u64

record shell = descriptors +
  terminal_running :: bool
  line_buffer :: "u8 list"
  buffer_index :: u8

definition LINE_BUFFER_SIZE :: nat where "LINE_BUFFER_SIZE = 255"

definition PROMPT :: string where "PROMPT = ''adaOS Kernel Debug Shell > ''"

section \<open>Commands\<close>

text \<open>One line of text with two registers; \<open>serial_printf\<close> and \<open>printf\<close> both print such lines.\<close>

definition two_registers :: "string \<Rightarrow> string \<Rightarrow> string" where
  "two_registers a b = a @ ''%016llx  '' @ b @ ''%016llx'' @ [CHR 0x0A]"

definition register_lines :: "interrupt_cpu_status \<Rightarrow> (string \<times> fmt_arg list) list" where
  "register_lines c =
     [(two_registers ''RAX: '' ''RBX: '', [Num (cs_rax c), Num (cs_rbx c)]),
      (two_registers ''RCX: '' ''RDX: '', [Num (cs_rcx c), Num (cs_rdx c)]),
      (two_registers ''RSI: '' ''RDI: '', [Num (cs_rsi c), Num (cs_rdi c)]),
      (''RBP: %016llx'' @ [CHR 0x0A], [Num (cs_rbp c)]),
      (two_registers ''R8:  '' ''R9:  '', [Num (cs_r8 c), Num (cs_r9 c)]),
      (two_registers ''R10: '' ''R11: '', [Num (cs_r10 c), Num (cs_r11 c)]),
      (two_registers ''R12: '' ''R13: '', [Num (cs_r12 c), Num (cs_r13 c)]),
      (two_registers ''R14: '' ''R15: '', [Num (cs_r14 c), Num (cs_r15 c)]),
      (two_registers ''RIP: '' ''CS:  '', [Num (cs_iret_rip c), Num (cs_iret_cs c)]),
      (two_registers ''RSP: '' ''SS:  '', [Num (cs_iret_rsp c), Num (cs_iret_ss c)]),
      (''RFLAGS: %016llx'' @ [CHR 0x0A], [Num (cs_iret_flags c)])]"

definition print_cpu_status :: "interrupt_cpu_status \<Rightarrow> 'z devices_scheme \<Rightarrow> (unit, 'z devices_scheme) outcome" where
  "print_cpu_status context s =
     for_each (register_lines context) (\<lambda>(fmt, args) s. bindO (serial_printf fmt args s) (\<lambda>_ s. Done () s)) s"

text \<open>The hundredths of a GiB are divided by a million bytes, not by a GiB.\<close>

definition serial_print_free_ram :: "'z devices_scheme \<Rightarrow> (unit, 'z devices_scheme) outcome" where
  "serial_print_free_ram s =
     (let len = free_pages s * PAGE_SIZE;
          gib = len div 1073741824;
          remainder = len mod 1073741824;
          decimal = (remainder * 100) div 1073741
      in bindO (serial_printf (''Free pages: %d, used pages: %d. Total free: %d.%02dGib'' @ [CHR 0x0A])
           [Num (free_pages s), Num (used_pages s), Num gib, Num decimal] s) (\<lambda>_ s. Done () s))"

text \<open>The text at an address, for \<open>%s\<close>: it has to end inside the buffer it is in.\<close>

fun string_at :: "memory \<Rightarrow> u64 \<Rightarrow> nat \<Rightarrow> string option" where
  "string_at m a 0 = None"
| "string_at m a (Suc n) = (if m a = 0 then Some [] else map_option ((#) (char_of (unat (m a)))) (string_at m (a + 1) n))"

definition print_time :: "'z shell_scheme \<Rightarrow> (unit, 'z shell_scheme) outcome" where
  "print_time s =
     bindO (shown get_formatted_time s) (\<lambda>buf s.
     case string_at (mem s) buf 25 of
       None \<Rightarrow> Stop (Fault ''text not terminated'') s
     | Some str \<Rightarrow> bindO (serial_printf ''%s'' [Str str] s) (\<lambda>_ s. Done () s))"

text \<open>\<open>memcmp(line_buffer, name, len)\<close>: only the first \<open>len\<close> characters are compared.\<close>

definition line_starts :: "string \<Rightarrow> nat \<Rightarrow> 'z shell_scheme \<Rightarrow> bool" where
  "line_starts name len s \<longleftrightarrow> take len (line_buffer s) = map of_char (take len name)"

definition run_command :: "interrupt_cpu_status \<Rightarrow> 'z shell_scheme \<Rightarrow> (unit, 'z shell_scheme) outcome" where
  "run_command context s =
     (if line_starts ''memmap'' 6 s then shown serial_print_mem_map s
      else if line_starts ''clear'' 5 s then clear s
      else if line_starts ''free'' 4 s then serial_print_free_ram s
      else if line_starts ''time'' 4 s then print_time s
      else if line_starts ''reg'' 3 s then print_cpu_status context s
      else if terminal_running s \<and> line_buffer s ! 0 \<noteq> 0x0D then
        bindO (serial_printf (''Unkown Command.'' @ [CHR 0x0A]) [] s) (\<lambda>_ s. Done () s)
      else Done () s)"

section \<open>The interrupt\<close>

definition set_line_char :: "u8 \<Rightarrow> u8 \<Rightarrow> 'z shell_scheme \<Rightarrow> (unit, 'z shell_scheme) outcome" where
  "set_line_char i byte s =
     (if unat i < LINE_BUFFER_SIZE then Done () (s\<lparr>line_buffer := (line_buffer s)[unat i := byte]\<rparr>)
      else Stop (Fault ''line_buffer out of bounds'') s)"

text \<open>The end of a line: the buffer is cleared up to the index, and the prompt is written.\<close>

definition newline :: "'z shell_scheme \<Rightarrow> (unit, 'z shell_scheme) outcome" where
  "newline s =
     (let n = unat (buffer_index s);
          s = s\<lparr>line_buffer := replicate n 0 @ drop n (line_buffer s), buffer_index := 0\<rparr>
      in bindO (serial_write_string PROMPT s) (\<lambda>_ s. Done () (s\<lparr>terminal_running := True\<rparr>)))"

definition rs232_irq :: "interrupt_cpu_status \<Rightarrow> 'z shell_scheme \<Rightarrow> (unit, 'z shell_scheme) outcome" where
  "rs232_irq context s =
     bindO (serial_readb_unsafe_nonblocking s) (\<lambda>byte s.
     if byte \<noteq> 0x0D \<and> \<not> terminal_running s then Done () s
     else if byte = 0x08 then
       (if buffer_index s = 0 then Done () s
        else
          bindO (set_line_char (buffer_index s) 0 (serial_writeb_unsafe_nonblocking byte s)) (\<lambda>_ s.
          Done () (s\<lparr>buffer_index := buffer_index s - 1\<rparr>)))
     else
       bindO (set_line_char (buffer_index s) byte (serial_writeb_unsafe_nonblocking byte s)) (\<lambda>_ s.
       let s = s\<lparr>buffer_index := buffer_index s + 1\<rparr>
       in if byte = 0x0D then bindO (run_command context s) (\<lambda>_ s. newline s) else Done () s))"

section \<open>The abstract shell\<close>

text \<open>
  The line editor without a buffer: whether the shell has been started, and the line so far. A key
  is ignored, changes the line and is echoed, or submits the line.
\<close>

datatype reply = Ignored | Echoed u8 | Submitted "u8 list"

type_synonym editor = "bool \<times> u8 list"

fun edit :: "u8 \<Rightarrow> editor \<Rightarrow> editor \<times> reply" where
  "edit key (started, line) =
     (if key = 0x0D then ((True, []), Submitted line)
      else if \<not> started then ((started, line), Ignored)
      else if key = 0x08 then (if line = [] then ((started, line), Ignored) else ((started, butlast line), Echoed key))
      else ((started, line @ [key]), Echoed key))"

text \<open>What the user typed: the keys of a line, with the backspaces carried out.\<close>

definition typed :: "u8 list \<Rightarrow> u8 list" where
  "typed keys = snd (fold (\<lambda>key e. fst (edit key e)) keys (True, []))"

text \<open>The command of a line is the first whose name the line starts with.\<close>

datatype command = Memmap_command | Clear_command | Free_command | Time_command | Reg_command | Unknown_command | No_command

definition starts :: "string \<Rightarrow> u8 list \<Rightarrow> bool" where
  "starts name line \<longleftrightarrow> take (length name) line = map of_char name"

definition command_of :: "u8 list \<Rightarrow> command" where
  "command_of line =
     (if starts ''memmap'' line then Memmap_command
      else if starts ''clear'' line then Clear_command
      else if starts ''free'' line then Free_command
      else if starts ''time'' line then Time_command
      else if starts ''reg'' line then Reg_command
      else if line = [] then No_command
      else Unknown_command)"

fun perform :: "interrupt_cpu_status \<Rightarrow> command \<Rightarrow> 'z shell_scheme \<Rightarrow> (unit, 'z shell_scheme) outcome" where
  "perform context Memmap_command s = shown serial_print_mem_map s"
| "perform context Clear_command s = clear s"
| "perform context Free_command s = serial_print_free_ram s"
| "perform context Time_command s = print_time s"
| "perform context Reg_command s = print_cpu_status context s"
| "perform context Unknown_command s = bindO (serial_printf (''Unkown Command.'' @ [CHR 0x0A]) [] s) (\<lambda>_ s. Done () s)"
| "perform context No_command s = Done () s"

text \<open>The abstraction, and what the handler keeps of its buffer.\<close>

definition editor_of :: "'z shell_scheme \<Rightarrow> editor" where
  "editor_of s = (terminal_running s, take (unat (buffer_index s)) (line_buffer s))"

definition shell_ok :: "'z shell_scheme \<Rightarrow> bool" where
  "shell_ok s \<longleftrightarrow> length (line_buffer s) = LINE_BUFFER_SIZE
     \<and> 0x0D \<notin> set (snd (editor_of s)) \<and> (\<not> terminal_running s \<longrightarrow> buffer_index s = 0)"

section \<open>Lines\<close>

lemma take_before:
  assumes "x \<notin> set name"
  shows "take (length name) (line @ x # rest) = name \<longleftrightarrow> take (length name) line = name"
proof (cases "length name \<le> length line")
  case False
  then obtain n where n: "length name - length line = Suc n" by (metis Suc_diff_Suc not_le)
  then have "x \<in> set (take (length name) (line @ x # rest))" using False by simp
  moreover have "length (take (length name) line) < length name" using False by simp
  ultimately show ?thesis using assms by (metis less_irrefl)
qed simp

lemma line_starts_iff:
  assumes "line_buffer s = line @ 0x0D # rest" and "0x0D \<notin> set (map of_char name :: u8 list)" and "n = length name"
  shows "line_starts name n s = starts name line"
  using take_before [OF assms(2), of line rest] assms(1,3) by (simp add: line_starts_def starts_def)

lemma run_command_performs:
  assumes buf: "line_buffer s = line @ 0x0D # rest" and line: "0x0D \<notin> set line" and run: "terminal_running s \<or> line = []"
  shows "run_command context s = perform context (command_of line) s"
proof -
  note at = line_starts_iff [OF buf]
  have names: "line_starts ''memmap'' 6 s = starts ''memmap'' line" "line_starts ''clear'' 5 s = starts ''clear'' line"
    "line_starts ''free'' 4 s = starts ''free'' line" "line_starts ''time'' 4 s = starts ''time'' line"
    "line_starts ''reg'' 3 s = starts ''reg'' line"
    by (rule at; simp)+
  have "(line_buffer s ! 0 \<noteq> 0x0D) = (line \<noteq> [])"
    using buf line by (cases line) auto
  then show ?thesis using run names by (auto simp: run_command_def command_of_def)
qed

section \<open>One key\<close>

text \<open>What the echo writes.\<close>

definition echo :: "u8 \<Rightarrow> io_access list" where
  "echo key = (if key = 0x0A \<or> key = 0x0D then [PortOut COM1 0x0D, PortOut COM1 0x0A] else [PortOut COM1 key])"

lemma echo_written: "serial_writeb_unsafe_nonblocking key s = s\<lparr>io := io s @ echo key\<rparr>"
  by (simp add: serial_writeb_unsafe_nonblocking_def WRITE_REG_def outb_def access_def echo_def IO_def)

lemma key_read: "serial_readb_unsafe_nonblocking s =
    Done (port_value s (io s) COM1) (s\<lparr>io := io s @ [PortIn COM1 (port_value s (io s) COM1)]\<rparr>)"
  by (simp add: serial_readb_unsafe_nonblocking_def READ_REG_def inb_def access_def IO_def Let_def)

lemma take_update_here: "i < length xs \<Longrightarrow> take (Suc i) (xs[i := x]) = take i xs @ [x]"
  by (simp add: take_Suc_conv_app_nth)

text \<open>The three outcomes of a key, for an index inside the buffer.\<close>

lemma key_ignored:
  assumes "shell_ok s" and "edit (port_value s (io s) COM1) (editor_of s) = (e, Ignored)"
  shows "rs232_irq context s = Done () (s\<lparr>io := io s @ [PortIn COM1 (port_value s (io s) COM1)]\<rparr>) \<and> e = editor_of s"
proof -
  let ?i = "unat (buffer_index s)"
  have "take ?i (line_buffer s) = [] \<longleftrightarrow> buffer_index s = 0"
    using assms(1) by (auto simp: shell_ok_def LINE_BUFFER_SIZE_def unat_eq_zero)
  then show ?thesis
    using assms(2) by (auto simp: rs232_irq_def key_read editor_of_def split: if_splits)
qed

lemma key_echoed:
  assumes ok: "shell_ok s" and "unat (buffer_index s) < LINE_BUFFER_SIZE"
    and "edit (port_value s (io s) COM1) (editor_of s) = (e, Echoed k)"
  shows "\<exists>lb i. rs232_irq context s = Done () (s\<lparr>io := io s @ PortIn COM1 (port_value s (io s) COM1) # echo k,
      line_buffer := lb, buffer_index := i\<rparr>) \<and> length lb = LINE_BUFFER_SIZE \<and> take (unat i) lb = snd e \<and> terminal_running s
      \<and> fst e \<and> 0x0D \<notin> set (snd e)"
proof -
  let ?i = "unat (buffer_index s)" and ?key = "port_value s (io s) COM1" and ?line = "take (unat (buffer_index s)) (line_buffer s)"
  have len: "length (line_buffer s) = LINE_BUFFER_SIZE" and cr: "0x0D \<notin> set ?line"
    using ok by (simp_all add: shell_ok_def editor_of_def)
  have e: "?key \<noteq> 0x0D" "terminal_running s" "k = ?key" "?key = 0x08 \<longrightarrow> ?line \<noteq> []"
      "e = (True, if ?key = 0x08 then butlast ?line else ?line @ [?key])"
    using assms(3) by (auto simp: editor_of_def split: if_splits)
  show ?thesis
  proof (cases "?key = 0x08")
    case True
    then have nz: "buffer_index s \<noteq> 0" using e(4) by auto
    then have i: "unat (buffer_index s - 1) = ?i - 1" "0 < ?i" by (simp_all add: unat_minus_one unat_gt_0)
    have "rs232_irq context s = Done () (s\<lparr>io := io s @ PortIn COM1 ?key # echo k,
        line_buffer := (line_buffer s)[?i := 0], buffer_index := buffer_index s - 1\<rparr>)"
      using True nz e(2,3) assms(2) by (simp add: rs232_irq_def key_read set_line_char_def echo_written)
    moreover have "take (unat (buffer_index s - 1)) ((line_buffer s)[?i := 0]) = butlast ?line"
      using i assms(2) len by (simp add: butlast_take)
    moreover have "0x0D \<notin> set (butlast ?line)" using cr by (blast dest: in_set_butlastD)
    ultimately show ?thesis using True e(2,5) len
      by (intro exI [of _ "(line_buffer s)[?i := 0]"] exI [of _ "buffer_index s - 1"]) simp
  next
    case False
    have i: "unat (buffer_index s + 1) = Suc ?i"
      using assms(2) by (intro unat_inc [where n = "255"]) (simp add: word_less_nat_alt LINE_BUFFER_SIZE_def)
    have "rs232_irq context s = Done () (s\<lparr>io := io s @ PortIn COM1 ?key # echo k,
        line_buffer := (line_buffer s)[?i := ?key], buffer_index := buffer_index s + 1\<rparr>)"
      using False e(1,2,3) assms(2) by (simp add: rs232_irq_def key_read set_line_char_def echo_written)
    moreover have "take (unat (buffer_index s + 1)) ((line_buffer s)[?i := ?key]) = ?line @ [?key]"
      unfolding i using assms(2) len by (intro take_update_here) simp
    ultimately show ?thesis using False e(1,2,5) len cr
      by (intro exI [of _ "(line_buffer s)[?i := ?key]"] exI [of _ "buffer_index s + 1"]) simp
  qed
qed

lemma key_submitted:
  assumes ok: "shell_ok s" and "unat (buffer_index s) < LINE_BUFFER_SIZE"
    and "edit (port_value s (io s) COM1) (editor_of s) = (e, Submitted line)"
  shows "\<exists>lb i. rs232_irq context s =
      bindO (perform context (command_of line) (s\<lparr>io := io s @ PortIn COM1 (port_value s (io s) COM1) # echo 0x0D,
        line_buffer := lb, buffer_index := i\<rparr>)) (\<lambda>_ s. newline s)
      \<and> length lb = LINE_BUFFER_SIZE \<and> take (unat i) lb = line @ [0x0D]"
proof -
  let ?i = "unat (buffer_index s)" and ?key = "port_value s (io s) COM1" and ?line = "take (unat (buffer_index s)) (line_buffer s)"
  let ?lb = "(line_buffer s)[?i := 0x0D]"
  have len: "length (line_buffer s) = LINE_BUFFER_SIZE" and cr: "0x0D \<notin> set ?line"
    and start: "\<not> terminal_running s \<longrightarrow> buffer_index s = 0"
    using ok by (simp_all add: shell_ok_def editor_of_def)
  have e: "?key = 0x0D" "line = ?line" using assms(3) by (auto simp: editor_of_def split: if_splits)
  let ?u = "s\<lparr>io := io s @ PortIn COM1 ?key # echo 0x0D, line_buffer := ?lb, buffer_index := buffer_index s + 1\<rparr>"
  have lb: "line_buffer ?u = line @ 0x0D # drop (Suc ?i) (line_buffer s)"
    using e assms(2) len by (simp add: upd_conv_take_nth_drop)
  have "run_command context ?u = perform context (command_of line) ?u"
    using e(2) cr start by (intro run_command_performs [OF lb]) auto
  moreover have "rs232_irq context s = bindO (run_command context ?u) (\<lambda>_ s. newline s)"
    using e assms(2) by (simp add: rs232_irq_def key_read set_line_char_def echo_written Let_def)
  moreover have "unat (buffer_index s + 1) = Suc ?i"
    using assms(2) by (intro unat_inc [where n = "255"]) (simp add: word_less_nat_alt LINE_BUFFER_SIZE_def)
  ultimately show ?thesis
    using len e assms(2)
    by (intro exI [of _ ?lb] exI [of _ "buffer_index s + 1"]) (simp add: take_update_here)
qed

text \<open>The end of a line leaves an empty line in a started shell.\<close>

lemma newline_editor:
  assumes "newline s = Done () t"
  shows "editor_of t = (True, [])"
proof -
  let ?s = "s\<lparr>line_buffer := replicate (unat (buffer_index s)) 0 @ drop (unat (buffer_index s)) (line_buffer s),
    buffer_index := 0\<rparr>"
  obtain u where "serial_write_string PROMPT ?s = Done () u" and t: "t = u\<lparr>terminal_running := True\<rparr>"
    using assms by (auto simp: newline_def Let_def outcome_simps)
  then have "puts_loop serial_writeb_blocking PROMPT 0 ?s = Some (Done () u)"
    by (simp add: serial_write_string_def ended_def split: option.splits)
  then have "accessed ?s u"
    by (rule puts_loop_keeps) (auto intro: accessed_refl accessed_trans serial_writeb_accessed)
  then show ?thesis by (auto simp: accessed_def t editor_of_def)
qed

text \<open>Outside the buffer no key that is not ignored returns.\<close>

lemma key_outside:
  assumes "rs232_irq context s = Done () t" and "edit (port_value s (io s) COM1) (editor_of s) = (e, r)" and "r \<noteq> Ignored"
    and "shell_ok s"
  shows "unat (buffer_index s) < LINE_BUFFER_SIZE"
proof (rule ccontr)
  assume out: "\<not> unat (buffer_index s) < LINE_BUFFER_SIZE"
  then have "terminal_running s" "buffer_index s \<noteq> 0"
    using assms(4) by (auto simp: shell_ok_def LINE_BUFFER_SIZE_def)
  then show False
    using assms(1) out by (auto simp: rs232_irq_def key_read set_line_char_def echo_written Let_def split: if_splits)
qed

text \<open>The line after an interrupt of the serial line.\<close>

lemma interrupt_edits_line:
  assumes "shell_ok s" and "rs232_irq context s = Done () t"
  shows "editor_of t = fst (edit (port_value s (io s) COM1) (editor_of s))"
proof -
  obtain e r where er: "edit (port_value s (io s) COM1) (editor_of s) = (e, r)" by (cases "edit (port_value s (io s) COM1) (editor_of s)")
  show ?thesis
  proof (cases r)
    case Ignored
    then have "rs232_irq context s = Done () (s\<lparr>io := io s @ [PortIn COM1 (port_value s (io s) COM1)]\<rparr>) \<and> e = editor_of s"
      using key_ignored assms(1) er by blast
    then show ?thesis using assms(2) er by (auto simp: editor_of_def)
  next
    case (Echoed k)
    then have "unat (buffer_index s) < LINE_BUFFER_SIZE" using key_outside [OF assms(2) er] assms(1) by simp
    then show ?thesis
      using key_echoed [OF assms(1), of e k "context"] er Echoed assms(2) by (cases e) (auto simp: editor_of_def)
  next
    case (Submitted line)
    then have "unat (buffer_index s) < LINE_BUFFER_SIZE" using key_outside [OF assms(2) er] assms(1) by simp
    then obtain lb i where "rs232_irq context s = bindO (perform context (command_of line)
        (s\<lparr>io := io s @ PortIn COM1 (port_value s (io s) COM1) # echo 0x0D, line_buffer := lb, buffer_index := i\<rparr>)) (\<lambda>_ s. newline s)"
      using key_submitted [OF assms(1), of e line "context"] er Submitted by auto
    then obtain u where "newline u = Done () t" using assms(2) by (metis bindO_DoneE)
    moreover have "e = (True, [])" using er Submitted by (cases "editor_of s") (auto split: if_splits)
    ultimately show ?thesis using newline_editor er by simp
  qed
qed

text \<open>
  C12. The handler of the serial interrupt refines the line editor: whatever key arrives, when
  \<open>rs232_irq\<close> returns, the first \<open>buffer_index\<close> characters of the line buffer are the line after
  that key, and the shell has been started if the editor says so. In particular a character that a
  backspace leaves behind in the buffer is never part of a line again, and a submitted line ends
  in an empty one whatever its command does.
\<close>

theorem serial_shell_refines_editor:
  assumes "shell_ok s" and "rs232_irq context s = Done () t"
  shows "editor_of t = fst (edit (port_value s (io s) COM1) (editor_of s))"
  using assms by (rule interrupt_edits_line)

section \<open>A typed line\<close>

text \<open>The line delivers its keys in order: the \<open>n\<close>th read of the data register returns the \<open>n\<close>th key.\<close>

definition key_reads :: "io_access list \<Rightarrow> nat" where
  "key_reads tr = length (filter (\<lambda>e. case e of PortIn p v \<Rightarrow> p = COM1 | _ \<Rightarrow> False) tr)"

definition keys_arrive :: "u8 list \<Rightarrow> 'z devices_scheme \<Rightarrow> bool" where
  "keys_arrive keys s \<longleftrightarrow> (\<forall>tr. key_reads tr < length keys \<longrightarrow> port_value s (io s @ tr) COM1 = keys ! key_reads tr)"

lemma key_arrives: "keys_arrive (k # ks) s \<Longrightarrow> port_value s (io s) COM1 = k"
  unfolding keys_arrive_def by (drule spec [of _ "[]"]) (simp add: key_reads_def)

lemma keys_left:
  assumes "keys_arrive (k # ks) s" and "io t = io s @ PortIn COM1 k # tr" and "key_reads tr = 0" and "port_value t = port_value s"
  shows "keys_arrive ks t"
  unfolding keys_arrive_def
proof (intro allI impI)
  fix tr' assume "key_reads tr' < length ks"
  moreover have "key_reads (PortIn COM1 k # tr @ tr') = Suc (key_reads tr')" using assms(3) by (simp add: key_reads_def)
  ultimately show "port_value t (io t @ tr') COM1 = ks ! key_reads tr'"
    using assms(1,2,4) unfolding keys_arrive_def by (metis append.assoc append_Cons length_Cons not_less_eq nth_Cons_Suc)
qed

lemma echo_reads: "key_reads (echo k) = 0"
  by (simp add: key_reads_def echo_def)

lemma edit_length: "length (snd (fst (edit k e))) \<le> Suc (length (snd e))"
  by (cases e) auto

lemma index_length:
  assumes "shell_ok s"
  shows "length (snd (editor_of s)) = unat (buffer_index s)"
proof -
  have "unat (buffer_index s) < 256" using unsigned_less [of "buffer_index s", where ?'a = nat] by simp
  then show ?thesis using assms by (simp add: shell_ok_def editor_of_def LINE_BUFFER_SIZE_def)
qed

text \<open>Keys other than return only change the line and write their echo.\<close>

definition line_changed :: "'z shell_scheme \<Rightarrow> 'z shell_scheme \<Rightarrow> bool" where
  "line_changed s t \<longleftrightarrow> (\<exists>tr lb i. t = s\<lparr>io := io s @ tr, line_buffer := lb, buffer_index := i\<rparr>)"

lemma line_changed_trans: "line_changed s t \<Longrightarrow> line_changed t u \<Longrightarrow> line_changed s u"
  unfolding line_changed_def by clarsimp blast

lemma one_key:
  assumes ok: "shell_ok s" and run: "terminal_running s" and keys: "keys_arrive (key # rest) s" and "key \<noteq> 0x0D"
    and room: "length (snd (editor_of s)) < LINE_BUFFER_SIZE"
  shows "\<exists>t. rs232_irq context s = Done () t \<and> line_changed s t \<and> shell_ok t \<and> terminal_running t \<and> keys_arrive rest t
     \<and> editor_of t = fst (edit key (editor_of s))"
proof -
  have k: "port_value s (io s) COM1 = key" using keys by (rule key_arrives)
  have i: "unat (buffer_index s) < LINE_BUFFER_SIZE" using index_length [OF ok] room by simp
  obtain e r where er: "edit key (editor_of s) = (e, r)" by (cases "edit key (editor_of s)")
  show ?thesis
  proof (cases r)
    case Ignored
    let ?t = "s\<lparr>io := io s @ [PortIn COM1 key]\<rparr>"
    have "rs232_irq context s = Done () ?t \<and> e = editor_of s" using key_ignored [OF ok] k er Ignored by blast
    moreover have "keys_arrive rest ?t" by (rule keys_left [OF keys, of _ "[]"]) (simp_all add: key_reads_def)
    moreover have "line_changed s ?t"
      unfolding line_changed_def
      by (intro exI [of _ "[PortIn COM1 key]"] exI [of _ "line_buffer s"] exI [of _ "buffer_index s"]) simp
    moreover have "shell_ok ?t" "editor_of ?t = editor_of s" "terminal_running ?t"
      using ok run by (simp_all add: shell_ok_def editor_of_def)
    ultimately show ?thesis using er by auto
  next
    case (Echoed c)
    obtain lb n where t: "rs232_irq context s = Done () (s\<lparr>io := io s @ PortIn COM1 key # echo c, line_buffer := lb, buffer_index := n\<rparr>)"
      (is "_ = Done () ?t") and lb: "length lb = LINE_BUFFER_SIZE" "take (unat n) lb = snd e" "fst e" "0x0D \<notin> set (snd e)"
      using key_echoed [OF ok i, of e c "context"] k er Echoed by auto
    have "keys_arrive rest ?t" by (rule keys_left [OF keys, of _ "echo c"]) (simp_all add: echo_reads)
    moreover have "line_changed s ?t" unfolding line_changed_def by blast
    moreover have "editor_of ?t = e" "shell_ok ?t"
      using lb run by (auto simp: editor_of_def shell_ok_def prod_eq_iff)
    ultimately show ?thesis using t run er by auto
  next
    case (Submitted line)
    then show ?thesis using er assms(4) by (cases "editor_of s") (auto split: if_splits)
  qed
qed

lemma keys_edit_line:
  assumes "shell_ok s" and "terminal_running s" and "keys_arrive (keys @ rest) s" and "0x0D \<notin> set keys"
    and "length (snd (editor_of s)) + length keys \<le> LINE_BUFFER_SIZE"
  shows "\<exists>t. for_each keys (\<lambda>_. rs232_irq context) s = Done () t \<and> line_changed s t \<and> shell_ok t \<and> keys_arrive rest t
     \<and> editor_of t = fold (\<lambda>key e. fst (edit key e)) keys (editor_of s)
     \<and> length (snd (editor_of t)) \<le> length (snd (editor_of s)) + length keys"
  using assms
proof (induction keys arbitrary: s)
  case Nil
  moreover have "line_changed s s"
    unfolding line_changed_def by (intro exI [of _ "[]"] exI [of _ "line_buffer s"] exI [of _ "buffer_index s"]) simp
  ultimately show ?case by simp
next
  case (Cons key keys)
  obtain u where u: "rs232_irq context s = Done () u" "line_changed s u" "shell_ok u" "terminal_running u" "keys_arrive (keys @ rest) u"
      "editor_of u = fst (edit key (editor_of s))"
    using one_key [of s key "keys @ rest" "context"] Cons.prems by auto
  have "length (snd (editor_of u)) \<le> Suc (length (snd (editor_of s)))" using u(6) edit_length by simp
  then show ?case
    using Cons.IH [of u] Cons.prems u by (auto intro: line_changed_trans)
qed

text \<open>
  C21. A typed line runs its command: from the prompt, the keys of a line that fits the buffer and
  the return key take one interrupt each, and together they run the command that the line names
  once the backspaces are carried out, in a state that differs from the first one only in the
  line and the echo; then the shell is at the prompt again, with an empty line.
\<close>

theorem typed_line_runs_command:
  assumes "shell_ok s" and "editor_of s = (True, [])" and "keys_arrive (keys @ [0x0D]) s"
    and "0x0D \<notin> set keys" and "length keys < LINE_BUFFER_SIZE"
  shows "\<exists>u. line_changed s u
     \<and> for_each (keys @ [0x0D]) (\<lambda>_. rs232_irq context) s = bindO (perform context (command_of (typed keys)) u) (\<lambda>_ s. newline s)
     \<and> (\<forall>t. for_each (keys @ [0x0D]) (\<lambda>_. rs232_irq context) s = Done () t \<longrightarrow> editor_of t = (True, []))"
proof -
  have "terminal_running s" using assms(2) by (simp add: editor_of_def)
  then obtain t where t: "for_each keys (\<lambda>_. rs232_irq context) s = Done () t" "line_changed s t" "shell_ok t"
      "keys_arrive [0x0D] t" "editor_of t = fold (\<lambda>key e. fst (edit key e)) keys (True, [])" "length (snd (editor_of t)) < LINE_BUFFER_SIZE"
    using keys_edit_line [OF assms(1) _ assms(3,4), of "context"] assms(2,5) by auto
  have k: "port_value t (io t) COM1 = 0x0D" using t(4) by (rule key_arrives)
  have "edit 0x0D e = ((True, []), Submitted (snd e))" for e by (cases e) simp
  then have "edit 0x0D (editor_of t) = ((True, []), Submitted (typed keys))" using t(5) by (simp add: typed_def)
  moreover have "unat (buffer_index t) < LINE_BUFFER_SIZE" using index_length [OF t(3)] t(6) by simp
  ultimately obtain lb i where irq: "rs232_irq context t = bindO (perform context (command_of (typed keys))
      (t\<lparr>io := io t @ PortIn COM1 0x0D # echo 0x0D, line_buffer := lb, buffer_index := i\<rparr>)) (\<lambda>_ s. newline s)"
    using key_submitted [OF t(3), of "(True, [])" "typed keys" "context"] k by auto
  let ?u = "t\<lparr>io := io t @ PortIn COM1 0x0D # echo 0x0D, line_buffer := lb, buffer_index := i\<rparr>"
  have "line_changed t ?u" unfolding line_changed_def by blast
  then have "line_changed s ?u" using t(2) line_changed_trans by blast
  moreover have "for_each (keys @ [0x0D]) (\<lambda>_. rs232_irq context) s = rs232_irq context t"
    by (cases "rs232_irq context t") (simp_all add: for_each_append t(1))
  moreover have "editor_of w = (True, [])" if "bindO (perform context (command_of (typed keys)) ?u) (\<lambda>_ s. newline s) = Done () w" for w
    using that newline_editor by (rule bindO_DoneE)
  ultimately show ?thesis using irq by (intro exI [of _ ?u]) simp
qed

section \<open>Examples\<close>

text \<open>A started shell, and the keys \<open>rex\<close>, backspace, \<open>g\<close>, return.\<close>

definition example_keys :: "u8 list" where "example_keys = [0x72, 0x65, 0x78, 0x08, 0x67]"

definition example_shell :: shell where
  "example_shell = (descriptors.extend example_descriptors (shell.fields True (replicate 255 0) 0))
     \<lparr>io := [], port_value := (\<lambda>tr p. if p = COM1 then (example_keys @ [0x0D]) ! key_reads tr else 0x20)\<rparr>"

definition example_status :: interrupt_cpu_status where
  "example_status = \<lparr>cs_r15 = 0, cs_r14 = 0, cs_r13 = 0, cs_r12 = 0, cs_r11 = 0, cs_r10 = 0, cs_r9 = 0, cs_r8 = 0,
     cs_rbp = 0, cs_rdi = 0, cs_rsi = 0, cs_rdx = 0, cs_rcx = 0, cs_rbx = 0, cs_rax = 0, cs_vector = 0x24, cs_error_code = 0,
     cs_iret_rip = 0, cs_iret_cs = 0, cs_iret_flags = 0, cs_iret_rsp = 0, cs_iret_ss = 0\<rparr>"

lemma example_shell_fields:
  "io example_shell = []" "terminal_running example_shell" "line_buffer example_shell = replicate 255 0"
  "buffer_index example_shell = 0"
  "port_value example_shell = (\<lambda>tr p. if p = COM1 then (example_keys @ [0x0D]) ! key_reads tr else 0x20)"
  by (simp_all add: example_shell_def descriptors.defs shell.defs)

lemma example_shell_ok:
  "shell_ok example_shell" "editor_of example_shell = (True, [])" "keys_arrive (example_keys @ [0x0D]) example_shell"
  by (simp_all add: shell_ok_def editor_of_def keys_arrive_def example_shell_fields LINE_BUFFER_SIZE_def)

theorem serial_shell_refines_editor_witness:
  "\<exists>t. rs232_irq example_status example_shell = Done () t \<and> editor_of t = (True, [0x72])"
proof -
  have "port_value example_shell (io example_shell) COM1 = 0x72"
    by (simp add: example_shell_fields key_reads_def example_keys_def)
  moreover obtain t where "rs232_irq example_status example_shell = Done () t"
    using one_key [of example_shell "0x72" "tl example_keys @ [0x0D]" example_status] example_shell_ok
    by (auto simp: example_shell_fields example_keys_def LINE_BUFFER_SIZE_def)
  ultimately show ?thesis
    using serial_shell_refines_editor [OF example_shell_ok(1), of example_status t] example_shell_ok(2) by simp
qed

theorem typed_line_runs_command_witness:
  "\<exists>u. for_each (example_keys @ [0x0D]) (\<lambda>_. rs232_irq example_status) example_shell =
     bindO (perform example_status Reg_command u) (\<lambda>_ s. newline s)"
proof -
  have "typed example_keys = [0x72, 0x65, 0x67]" by (simp add: typed_def example_keys_def)
  then have "command_of (typed example_keys) = Reg_command" by (simp add: command_of_def starts_def)
  then show ?thesis
    using typed_line_runs_command [OF example_shell_ok, of example_status]
    by (auto simp: example_keys_def LINE_BUFFER_SIZE_def)
qed

end
