(* ===== verification/Ascii_Output.thy ===== *)
theory Ascii_Output
  imports Logging
begin

text \<open>
  The type of the text that reaches the console: the glyph table is read with the sign-extended
  character as its index, so only 7-bit text is safe. This theory shows which calls of \<open>printf\<close>
  produce such text.
\<close>

section \<open>7-bit text\<close>

lemma ascii_code: "(of_char c :: u8) < 128 \<longleftrightarrow> (of_char c :: nat) < 128"
proof -
  have "(of_char c :: nat) < 256" by simp
  then have "unat (of_nat (of_char c) :: u8) = of_char c" by (intro unat_of_nat_less) simp
  then show ?thesis by (simp add: word_less_nat_alt of_nat_of_char)
qed

lemma ascii_simps [simp]:
  "ascii []" "ascii (c # cs) \<longleftrightarrow> (of_char c :: nat) < 128 \<and> ascii cs" "ascii (xs @ ys) \<longleftrightarrow> ascii xs \<and> ascii ys"
  "ascii (rev xs) \<longleftrightarrow> ascii xs" "ascii (replicate n c) \<longleftrightarrow> n = 0 \<or> (of_char c :: nat) < 128"
  by (auto simp: ascii_def ascii_code)

lemma ascii_take: "ascii xs \<Longrightarrow> ascii (take n xs)"
  by (auto simp: ascii_def dest: in_set_takeD)

lemma ascii_takeWhile: "ascii xs \<Longrightarrow> ascii (takeWhile P xs)"
  by (auto simp: ascii_def dest: set_takeWhileD)

lemma ascii_tl: "ascii xs \<Longrightarrow> ascii (tl xs)"
  by (cases xs) simp_all

lemmas ascii_sub = ascii_take ascii_takeWhile ascii_tl

lemma ascii_spaces [simp]: "ascii (spaces n)"
  by (simp add: spaces_def)

lemma ascii_digit: "d < 16 \<Longrightarrow> (of_char (digit_char up d) :: nat) < 128"
  by (simp add: digit_char_def take_bit_nat_eq_self)

lemma ascii_digits:
  assumes "0 < base" and "base \<le> 16"
  shows "ascii (digits up base v len)"
  using assms
proof (induction up base v len rule: digits.induct)
  case (1 up base v len)
  have "v mod base < base" using 1(2) by (rule word_mod_less_divisor)
  then have "v mod base < 16" using 1(3) by (rule less_le_trans)
  then have "unat (v mod base) < 16" by (simp add: word_less_nat_alt)
  then show ?case using 1 by (subst digits.simps) (simp add: ascii_digit)
qed

section \<open>The conversions\<close>

lemma ascii_out_rev: "ascii buf \<Longrightarrow> ascii (out_rev buf width flags)"
  by (simp add: out_rev_def Let_def)

lemma ascii_push: "ascii buf \<Longrightarrow> (of_char c :: nat) < 128 \<Longrightarrow> ascii (push_char c buf)"
  by (simp add: push_char_def)

lemma ascii_pad: "ascii buf \<Longrightarrow> ascii (pad_zeros bound buf)"
  by (simp add: pad_zeros_def)

lemma ascii_ntoa_format: "ascii buf \<Longrightarrow> ascii (ntoa_format buf negative base prec width flags)"
  unfolding ntoa_format_def Let_def
  by (rule ascii_out_rev) (simp add: ascii_push ascii_pad ascii_take)

lemma ascii_ntoa_long:
  assumes "0 < base" and "base \<le> 16"
  shows "ascii (ntoa_long v neg base prec width flags)" and "ascii (ntoa_long_long v neg base prec width flags)"
  using assms by (simp_all add: ntoa_long_def ntoa_long_long_def Let_def ascii_ntoa_format ascii_digits)

lemma ascii_format_int: "ascii (format_int c flags width precision v)"
  by (simp add: format_int_def Let_def ascii_ntoa_long)

lemma ascii_format_ptr: "ascii (format_ptr flags precision v)"
  by (simp add: format_ptr_def ascii_ntoa_long)

lemma ascii_format_str: "ascii p \<Longrightarrow> ascii (format_str flags width precision p)"
  by (simp add: format_str_def Let_def ascii_take)

section \<open>The whole text\<close>

text \<open>Arguments that print as 7-bit text: the strings are 7-bit text, the numbers may be anything.\<close>

fun ascii_arg :: "fmt_arg \<Rightarrow> bool" where
  "ascii_arg (Num v) = True"
| "ascii_arg (Str p) = ascii p"

text \<open>
  The characters between \<open>%\<close> and the specifier of a conversion, and a 7-bit format none of whose
  conversions is \<open>%c\<close>.
\<close>

definition modifier :: "char \<Rightarrow> bool" where
  "modifier c \<longleftrightarrow> c \<in> set ''0-+ #*.lhjz'' \<or> is_digit c"

fun no_char_conversion :: "string \<Rightarrow> bool" where
  "no_char_conversion [] = True"
| "no_char_conversion (c # fmt) \<longleftrightarrow>
     (c = CHR ''%'' \<longrightarrow> peek (dropWhile modifier fmt) \<noteq> CHR ''c'') \<and> no_char_conversion fmt"

definition plain_format :: "string \<Rightarrow> bool" where
  "plain_format fmt \<longleftrightarrow> ascii fmt \<and> no_char_conversion fmt"

lemma plain_text: "ascii fmt \<Longrightarrow> CHR ''%'' \<notin> set fmt \<Longrightarrow> plain_format fmt"
proof -
  have "CHR ''%'' \<notin> set fmt \<Longrightarrow> no_char_conversion fmt" by (induction fmt) auto
  then show "ascii fmt \<Longrightarrow> CHR ''%'' \<notin> set fmt \<Longrightarrow> plain_format fmt" by (simp add: plain_format_def)
qed

lemma no_char_append: "CHR ''%'' \<notin> set pre \<Longrightarrow> no_char_conversion (pre @ fmt) = no_char_conversion fmt"
  by (induction pre) auto

text \<open>A stage of the parser skips modifiers only.\<close>

definition skips :: "string \<Rightarrow> string \<Rightarrow> bool" where
  "skips fmt fmt' \<longleftrightarrow> (\<exists>ms. fmt = ms @ fmt' \<and> (\<forall>c \<in> set ms. modifier c))"

lemma skips_refl: "skips fmt fmt"
  by (simp add: skips_def)

lemma skips_trans: "skips a b \<Longrightarrow> skips b c \<Longrightarrow> skips a c"
  unfolding skips_def by fastforce

lemma skips_Cons: "modifier c \<Longrightarrow> skips fmt fmt' \<Longrightarrow> skips (c # fmt) fmt'"
  unfolding skips_def by (metis append_Cons set_ConsD)

lemma skips_tl: "modifier (peek fmt) \<Longrightarrow> skips fmt (tl fmt)"
  by (cases fmt) (auto simp: peek_def skips_refl intro: skips_Cons)

lemma skips_plain:
  assumes "skips fmt fmt'" and "plain_format fmt"
  shows "plain_format fmt'"
proof -
  obtain ms where ms: "fmt = ms @ fmt'" using assms(1) by (auto simp: skips_def)
  have "no_char_conversion (ms @ fmt') \<Longrightarrow> no_char_conversion fmt'" by (induction ms) simp_all
  then show ?thesis using assms(2) ms by (simp add: plain_format_def)
qed

lemma skips_dropWhile: "skips fmt fmt' \<Longrightarrow> dropWhile modifier fmt = dropWhile modifier fmt'"
  unfolding skips_def by (auto simp: dropWhile_append2)

lemma skips_atoi: "atoi i fmt = (w, fmt') \<Longrightarrow> skips fmt fmt'"
  by (induction i fmt rule: atoi.induct) (auto simp: skips_refl modifier_def intro: skips_Cons split: if_splits)

lemma skips_flags: "parse_flags f fmt = (f', fmt') \<Longrightarrow> skips fmt fmt'"
  by (induction f fmt rule: parse_flags.induct) (auto simp: skips_refl modifier_def intro: skips_Cons split: if_splits)

lemma args_num: "va_num args = Some (v, args') \<Longrightarrow> set args' \<subseteq> set args"
  by (cases args rule: va_num.cases) auto

lemma args_str: "va_str args = Some (p, args') \<Longrightarrow> \<forall>a \<in> set args. ascii_arg a \<Longrightarrow> ascii p \<and> (\<forall>a \<in> set args'. ascii_arg a)"
  by (cases args rule: va_str.cases) (auto simp: ascii_takeWhile)

lemma skips_width:
  "parse_width f fmt args = Some (f', w, fmt', args') \<Longrightarrow> skips fmt fmt' \<and> set args' \<subseteq> set args"
  by (auto simp: parse_width_def Let_def modifier_def skips_refl intro: skips_tl split: if_splits option.splits prod.splits
      dest: skips_atoi args_num)

lemma skips_precision:
  assumes "parse_precision f fmt args = Some (f', p, fmt', args')"
  shows "skips fmt fmt' \<and> set args' \<subseteq> set args"
proof (cases "peek fmt = CHR ''.''")
  case True
  then have "skips fmt (tl fmt)" by (intro skips_tl) (simp add: modifier_def)
  moreover have "skips (tl fmt) fmt' \<and> set args' \<subseteq> set args"
    using assms True by (auto simp: parse_precision_def Let_def modifier_def skips_refl intro: skips_tl
        split: if_splits option.splits prod.splits dest: skips_atoi args_num)
  ultimately show ?thesis using skips_trans by blast
qed (use assms in \<open>simp add: parse_precision_def skips_refl\<close>)

lemma skips_length: "parse_length f fmt = (f', fmt') \<Longrightarrow> skips fmt fmt'"
  by (auto simp: parse_length_def Let_def modifier_def skips_refl intro: skips_tl skips_trans [OF skips_tl skips_tl] split: if_splits)

lemma convert_ascii:
  assumes "convert fmt args = Some (txt, fmt', args')" and "plain_format fmt"
    and "peek (dropWhile modifier fmt) \<noteq> CHR ''c''" and "\<forall>a \<in> set args. ascii_arg a"
  shows "ascii txt \<and> plain_format fmt' \<and> (\<forall>a \<in> set args'. ascii_arg a)"
proof -
  obtain f1 fmt1 where 1: "parse_flags no_flags fmt = (f1, fmt1)" by (cases "parse_flags no_flags fmt")
  obtain f2 w fmt2 args2 where 2: "parse_width f1 fmt1 args = Some (f2, w, fmt2, args2)"
    using assms(1) 1 by (auto simp: convert_def split: option.splits)
  obtain f3 p fmt3 args3 where 3: "parse_precision f2 fmt2 args2 = Some (f3, p, fmt3, args3)"
    using assms(1) 1 2 by (auto simp: convert_def split: option.splits)
  obtain f4 fmt4 where 4: "parse_length f3 fmt3 = (f4, fmt4)" by (cases "parse_length f3 fmt3")
  have skips: "skips fmt fmt4"
    by (rule skips_trans [OF skips_flags [OF 1] skips_trans [OF skips_width [OF 2, THEN conjunct1]
        skips_trans [OF skips_precision [OF 3, THEN conjunct1] skips_length [OF 4]]]])
  have args3: "\<forall>a \<in> set args3. ascii_arg a" using skips_width [OF 2] skips_precision [OF 3] assms(4) by auto
  obtain c fmt5 where 5: "fmt4 = c # fmt5" using assms(1) 1 2 3 4 by (cases fmt4) (auto simp: convert_def)
  have "plain_format fmt5" "(of_char c :: nat) < 128" using skips_plain [OF skips assms(2)] 5 by (auto simp: plain_format_def)
  moreover have "c \<noteq> CHR ''c''"
    using skips_dropWhile [OF skips] assms(3) 5 by (auto simp: peek_def modifier_def is_digit_def)
  ultimately show ?thesis
    using assms(1) 1 2 3 4 5 args3
    by (auto simp: convert_def ascii_format_int ascii_format_ptr split: if_splits dest: args_num args_str intro!: ascii_format_str)
qed

lemma vsn_ascii:
  "vsn fmt args = Some str \<Longrightarrow> plain_format fmt \<Longrightarrow> \<forall>a \<in> set args. ascii_arg a \<Longrightarrow> ascii str"
proof (induction fmt args arbitrary: str rule: vsn.induct)
  case (1 args)
  then show ?case by simp
next
  case (2 c fmt args)
  show ?case
  proof (cases "c = CHR ''%''")
    case False
    then obtain t where "vsn fmt args = Some t" "str = c # t" using 2(3) by auto
    then show ?thesis using 2(1) [OF False] 2(4,5) by (auto simp: plain_format_def)
  next
    case True
    then obtain t fmt' args' t' where c: "convert fmt args = Some (t, fmt', args')" "vsn fmt' args' = Some t'" "str = t @ t'"
      using 2(3) by (auto split: option.splits)
    have "plain_format fmt" "peek (dropWhile modifier fmt) \<noteq> CHR ''c''" using 2(4) True by (simp_all add: plain_format_def)
    then have "ascii t" "plain_format fmt'" "\<forall>a \<in> set args'. ascii_arg a" using convert_ascii [OF c(1)] 2(5) by auto
    then show ?thesis using 2(2) [OF _ c(1)] True c by auto
  qed
qed

section \<open>Properties\<close>



end
