(* ===== verification/Handlers.thy ===== *)
theory Handlers
  imports Shell Ascii_Output
begin

text \<open>
  The dispatch of exceptions and interrupts, \<open>interupt/handler.c\<close>: the acknowledgement, the reports
  on the console, and the three interrupts that do work. \<open>serve_interrupt\<close> is the whole interrupt as
  the stub in \<open>interupt/isr.asm\<close> runs it, with interrupts disabled.
\<close>

section \<open>Reports\<close>

definition print_lines :: "(string \<times> fmt_arg list) list \<Rightarrow> 'z console_scheme \<Rightarrow> (unit, 'z console_scheme) outcome" where
  "print_lines ls s = for_each ls (\<lambda>(fmt, args) s. bindO (printf fmt args s) (\<lambda>_ s. Done () s)) s"

definition vector_line :: "interrupt_cpu_status \<Rightarrow> string \<times> fmt_arg list" where
  "vector_line c = (''Vector: %llu  Error Code: %016llx'' @ [CHR 0x0A] @ ''---'' @ [CHR 0x0A],
     [Num (cs_vector c), Num (cs_error_code c)])"

definition print_cpu_status_interrupt :: "interrupt_cpu_status \<Rightarrow> 'z console_scheme \<Rightarrow> (unit, 'z console_scheme) outcome" where
  "print_cpu_status_interrupt context = print_lines (vector_line context # register_lines context)"

definition hit_line :: "string \<Rightarrow> string" where
  "hit_line what = ''Hit '' @ what @ '': '' @ [CHR 0x27] @ ''%s (%d, 0x%x)'' @ [CHR 0x27]"

definition unimplemented_fault ::
  "string \<Rightarrow> interrupt_cpu_status \<Rightarrow> 'z logger_scheme \<Rightarrow> (unit, 'z logger_scheme) outcome" where
  "unimplemented_fault msg context s =
     bindO (put_log (hit_line ''fault'') [Str msg, Num (cs_vector context), Num (cs_vector context)] s) (\<lambda>_ s.
     print_cpu_status_interrupt context s)"

definition unimplemented_trap ::
  "string \<Rightarrow> interrupt_cpu_status \<Rightarrow> 'z logger_scheme \<Rightarrow> (unit, 'z logger_scheme) outcome" where
  "unimplemented_trap msg context s =
     put_log (hit_line ''trap'') [Str msg, Num (cs_vector context), Num (cs_vector context)] s"

definition unimplemented_abort ::
  "string \<Rightarrow> interrupt_cpu_status \<Rightarrow> 'z logger_scheme \<Rightarrow> (unit, 'z logger_scheme) outcome" where
  "unimplemented_abort msg context s =
     bindO (print_cpu_status_interrupt context s) (\<lambda>_ s. run_panic msg s)"

section \<open>Dispatch\<close>

text \<open>The cases of the \<open>switch\<close>.\<close>

datatype vector_case =
    Fault_case string
  | Fault_then_halt string
  | Fault_print_halt string
  | Trap_case string
  | Abort_case string
  | Pit_case
  | Serial_case
  | Apic_timer_case

definition vector_cases :: "(u64 \<times> vector_case) list" where
  "vector_cases =
     [(0x0, Fault_case ''Division Error (#DE)''),
      (0x1, Trap_case ''Debug (#DB)''),
      (0x2, Fault_case ''Non-maskable Interrupt''),
      (0x3, Trap_case ''Breakpoint (#BP)''),
      (0x4, Trap_case ''Overflow (#OF)''),
      (0x5, Fault_case ''Bound Range Exceeded (#BR)''),
      (0x6, Fault_then_halt ''Invalid Opcode (#UD)''),
      (0x7, Fault_case ''Device Not Available (#NM)''),
      (0x8, Abort_case ''Double Fault (#DF)''),
      (0x9, Fault_case ''Coprocessor Segment Overrun''),
      (0xA, Fault_case ''Invalid TSS (#TS)''),
      (0xB, Fault_case ''Segment Not Present (#NP)''),
      (0xC, Fault_case ''Stack-Segment Fault (#SS)''),
      (0xD, Fault_print_halt ''General Protection Fault (#GP)''),
      (0xE, Fault_then_halt ''Page Fault (#PF)''),
      (0xF, Fault_case ''Reserved (0xF)''),
      (0x10, Fault_case ''x86 Floating-Point Exception (#MF)''),
      (0x11, Fault_case ''Alignment Check (#AC)''),
      (0x12, Abort_case ''Machine Check (#MC)''),
      (0x13, Fault_case ''SIMD Floating-Point Exception (#XM/#XF)''),
      (0x14, Fault_case ''Virtualization Exception (#VE)''),
      (0x15, Fault_case ''Control Protection Exception (#CP)''),
      (0x16, Fault_case ''Reserved''), (0x17, Fault_case ''Reserved''), (0x18, Fault_case ''Reserved''),
      (0x19, Fault_case ''Reserved''), (0x1A, Fault_case ''Reserved''), (0x1B, Fault_case ''Reserved''),
      (0x1C, Fault_case ''Hypervisor Injection Exception (#HV)''),
      (0x1D, Fault_case ''VMM Communication Exception (#VC)''),
      (0x1E, Fault_case ''Security Exception (#SX)''),
      (0x1F, Fault_case ''Reserved''),
      (0x20, Pit_case),
      (0x24, Serial_case),
      (0x70, Fault_case ''Syscall''),
      (0xf0, Fault_case ''APIC Spurious Vector''),
      (0xf1, Apic_timer_case),
      (0xf2, Abort_case ''APIC Thermal Shutdown''),
      (0xf3, Fault_case ''APIC Performance Counter''),
      (0xf4, Fault_case ''APIC LINT''), (0xf5, Fault_case ''APIC LINT''),
      (0xf6, Abort_case ''APIC Fatal Error''),
      (0xff, Abort_case ''Unhandled NMI'')]"

fun run_case :: "vector_case option \<Rightarrow> interrupt_cpu_status \<Rightarrow> 'z shell_scheme \<Rightarrow> (unit, 'z shell_scheme) outcome" where
  "run_case (Some (Fault_case msg)) c s = unimplemented_fault msg c s"
| "run_case (Some (Fault_then_halt msg)) c s = bindO (unimplemented_fault msg c s) (\<lambda>_ s. hcf s)"
| "run_case (Some (Fault_print_halt msg)) c s =
     bindO (unimplemented_fault msg c s) (\<lambda>_ s. bindO (print_cpu_status_interrupt c s) (\<lambda>_ s. hcf s))"
| "run_case (Some (Trap_case msg)) c s = unimplemented_trap msg c s"
| "run_case (Some (Abort_case msg)) c s = unimplemented_abort msg c s"
| "run_case (Some Pit_case) c s = Done () (pit_irq s)"
| "run_case (Some Serial_case) c s = rs232_irq c s"
| "run_case (Some Apic_timer_case) c s = Done () (apic_timer_irq s)"
| "run_case None c s = bindO (unimplemented_fault ''Unknown Exception'' c s) (\<lambda>_ s. print_cpu_status_interrupt c s)"

text \<open>The end of interrupt goes to the local APIC for vectors above 0xf0, to the legacy controller otherwise.\<close>

definition acknowledge :: "u64 \<Rightarrow> 'z lapic_scheme \<Rightarrow> 'z lapic_scheme" where
  "acknowledge vector s = (if vector > 0xf0 then send_eio s else outb 0x20 0x20 s)"

definition exception_handler :: "interrupt_cpu_status \<Rightarrow> 'z shell_scheme \<Rightarrow> (unit, 'z shell_scheme) outcome" where
  "exception_handler context s =
     run_case (map_of vector_cases (cs_vector context)) context (acknowledge (cs_vector context) s)"

text \<open>
  The interrupt as the machine takes it: the gate clears the interrupt flag, the stub
  \<open>exception_handler_asm\<close> calls the handler with the registers it has saved, and \<open>iretq\<close> sets the
  flag again. No handler sets it, so no timer interrupts one.
\<close>

definition interrupts_off :: "'z devices_scheme \<Rightarrow> 'z devices_scheme" where
  "interrupts_off s = s\<lparr>timer_irqs := (\<lambda>_. (0, 0))\<rparr>"

definition serve_interrupt :: "interrupt_cpu_status \<Rightarrow> 'z shell_scheme \<Rightarrow> (unit, 'z shell_scheme) outcome" where
  "serve_interrupt context s =
     (case exception_handler context (interrupts_off s) of
        Done u t \<Rightarrow> Done u (t\<lparr>timer_irqs := timer_irqs s\<rparr>)
      | Stop r t \<Rightarrow> Stop r t)"

section \<open>The reports return\<close>

lemmas plain_defs = plain_format_def no_char_append peek_def modifier_def is_digit_def

text \<open>A call of \<open>printf\<close> whose arguments fit its format and are 7-bit text.\<close>

definition prints :: "string \<Rightarrow> fmt_arg list \<Rightarrow> bool" where
  "prints fmt args \<longleftrightarrow> vsn fmt args \<noteq> None"

definition good_line :: "string \<times> fmt_arg list \<Rightarrow> bool" where
  "good_line l \<longleftrightarrow> plain_format (fst l) \<and> (\<forall>a \<in> set (snd l). ascii_arg a) \<and> prints (fst l) (snd l)"

lemma prints_text: "CHR ''%'' \<notin> set fmt \<Longrightarrow> prints rest args \<Longrightarrow> prints (fmt @ rest) args"
  by (auto simp: prints_def printf_verbatim)

lemma prints_end: "CHR ''%'' \<notin> set fmt \<Longrightarrow> prints fmt args"
  using prints_text [of fmt "[]" args] by (simp add: prints_def)

lemma prints_number:
  "prints rest args \<Longrightarrow> prints (''%016llx'' @ rest) (Num v # args)"
  "prints rest args \<Longrightarrow> prints (''%llu'' @ rest) (Num v # args)"
  by (auto simp: prints_def conversion_defs Let_def)

lemma two_registers_good:
  assumes "ascii a" "ascii b" "CHR ''%'' \<notin> set a" "CHR ''%'' \<notin> set b"
  shows "good_line (two_registers a b, [Num v, Num w])"
proof -
  have "prints (''%016llx'' @ [CHR 0x0A]) [Num w]" by (rule prints_number) (simp add: prints_end)
  then have "prints ((''  '' @ b) @ ''%016llx'' @ [CHR 0x0A]) [Num w]"
    by (rule prints_text [rotated]) (use assms(4) in simp)
  then have "prints (''%016llx'' @ (''  '' @ b) @ ''%016llx'' @ [CHR 0x0A]) [Num v, Num w]" by (rule prints_number)
  then have "prints (a @ ''%016llx'' @ (''  '' @ b) @ ''%016llx'' @ [CHR 0x0A]) [Num v, Num w]"
    by (rule prints_text [rotated]) (rule assms(3))
  then show ?thesis using assms by (simp add: good_line_def two_registers_def plain_defs)
qed

lemma one_register_good:
  assumes "ascii a" "CHR ''%'' \<notin> set a"
  shows "good_line (a @ ''%016llx'' @ [CHR 0x0A], [Num v])"
proof -
  have "prints (''%016llx'' @ [CHR 0x0A]) [Num v]" by (rule prints_number) (simp add: prints_end)
  then have "prints (a @ ''%016llx'' @ [CHR 0x0A]) [Num v]" by (rule prints_text [OF assms(2)])
  then show ?thesis using assms by (simp add: good_line_def plain_defs)
qed

lemma register_lines_good: "\<forall>l \<in> set (register_lines c). good_line l"
  using one_register_good [of "''RBP: ''" "cs_rbp c"] one_register_good [of "''RFLAGS: ''" "cs_iret_flags c"]
  by (simp add: register_lines_def two_registers_good)

lemma vector_line_good: "good_line (vector_line c)"
proof -
  have "prints (''%016llx'' @ [CHR 0x0A] @ ''---'' @ [CHR 0x0A]) [Num (cs_error_code c)]"
    by (rule prints_number) (simp add: prints_end)
  then have "prints (''  Error Code: '' @ ''%016llx'' @ [CHR 0x0A] @ ''---'' @ [CHR 0x0A]) [Num (cs_error_code c)]"
    by (rule prints_text [rotated]) simp
  then have "prints (''%llu'' @ ''  Error Code: '' @ ''%016llx'' @ [CHR 0x0A] @ ''---'' @ [CHR 0x0A])
      [Num (cs_vector c), Num (cs_error_code c)]" by (rule prints_number)
  then have "prints (''Vector: '' @ ''%llu'' @ ''  Error Code: '' @ ''%016llx'' @ [CHR 0x0A] @ ''---'' @ [CHR 0x0A])
      [Num (cs_vector c), Num (cs_error_code c)]"
    by (rule prints_text [rotated]) simp
  then show ?thesis by (simp add: good_line_def vector_line_def plain_defs)
qed

lemma hit_line_good:
  assumes "ascii msg" "ascii what" "CHR ''%'' \<notin> set what"
  shows "good_line (hit_line what, [Str msg, Num v, Num v])"
proof -
  have "prints (''%s (%d, 0x%x)'' @ [CHR 0x27]) [Str msg, Num v, Num v]"
    by (simp add: prints_def conversion_defs Let_def)
  then have "prints ((''Hit '' @ what @ '': '' @ [CHR 0x27]) @ ''%s (%d, 0x%x)'' @ [CHR 0x27]) [Str msg, Num v, Num v]"
    by (rule prints_text [rotated]) (use assms(3) in simp)
  then show ?thesis using assms by (simp add: good_line_def hit_line_def plain_defs)
qed

lemma good_line_text: "good_line (fmt, args) \<Longrightarrow> \<exists>str. vsn fmt args = Some str \<and> ascii str"
  unfolding good_line_def prints_def using vsn_ascii by fastforce

lemma print_lines_done:
  "always_ready s \<Longrightarrow> \<forall>l \<in> set ls. good_line l \<Longrightarrow> \<exists>t. print_lines ls s = Done () t \<and> quiet s t \<and> always_ready t"
proof (induction ls arbitrary: s)
  case Nil
  moreover have "quiet s s" by (rule quiet_moved [OF console_moved_refl])
  ultimately show ?case by (simp add: print_lines_def)
next
  case (Cons l ls)
  obtain fmt args where l: "l = (fmt, args)" by (cases l)
  then obtain str where "vsn fmt args = Some str" "ascii str" using Cons.prems good_line_text [of fmt args] by auto
  then obtain r u where u: "printf fmt args s = Done r u" "quiet s u" "always_ready u"
    using vprintf_ready [OF Cons.prems(1), of fmt args] unfolding printf_def vprintf_def by blast
  then obtain t where "print_lines ls u = Done () t" "quiet u t" "always_ready t" using Cons by auto
  then show ?case using u l quiet_trans by (auto simp: print_lines_def)
qed

lemma put_log_done:
  assumes "always_ready s" and "good_line (fmt, args)"
  shows "\<exists>t. put_log fmt args s = Done () t \<and> quiet s t \<and> always_ready t"
proof -
  let ?s = "set_text_colour PLAIN_TEXT_COLOUR s"
  obtain str where str: "vsn fmt args = Some str" "ascii str" using good_line_text [OF assms(2)] by blast
  have "always_ready ?s" using quiet_ready [OF quiet_colour assms(1)] .
  then obtain a where a: "k_puts ''[LOG] Kernel: '' ?s = Done () a" "quiet ?s a" "always_ready a"
    using k_puts_ready [of ?s "''[LOG] Kernel: ''"] by (auto simp: no_nul_def)
  obtain r b where b: "vprintf fmt args a = Done r b" "quiet a b" "always_ready b" using vprintf_ready [OF a(3) str] by blast
  obtain c where "crlf b = Done () c" "quiet b c" "always_ready c"
    using k_puts_ready [OF b(3), of "[CHR 0x0D, CHR 0x0A]"] by (auto simp: crlf_def no_nul_def)
  then have "quiet s c" using a(2) b(2) quiet_colour [of s] quiet_trans by blast
  then show ?thesis using a b \<open>crlf b = Done () c\<close> \<open>always_ready c\<close> by (simp add: put_log_def)
qed

lemma print_status_done:
  "always_ready s \<Longrightarrow> \<exists>t. print_cpu_status_interrupt c s = Done () t \<and> quiet s t \<and> always_ready t"
  unfolding print_cpu_status_interrupt_def
  by (rule print_lines_done) (simp_all add: vector_line_good register_lines_good)

lemma unimplemented_fault_done:
  assumes "always_ready s" and "ascii msg"
  shows "\<exists>t. unimplemented_fault msg c s = Done () t \<and> quiet s t \<and> always_ready t"
proof -
  have "good_line (hit_line ''fault'', [Str msg, Num (cs_vector c), Num (cs_vector c)])"
    using assms(2) by (rule hit_line_good) simp_all
  then obtain u where u: "put_log (hit_line ''fault'') [Str msg, Num (cs_vector c), Num (cs_vector c)] s = Done () u" "quiet s u" "always_ready u"
    using put_log_done [OF assms(1)] by blast
  then show ?thesis using print_status_done [OF u(3), of c] by (auto simp: unimplemented_fault_def intro: quiet_trans)
qed

lemma unimplemented_trap_done:
  assumes "always_ready s" and "ascii msg"
  shows "\<exists>t. unimplemented_trap msg c s = Done () t \<and> quiet s t \<and> always_ready t"
proof -
  have "good_line (hit_line ''trap'', [Str msg, Num (cs_vector c), Num (cs_vector c)])"
    using assms(2) by (rule hit_line_good) simp_all
  then show ?thesis using put_log_done [OF assms(1)] by (simp add: unimplemented_trap_def)
qed

section \<open>A panic with interrupts off\<close>

text \<open>No sleep ends while no timer interrupts.\<close>

definition ticks_stopped :: "'z devices_scheme \<Rightarrow> bool" where
  "ticks_stopped s \<longleftrightarrow> (\<forall>tr. timer_irqs s tr = (0, 0))"

lemma ticks_stopped_off [simp]: "ticks_stopped (interrupts_off s)"
  by (simp add: ticks_stopped_def interrupts_off_def)

lemma apic_sleep_stuck:
  assumes "ticks_stopped s" and "0 < ms" and "unat (apic_ticks s) + unat ms < 2 ^ 64"
  shows "apic_sleep_ms ms s = Stop Hang s"
  using apic_sleep_returns [of ms s 0] assms by (simp add: ticks_stopped_def)

lemma pit_sleep_stuck:
  assumes "ticks_stopped s" and "timer_goal_frequency s = 1000" and "1 < ms" and "unat ms * 1000 < 2 ^ 32"
    and "unat (pit_ticks s) + unat ms < 2 ^ 64"
  shows "\<exists>t. pit_sleep_ms ms s = Stop Hang t"
proof -
  obtain u where u: "set_pit_frequency 1000 s = Done () u" "pit_ticks u = pit_ticks s" "timer_irqs u = timer_irqs s"
      "timer_goal_frequency u = timer_goal_frequency s"
    by (simp add: set_pit_frequency_def Let_def outb_def access_def)
  let ?stop = "pit_ticks s + ucast ms - 1"
  have ms: "1 < unat ms" using assms(3) by (simp add: word_less_nat_alt)
  have "unat (pit_ticks s + ucast ms) = unat (pit_ticks s) + unat ms" using assms(5) by (simp add: unat_add_less)
  moreover from this have "pit_ticks s + ucast ms \<noteq> 0" using ms by (metis add_is_0 not_one_less_zero unat_0)
  ultimately have "unat ?stop = unat (pit_ticks s) + unat ms - 1" by (simp add: unat_minus_one)
  then have later: "pit_ticks s < ?stop" using ms by (simp add: word_less_nat_alt)
  have "wait_ticks get_pit_ticks (ucast ms) (pit_ticks s) ?stop u = None"
  proof (cases "wait_ticks get_pit_ticks (ucast ms) (pit_ticks s) ?stop u")
    case (Some t)
    then have "?stop \<le> get_pit_ticks u"
      by (rule pit.wait_stuck) (use assms(1) u in \<open>simp_all add: get_pit_ticks_def ticks_stopped_def\<close>)
    then show ?thesis using later u(2) by (simp add: get_pit_ticks_def)
  qed
  then show ?thesis
    using u ms_in_ticks [OF refl assms(4)] assms(2) by (simp add: pit_sleep_ms_def Let_def get_pit_ticks_def finished_def)
qed

lemma accessed_stopped: "accessed s t \<Longrightarrow> ticks_stopped s \<Longrightarrow> ticks_stopped t"
  by (auto simp: accessed_def ticks_stopped_def)

lemma panic_beep_stuck:
  assumes "ticks_stopped s" and "timer_goal_frequency s = 1000" and "unat (clock s) + 200 < 2 ^ 64"
  shows "\<exists>t. panic_beep s = Stop Hang t"
proof -
  obtain a where a: "play_sound 400 s = Done () a" "accessed s a" using play_sound_done [of 400 s] by auto
  then have at: "ticks_stopped a" "timer_goal_frequency a = 1000" "clock a = clock s" "global_state a = global_state s"
    using assms accessed_stopped accessed_timers by (auto simp: accessed_def clock_def get_global_state_def)
  have "\<exists>t. (if get_global_state a APIC_INITIALIZED = 0xf0 then apic_sleep_ms 200 a else pit_sleep_ms 200 a) = Stop Hang t"
    using apic_sleep_stuck [OF at(1), of 200] pit_sleep_stuck [OF at(1,2), of 200] at(3) assms(3)
    by (simp add: clock_def split: if_splits)
  then show ?thesis
    using a(1) by (auto simp: panic_beep_def PANIC_SOUND_FREQUENCY_def PANIC_SOUND_INTERVAL_def split: if_splits)
qed

text \<open>The panic prints its message; then its first beep never ends, if the timer is set up.\<close>

lemma run_panic_masked:
  assumes "panics s = 0" and "always_ready s" and "ticks_stopped s" and "timer_goal_frequency s = 1000"
    and "unat (clock s) + 200 < 2 ^ 64" and "ascii msg" and "no_nul msg"
  shows "\<exists>t. run_panic msg s = Stop (if get_global_state s PIT_INITIALIZED = 0 then Halted else Hang) t"
proof -
  let ?s = "s\<lparr>panics := 1\<rparr>"
  have "always_ready ?s" using assms(2) by (simp add: always_ready_def)
  moreover have "ascii (''Unrecoverable error: '' @ msg @ '' Halt.'')" using assms(6) by (auto simp: ascii_def)
  ultimately obtain u where u: "put_err ''Unrecoverable error: %s Halt.'' [Str msg] ?s = Done () u" "quiet ?s u"
    using tagged_line_ready [OF _ panic_text [OF assms(7)], of ?s "''ERR''" "''] Kernel: ''" ERR_TEXT_COLOUR]
    unfolding put_err_def by (auto simp: no_nul_def ascii_def)
  have f: "timer_irqs u = timer_irqs s" "timer_goal_frequency u = timer_goal_frequency s" "clock u = clock s"
    "global_state u = global_state s"
    using quiet_fields [OF u(2)] by (simp_all add: clock_def get_global_state_def)
  then have "\<exists>t. panic_beep u = Stop Hang t"
    using assms(3-5) by (intro panic_beep_stuck) (simp_all add: ticks_stopped_def)
  then obtain v where "panic_beep u = Stop Hang v" ..
  then show ?thesis
    using u(1) assms(1) f(4) by (simp add: run_panic_def hcf_def get_global_state_def PANIC_BEEPS_def upt_rec)
qed

lemma unimplemented_abort_stops:
  assumes "panics s = 0" and "always_ready s" and "ticks_stopped s" and "timer_goal_frequency s = 1000"
    and "unat (clock s) + 200 < 2 ^ 64" and "ascii msg" and "no_nul msg"
  shows "\<exists>t. unimplemented_abort msg c s = Stop (if get_global_state s PIT_INITIALIZED = 0 then Halted else Hang) t"
proof -
  obtain u where u: "print_cpu_status_interrupt c s = Done () u" "quiet s u" "always_ready u"
    using print_status_done [OF assms(2)] by blast
  have "panics u = 0" "ticks_stopped u" "timer_goal_frequency u = 1000" "clock u = clock s" "global_state u = global_state s"
    using u(2) assms(1,3,4) by (auto simp: quiet_def ticks_stopped_def clock_def get_global_state_def)
  then show ?thesis
    using run_panic_masked [of u msg] u(1,3) assms(5-7) by (auto simp: unimplemented_abort_def get_global_state_def)
qed

section \<open>Every vector\<close>

definition eoi_access :: "u64 \<Rightarrow> 'z lapic_scheme \<Rightarrow> io_access" where
  "eoi_access vector s = (if vector > 0xf0 then MmioOut (apic_virt s + APIC_EOI) 0 else PortOut 0x20 0x20)"

lemma acknowledge_access: "acknowledge vector s = access (eoi_access vector s) s"
  by (simp add: acknowledge_def eoi_access_def send_eio_def write_register_def mmio_write_def outb_def)

text \<open>The vectors whose handler stops the machine, those among them that panic, and the reason.\<close>

definition halting_vectors :: "u64 set" where
  "halting_vectors = {0x6, 0x8, 0xD, 0xE, 0x12, 0xf2, 0xf6, 0xff}"

definition abort_vectors :: "u64 set" where
  "abort_vectors = {0x8, 0x12, 0xf2, 0xf6, 0xff}"

definition final_stop :: "u64 \<Rightarrow> 'z devices_scheme \<Rightarrow> stop_reason" where
  "final_stop v s = (if v \<in> abort_vectors \<and> get_global_state s PIT_INITIALIZED \<noteq> 0 then Hang else Halted)"

fun returning_case :: "u64 \<Rightarrow> vector_case \<Rightarrow> bool" where
  "returning_case v (Fault_case msg) \<longleftrightarrow> ascii msg \<and> v \<noteq> 0x20 \<and> v \<noteq> 0xf1"
| "returning_case v (Trap_case msg) \<longleftrightarrow> ascii msg \<and> v \<noteq> 0x20 \<and> v \<noteq> 0xf1"
| "returning_case v Pit_case \<longleftrightarrow> v = 0x20"
| "returning_case v Apic_timer_case \<longleftrightarrow> v = 0xf1"
| "returning_case v _ \<longleftrightarrow> False"

lemma vector_cases_return:
  assumes "map_of vector_cases v = Some k" and "v \<notin> halting_vectors" and "v \<noteq> 0x24"
  shows "returning_case v k"
proof -
  have "\<forall>(w, c) \<in> set vector_cases. w \<in> halting_vectors \<or> w = 0x24 \<or> returning_case w c"
    by (simp add: vector_cases_def halting_vectors_def)
  then show ?thesis using map_of_SomeD [OF assms(1)] assms(2,3) by fastforce
qed

lemma vector_cases_unknown:
  assumes "map_of vector_cases v = None"
  shows "v \<noteq> 0x20" "v \<noteq> 0xf1"
  using assms by (auto simp: vector_cases_def)

text \<open>A vector that stops the machine, and one that returns.\<close>

lemma fatal_vector:
  assumes "panics s = 0" and "always_ready s" and "ticks_stopped s" and "timer_goal_frequency s = 1000"
    and "unat (clock s) + 200 < 2 ^ 64" and "cs_vector c \<in> halting_vectors"
  shows "\<exists>t. run_case (map_of vector_cases (cs_vector c)) c s = Stop (final_stop (cs_vector c) s) t"
proof -
  note fault = unimplemented_fault_done [OF assms(2), where c = c]
  have abort: "get_global_state s PIT_INITIALIZED = 0 \<Longrightarrow> \<exists>t. unimplemented_abort msg c s = Stop Halted t"
    "get_global_state s PIT_INITIALIZED \<noteq> 0 \<Longrightarrow> \<exists>t. unimplemented_abort msg c s = Stop Hang t"
    if "ascii msg" "no_nul msg" for msg
    using unimplemented_abort_stops [OF assms(1-5) that, of c] by simp_all
  have halts: "\<exists>t. bindO (unimplemented_fault msg c s) (\<lambda>_ s. hcf s) = Stop Halted t" if "ascii msg" for msg
    using fault [OF that] by (auto simp: hcf_def)
  have gp: "\<exists>t. run_case (Some (Fault_print_halt msg)) c s = Stop Halted t" if "ascii msg" for msg
    using fault [OF that] print_status_done [of _ c] by (fastforce simp: hcf_def)
  show ?thesis
    using assms(6) unfolding halting_vectors_def
    by (elim insertE emptyE)
      (simp_all add: vector_cases_def final_stop_def abort_vectors_def halts gp abort no_nul_def del: run_case.simps(3))
qed

lemma returning_vector:
  assumes "always_ready s" and "cs_vector c \<notin> halting_vectors" and "cs_vector c \<noteq> 0x24"
  shows "\<exists>t tr. run_case (map_of vector_cases (cs_vector c)) c s = Done () t \<and> io t = io s @ tr
    \<and> pit_ticks t = pit_ticks s + (if cs_vector c = 0x20 then 1 else 0)
    \<and> apic_ticks t = apic_ticks s + (if cs_vector c = 0xf1 then 1 else 0)
    \<and> console.more t = console.more s"
proof -
  have quiet: "\<exists>t tr. r = Done () t \<and> io t = io s @ tr \<and> pit_ticks t = pit_ticks s \<and> apic_ticks t = apic_ticks s
      \<and> console.more t = console.more s" if "\<exists>t. r = Done () t \<and> quiet s t \<and> always_ready t" for r
    using that by (auto simp: quiet_def)
  note fault = unimplemented_fault_done [OF assms(1), where c = c]
  show ?thesis
  proof (cases "map_of vector_cases (cs_vector c)")
    case None
    have "\<exists>t. run_case None c s = Done () t \<and> quiet s t \<and> always_ready t"
      using fault [of "''Unknown Exception''"] print_status_done [of _ c] by (fastforce intro: quiet_trans)
    then show ?thesis using quiet [of "run_case None c s"] None vector_cases_unknown [OF None] by simp
  next
    case (Some k)
    then have "returning_case (cs_vector c) k" using vector_cases_return assms(2,3) by blast
    then show ?thesis
      using Some quiet [OF fault] quiet [OF unimplemented_trap_done [OF assms(1), where c = c]]
      by (cases k) (auto simp: pit_irq_def apic_timer_irq_def)
  qed
qed



end
