(* ===== verification/Logos.thy ===== *)
theory Logos
  imports Ascii_Output
begin

text \<open>
  The boot logos, \<open>data/logos.c\<close>: the pictures, and the choice of one by its rarity. In the pictures
  \<open>@\<close> stands for a single quotation mark, \<open>%\<close> for a double one and \<open>+\<close> for a backslash, which string
  literals cannot hold; none of the three occurs in the source.
\<close>

section \<open>Pictures\<close>

definition marks :: "string \<Rightarrow> string" where
  "marks = map (\<lambda>c. if c = CHR ''@'' then CHR 0x27 else if c = CHR ''%'' then CHR 0x22
     else if c = CHR ''+'' then CHR 0x5C else c)"

text \<open>The lines of a picture, separated by new lines.\<close>

fun picture :: "string list \<Rightarrow> string" where
  "picture [] = []"
| "picture [l] = marks l"
| "picture (l # ls) = marks l @ CHR 0x0A # picture ls"

definition common_logos :: "string list" where
  "common_logos =
    [picture
       [''            _        ____   _____ '',
        ''           | |      / __ + / ____|'',
        ''   __ _  __| | __ _| |  | | (___  '',
        ''  / _` |/ _` |/ _` | |  | |+___ + '',
        '' | (_| | (_| | (_| | |__| |____) |'',
        ''  +__,_|+__,_|+__,_|+____/|_____/'',
        []],
     picture
       [''   __    ____    __    _____  ___ '',
        ''  /__+  (  _ +  /__+  (  _  )/ __)'',
        '' /(__)+  )(_) )/(__)+  )(_)( +__ +'',
        ''(__)(__)(____/(__)(__)(_____)(___/'',
        []],
     picture
       [''                $$+            $$$$$$+   $$$$$$+  '',
        ''                $$ |          $$  __$$+ $$  __$$+ '',
        '' $$$$$$+   $$$$$$$ | $$$$$$+  $$ /  $$ |$$ /  +__|'',
        '' +____$$+ $$  __$$ | +____$$+ $$ |  $$ |+$$$$$$+  '',
        '' $$$$$$$ |$$ /  $$ | $$$$$$$ |$$ |  $$ | +____$$+ '',
        ''$$  __$$ |$$ |  $$ |$$  __$$ |$$ |  $$ |$$+   $$ |'',
        ''+$$$$$$$ |+$$$$$$$ |+$$$$$$$ | $$$$$$  |+$$$$$$  |'',
        '' +_______| +_______| +_______| +______/  +______/'',
        []],
     picture
       [''       _     _____ _____ '',
        '' ___ _| |___|     |   __|'',
        ''| .@| . | .@|  |  |__   |'',
        ''|__,|___|__,|_____|_____|'',
        []]]"

definition uncommon_logos :: "string list" where
  "uncommon_logos =
    [picture
       [''   (@-.     _ .-@) _     (@-.                   .-@)    '',
        ''  ( OO ).-.( (  OO) )   ( OO ).-.              ( OO ).  '',
        ''  / . --. / +     .@_   / . --. / .-@),-----. (_)---+_) '',
        ''  | +-.  +  ,`@--..._)  | +-.  + ( OO@  .-.  @/    _ |  '',
        ''.-@-@  |  | |  |  +  @.-@-@  |  |/   |  | |  |+  :` `.  '',
        '' +| |_.@  | |  |   @ | +| |_.@  |+_) |  |+|  | @..`@@.) '',
        ''  |  .-.  | |  |   / :  |  .-.  |  + |  | |  |.-._)   + '',
        ''  |  | |  | |  @--@  /  |  | |  |   `@  @-@  @+       / '',
        ''  `--@ `--@ `-------@   `--@ `--@     `-----@  `-----@'',
        []],
     picture
       [''      ___           ___           ___           ___           ___     '',
        ''     /+  +         /+  +         /+  +         /+  +         /+  +    '',
        ''    /::+  +       /::+  +       /::+  +       /::+  +       /::+  +   '',
        ''   /:/+:+  +     /:/+:+  +     /:/+:+  +     /:/+:+  +     /:/+ +  +  '',
        ''  /::+~+:+  +   /:/  +:+__+   /::+~+:+  +   /:/  +:+  +   _+:+~+ +  + '',
        '' /:/+:+ +:+__+ /:/__/ +:|__| /:/+:+ +:+__+ /:/__/ +:+__+ /+ +:+ + +__+'',
        '' +/__+:+/:/  / +:+  + /:/  / +/__+:+/:/  / +:+  + /:/  / +:+ +:+ +/__/'',
        ''      +::/  /   +:+  /:/  /       +::/  /   +:+  /:/  /   +:+ +:+__+  '',
        ''      /:/  /     +:+/:/  /        /:/  /     +:+/:/  /     +:+/:/  /  '',
        ''     /:/  /       +::/__/        /:/  /       +::/  /       +::/  /   '',
        ''     +/__/         ~~            +/__/         +/__/         +/__/'',
        []]]"

definition rare_logos :: "string list" where
  "rare_logos =
    [picture
       ['' (`-@)  _ _(`-@)    (`-@)  _             (`-@).-> '',
        '' (OO ).-/( (OO ).-> (OO ).-/      .->    ( OO)_   '',
        '' / ,---.  +    .@_  / ,---.  (`-@)----. (_)--+_)  '',
        '' | + /`.+ @`@-..__) | + /`.+ ( OO).-.  @/    _ /  '',
        '' @-@|_.@ ||  |  @ | @-@|_.@ |( _) | |  |+_..`--.  '',
        ''(|  .-.  ||  |  / :(|  .-.  | +|  |)|  |.-._)   + '',
        '' |  | |  ||  @-@  / |  | |  |  @  @-@  @+       / '',
        '' `--@ `--@`------@  `--@ `--@   `-----@  `-----@'',
        []],
     picture
       [''   ,---.                    ,---.       _,.---._      ,-,--.  '',
        '' .--.@  +      _,..---._  .--.@  +    ,-.@ , -  `.  ,-.@-  _+ '',
        '' +==+-/+ +   /==/,   -  + +==+-/+ +  /==/_,  ,  - +/==/_ ,_.@ '',
        '' /==/-|_+ |  |==|   _   _+/==/-|_+ ||==|   .=.     +==+  +    '',
        '' +==+,   - + |==|  .=.   |+==+,   - +==|_ : ;=:  - |+==+ -+   '',
        '' /==/ -   ,| |==|,|   | -|/==/ -   ,|==| , @=@     |_+==+ ,+  '',
        ''/==/-  /+ - +|==|  @=@   /==/-  /+ - +==+ -    ,_ //==/+/ _ | '',
        ''+==+ _.+=+.-@|==|-,   _`/+==+ _.+=+.-@@.=@. -   .@ +==+ - , / '',
        '' `--`        `-.`.____.@  `--`          `--`--@@    `--`---@'',
        []],
     picture
       [''  A  DDDD   A   OOO  SSSS '',
        '' A A D   D A A O   OS     '',
        ''AAAAAD   DAAAAAO   O SSS  '',
        ''A   AD   DA   AO   O    S '',
        ''A   ADDDD A   A OOO SSSS'',
        []]]"

definition epic_logos :: "string list" where
  "epic_logos =
    [picture
       [''            .___       ________    _________'',
        ''_____     __| _/____   +_____  +  /   _____/'',
        ''+__  +   / __ |+__  +   /   |   + +_____  + '',
        '' / __ +_/ /_/ | / __ +_/    |    +/        +'',
        ''(____  /+____ |(____  /+_______  /_______  /'',
        ''     +/      +/     +/         +/        +/'',
        []],
     picture
       [''I love gambling!!'',
        []],
     picture
       [''Wait, this was supposed to be a logo??'',
        []],
     picture
       [''                                                             '',
        ''          _______                                            '',
        ''          +  ___ `@.                                         '',
        ''           @ |--.+  +                                        '',
        ''           | |    +  @              .-@@` @@-.               '',
        ''    __     | |     |  @    __     .@          @.             '',
        '' .:--.@.   | |     |  | .:--.@.  /              `       _    '',
        ''/ |   + |  | |     @ .@/ |   + |@                @    .@ |   '',
        ''`% __ | |  | |___.@ /@ `% __ | ||         .-.    |   .   | / '',
        '' .@.@@| | /_______.@/   .@.@@| |.        |   |   . .@.@| |// '',
        ''/ /   | |_+_______|/   / /   | |_.       @._.@  /.@.@.-@  /  '',
        ''+ +._,+ @/             + +._,+ @/ @._         .@ .@   +_.@   '',
        '' `--@  `%               `--@  `%     @-....-@`'',
        []]]"

definition legendary_logos :: "string list" where
  "legendary_logos =
    [picture
       [''                      )   (     '',
        ''        (          ( /(   )+ )  '',
        ''    )   )+ )    )  )+()) (()/(  '',
        '' ( /(  (()/( ( /( ((_)+   /(_)) '',
        '' )(_))  ((_)))(_))  ((_) (_))   '',
        ''((_)_   _| |((_)_  / _ + / __|  '',
        ''/ _` |/ _` |/ _` || (_) |+__ +  '',
        ''+__,_|+__,_|+__,_| +___/ |___/'',
        []],
     picture
       [''________________________/+++_________________        '',
        '' _______________________+/+++_________________       '',
        ''  _______________________+/+++_________________      '',
        ''   __/+++++++++___________+/+++___/+++++++++____     '',
        ''    _+////////+++_____/+++++++++__+////////+++___    '',
        ''     ___/++++++++++___/+++////+++____/++++++++++__   '',
        ''      __/+++/////+++__+/+++__+/+++___/+++/////+++__  '',
        ''       _+//++++++++/++_+//+++++++/++_+//++++++++/++_ '',
        ''        __+////////+//___+///////+//___+////////+//__'',
        ''_______/+++++__________/+++++++++++___               '',
        '' _____/+++///+++______/+++/////////+++_              '',
        ''  ___/+++/__+///+++___+//+++______+///__             '',
        ''   __/+++______+//+++___+////+++_________            '',
        ''    _+/+++_______+/+++______+////+++______           '',
        ''     _+//+++______/+++__________+////+++___          '',
        ''      __+///+++__/+++_____/+++______+//+++__         '',
        ''       ____+///+++++/_____+///+++++++++++/___        '',
        ''        ______+/////_________+///////////_____'',
        []],
     picture
       [''Wait, what do you mean its not written in ada??'']]"

definition mythical_logos :: "string list" where
  "mythical_logos =
    [picture
       ['' ________'',
        ''< adaOS! >'',
        '' --------'',
        ''        +   ^__^'',
        ''         +  (oo)+_______'',
        ''            (__)+       )+/+'',
        ''                ||----w |'',
        ''                ||     ||''],
     picture
       [''                             ____________________          '',
        ''                            < wait this isnt bsd >         '',
        ''                             --------------------          '',
        ''                               +         ,        ,        '',
        ''                                +       /(        )`       '',
        ''                                 +      + +___   / |       '',
        ''                                        /- _  `-/  @       '',
        ''                                       (/+/ + +   /+       '',
        ''                                       / /   | `    +      '',
        ''           _        ___  __            O O   ) /    |      '',
        ''  __ _  __| | __ _ / _ +/ _+           `-^--@`<     @      '',
        '' / _` |/ _` |/ _` | | | + +           (_.)  _  )   /       '',
        ''| (_| | (_| | (_| | |_| |+ +           `.___/`    /        '',
        '' +__,_|+__,_|+__,_|+___/+__/             `-----@ /         '',
        ''                             <----.     __ / __   +         '',
        ''                             <----|====O)))==) +) /====     '',
        ''                             <----@    `--@ `.__,@ +        '',
        ''                                          |        |        '',
        ''                                           +       /        '',
        ''                                     ______( (_  / +______  '',
        ''                                   ,@  ,-----@   |        + '',
        ''                                   `--{__________)        +/'',
        []]]"

definition NUM_COMMON_LOGOS :: u32 where "NUM_COMMON_LOGOS = 4"
definition NUM_UNCOMMON_LOGOS :: u32 where "NUM_UNCOMMON_LOGOS = 2"
definition NUM_RARE_LOGOS :: u32 where "NUM_RARE_LOGOS = 3"
definition NUM_EPIC_LOGOS :: u32 where "NUM_EPIC_LOGOS = 4"
definition NUM_LEGENDARY_LOGOS :: u32 where "NUM_LEGENDARY_LOGOS = 3"
definition NUM_MYTHICAL_LOGOS :: u32 where "NUM_MYTHICAL_LOGOS = 2"

definition UNCOMMON_LOGO_CHANCE :: u64 where "UNCOMMON_LOGO_CHANCE = 30"
definition RARE_LOGO_CHANCE :: u64 where "RARE_LOGO_CHANCE = 16"
definition EPIC_LOGO_CHANCE :: u64 where "EPIC_LOGO_CHANCE = 10"
definition LEGENDARY_LOGO_CHANCE :: u64 where "LEGENDARY_LOGO_CHANCE = 3"
definition MYTHICAL_LOGO_CHANCE :: u64 where "MYTHICAL_LOGO_CHANCE = 1"

section \<open>The choice\<close>

datatype rarity = COMMON | UNCOMMON | RARE | EPIC | LEGENDARY | MYTHICAL

text \<open>The values of the enumeration order the rarities.\<close>

fun rarity_level :: "rarity \<Rightarrow> nat" where
  "rarity_level COMMON = 0"
| "rarity_level UNCOMMON = 1"
| "rarity_level RARE = 2"
| "rarity_level EPIC = 3"
| "rarity_level LEGENDARY = 4"
| "rarity_level MYTHICAL = 5"

lemma rarity_level_eq: "rarity_level r = rarity_level r' \<Longrightarrow> r = r'"
  by (cases r; cases r') simp_all

instantiation rarity :: linorder
begin

definition less_eq_rarity :: "rarity \<Rightarrow> rarity \<Rightarrow> bool" where
  "less_eq_rarity r r' \<longleftrightarrow> rarity_level r \<le> rarity_level r'"

definition less_rarity :: "rarity \<Rightarrow> rarity \<Rightarrow> bool" where
  "less_rarity r r' \<longleftrightarrow> rarity_level r < rarity_level r'"

instance
  by standard (auto simp: less_eq_rarity_def less_rarity_def intro: rarity_level_eq)

end

definition print_from_array :: "string list \<Rightarrow> u32 \<Rightarrow> 'z console_scheme \<Rightarrow> (unit, 'z console_scheme) outcome" where
  "print_from_array arr n s =
     (if unat n < length arr then bindO (printf ''%s'' [Str (arr ! unat n)] s) (\<lambda>_ s. Done () s)
      else Stop (Fault ''logo array out of bounds'') s)"

text \<open>The colour, the pictures and their number for each case of the \<open>switch\<close>.\<close>

fun logo_colour :: "rarity \<Rightarrow> u32" where
  "logo_colour COMMON = 0xffffff"
| "logo_colour UNCOMMON = 0xabcaff"
| "logo_colour RARE = 0xee3330"
| "logo_colour EPIC = 0xa63fff"
| "logo_colour LEGENDARY = 0xffc611"
| "logo_colour MYTHICAL = 0xE1C1FF"

fun logo_array :: "rarity \<Rightarrow> string list \<times> u32" where
  "logo_array COMMON = (common_logos, NUM_COMMON_LOGOS)"
| "logo_array UNCOMMON = (uncommon_logos, NUM_UNCOMMON_LOGOS)"
| "logo_array RARE = (rare_logos, NUM_RARE_LOGOS)"
| "logo_array EPIC = (epic_logos, NUM_EPIC_LOGOS)"
| "logo_array LEGENDARY = (legendary_logos, NUM_LEGENDARY_LOGOS)"
| "logo_array MYTHICAL = (mythical_logos, NUM_MYTHICAL_LOGOS)"

definition print_rarity :: "rarity \<Rightarrow> 'z console_scheme \<Rightarrow> (unit, 'z console_scheme) outcome" where
  "print_rarity r s =
     (case logo_array r of (arr, num) \<Rightarrow>
        bindO (random_range 0 (num - 1) (set_text_colour (logo_colour r) s)) (\<lambda>n s.
        bindO (print_from_array arr n s) (\<lambda>_ s. crlf s)))"

text \<open>\<open>UINT32_MAX * chance / 100\<close> in 64 bits.\<close>

definition UINT32_MAX :: u64 where "UINT32_MAX = 0xFFFFFFFF"

definition rarity_of :: "u32 \<Rightarrow> rarity" where
  "rarity_of rand =
     (let r = ucast rand :: u64 in
      if r < MYTHICAL_LOGO_CHANCE * UINT32_MAX div 100 then MYTHICAL
      else if r < LEGENDARY_LOGO_CHANCE * UINT32_MAX div 100 then LEGENDARY
      else if r < EPIC_LOGO_CHANCE * UINT32_MAX div 100 then EPIC
      else if r < RARE_LOGO_CHANCE * UINT32_MAX div 100 then RARE
      else if r < UNCOMMON_LOGO_CHANCE * UINT32_MAX div 100 then UNCOMMON
      else COMMON)"

definition print_random_logo :: "'z console_scheme \<Rightarrow> (unit, 'z console_scheme) outcome" where
  "print_random_logo s =
     bindO (random_uint32 s) (\<lambda>rand s.
     bindO (print_rarity (rarity_of rand) s) (\<lambda>_ s.
     let s = set_text_colour 0xffffff s in
     if ucast rand = UINT32_MAX then
       bindO (printf ([CHR 0x0A, CHR 0x0A] @ ''Congrats! On average, you'' @ [CHR 0x27] @ ''ve booted the Kernel %d times!'' @ [CHR 0x0A, CHR 0x0A, CHR 0x0A])
         [Num (UINT32_MAX div 2)] s) (\<lambda>_ s. Done () s)
     else Done () s))"

section \<open>What the pictures are made of\<close>

lemma marks_append: "marks (xs @ ys) = marks xs @ marks ys"
  by (simp add: marks_def)

lemma ascii_marks: "ascii l \<Longrightarrow> ascii (marks l)"
  by (auto simp: marks_def ascii_def ascii_code)

lemma ascii_picture: "\<forall>l \<in> set ls. ascii l \<Longrightarrow> ascii (picture ls)"
  by (induction ls rule: picture.induct) (simp_all add: ascii_marks)

text \<open>The eighth bit of every character is clear.\<close>

lemma ascii_literal: "ascii (Char b0 b1 b2 b3 b4 b5 b6 False # cs) = ascii cs"
  by (cases b0; cases b1; cases b2; cases b3; cases b4; cases b5; cases b6) simp_all

lemma common_ascii: "\<forall>l \<in> set common_logos. ascii l"
  unfolding common_logos_def
  by (simp only: list.set ball_simps(5,7) simp_thms, intro conjI;
      rule ascii_picture, simp only: list.set ball_simps(5,7) ascii_literal ascii_simps(1) simp_thms)

lemma uncommon_ascii: "\<forall>l \<in> set uncommon_logos. ascii l"
  unfolding uncommon_logos_def
  by (simp only: list.set ball_simps(5,7) simp_thms, intro conjI;
      rule ascii_picture, simp only: list.set ball_simps(5,7) ascii_literal ascii_simps(1) simp_thms)

lemma rare_ascii: "\<forall>l \<in> set rare_logos. ascii l"
  unfolding rare_logos_def
  by (simp only: list.set ball_simps(5,7) simp_thms, intro conjI;
      rule ascii_picture, simp only: list.set ball_simps(5,7) ascii_literal ascii_simps(1) simp_thms)

lemma epic_ascii: "\<forall>l \<in> set epic_logos. ascii l"
  unfolding epic_logos_def
  by (simp only: list.set ball_simps(5,7) simp_thms, intro conjI;
      rule ascii_picture, simp only: list.set ball_simps(5,7) ascii_literal ascii_simps(1) simp_thms)

lemma legendary_ascii: "\<forall>l \<in> set legendary_logos. ascii l"
  unfolding legendary_logos_def
  by (simp only: list.set ball_simps(5,7) simp_thms, intro conjI;
      rule ascii_picture, simp only: list.set ball_simps(5,7) ascii_literal ascii_simps(1) simp_thms)

lemma mythical_ascii: "\<forall>l \<in> set mythical_logos. ascii l"
  unfolding mythical_logos_def
  by (simp only: list.set ball_simps(5,7) simp_thms, intro conjI;
      rule ascii_picture, simp only: list.set ball_simps(5,7) ascii_literal ascii_simps(1) simp_thms)

lemma logos_ascii: "l \<in> set (fst (logo_array r)) \<Longrightarrow> ascii l"
  using common_ascii uncommon_ascii rare_ascii epic_ascii legendary_ascii mythical_ascii by (cases r) auto

lemma logo_counts: "length (fst (logo_array r)) = unat (snd (logo_array r)) \<and> 2 \<le> snd (logo_array r)"
  by (cases r)
    (simp_all add: common_logos_def uncommon_logos_def rare_logos_def epic_logos_def legendary_logos_def mythical_logos_def
      NUM_COMMON_LOGOS_def NUM_UNCOMMON_LOGOS_def NUM_RARE_LOGOS_def NUM_EPIC_LOGOS_def NUM_LEGENDARY_LOGOS_def NUM_MYTHICAL_LOGOS_def)

section \<open>The logo is shown\<close>

text \<open>A console that takes text and a generator that has been seeded.\<close>

definition logo_ready :: "'z console_scheme \<Rightarrow> bool" where
  "logo_ready s \<longleftrightarrow> always_ready s \<and> (\<exists>seed n. mt_window seed n (local_state s))"

text \<open>What showing a logo may change beyond the console: the state of the generator.\<close>

definition drawn :: "'z console_scheme \<Rightarrow> 'z console_scheme \<Rightarrow> bool" where
  "drawn s t \<longleftrightarrow> (\<exists>g. quiet (s\<lparr>local_state := g\<rparr>) t)"

lemma drawn_quiet: "quiet s t \<Longrightarrow> drawn s t"
  unfolding drawn_def by (rule exI [of _ "local_state s"]) simp

lemma drawn_trans:
  assumes "drawn s t" and "drawn t u"
  shows "drawn s u"
proof -
  obtain g m tr x y c where t: "t = s\<lparr>local_state := g, mem := m, io := io s @ tr, cursor_x := x, cursor_y := y, on_colour := c\<rparr>"
    using assms(1) by (auto simp: drawn_def quiet_def)
  obtain g' m' tr' x' y' c' where u: "u = t\<lparr>local_state := g', mem := m', io := io t @ tr', cursor_x := x', cursor_y := y', on_colour := c'\<rparr>"
    using assms(2) by (auto simp: drawn_def quiet_def)
  show ?thesis
    unfolding drawn_def quiet_def t u
    by (intro exI [of _ g'] exI [of _ m'] exI [of _ "tr @ tr'"] exI [of _ x'] exI [of _ y'] exI [of _ c']) simp
qed

lemma logo_ready_quiet: "quiet s t \<Longrightarrow> logo_ready s \<Longrightarrow> logo_ready t"
  unfolding logo_ready_def quiet_def always_ready_def by (elim conjE exE, intro conjI exI) simp_all

lemma random_drawn:
  assumes "logo_ready s"
  shows "\<exists>r t. random_uint32 s = Done r t \<and> drawn s t \<and> logo_ready t"
proof -
  obtain seed n where w: "mt_window seed n (local_state s)" using assms by (auto simp: logo_ready_def)
  obtain t where t: "random_uint32 s = Done (temper (mt_seq seed (n + 624))) t" "mt_window seed (Suc n) (local_state t)"
    using random_uint32_window [OF w] by blast
  then obtain g where g: "t = s\<lparr>local_state := g\<rparr>" by (auto simp: random_uint32_def Let_def split: option.splits)
  have "drawn s t" unfolding drawn_def g by (intro exI) (rule quiet_moved [OF console_moved_refl])
  moreover have "logo_ready t" using assms t(2) g by (auto simp: logo_ready_def always_ready_def)
  ultimately show ?thesis using t(1) by blast
qed

lemma random_range_drawn:
  assumes "logo_ready s" and "0 < mx" and "mx \<noteq> -1"
  shows "\<exists>r t. random_range 0 mx s = Done r t \<and> r \<le> mx \<and> drawn s t \<and> logo_ready t"
proof -
  obtain seed n where w: "mt_window seed n (local_state s)" using assms(1) by (auto simp: logo_ready_def)
  obtain r t where r: "random_range 0 mx s = Done r t" "r \<le> mx"
    using random_range_bounds [OF w, of 0 mx] assms(3) by auto
  obtain x u where x: "random_uint32 s = Done x u" "drawn s u" "logo_ready u" using random_drawn [OF assms(1)] by blast
  then have "t = u" using r(1) assms(2) by (auto simp: random_range_def Let_def split: if_splits)
  then show ?thesis using r x by blast
qed

lemma printf_str_done:
  assumes "always_ready s" and "ascii l"
  shows "\<exists>r t. printf ''%s'' [Str l] s = Done r t \<and> quiet s t \<and> always_ready t"
proof -
  obtain str where "vsn ''%s'' [Str l] = Some str" by (simp add: conversion_defs Let_def)
  moreover from this have "ascii str"
    by (rule vsn_ascii) (use assms(2) in \<open>simp_all add: plain_format_def peek_def modifier_def is_digit_def\<close>)
  ultimately show ?thesis using vprintf_ready [OF assms(1)] unfolding printf_def vprintf_def by blast
qed

lemma print_rarity_done:
  assumes "logo_ready s"
  shows "\<exists>t. print_rarity r s = Done () t \<and> drawn s t \<and> logo_ready t"
proof -
  obtain arr num where an: "logo_array r = (arr, num)" by (cases "logo_array r")
  then have len: "length arr = unat num" "2 \<le> num" and asc: "\<And>l. l \<in> set arr \<Longrightarrow> ascii l"
    using logo_counts [of r] logos_ascii [of _ r] by auto
  let ?s = "set_text_colour (logo_colour r) s"
  have q: "quiet s ?s" by (rule quiet_colour)
  have num: "unat (num - 1) = unat num - 1" "2 \<le> unat num"
    using len(2) by (auto simp: unat_sub word_le_nat_alt)
  then have "0 < num - 1" "num - 1 \<noteq> -1" by (auto simp: word_less_nat_alt)
  then obtain n u where n: "random_range 0 (num - 1) ?s = Done n u" "n \<le> num - 1" "drawn ?s u" "logo_ready u"
    using random_range_drawn [OF logo_ready_quiet [OF q assms]] by blast
  then have i: "unat n < length arr" using num len(1) by (simp add: word_le_nat_alt)
  obtain k v where v: "printf ''%s'' [Str (arr ! unat n)] u = Done k v" "quiet u v" "always_ready v"
    using printf_str_done [OF _ asc [OF nth_mem [OF i]], of u] n(4) unfolding logo_ready_def by blast
  obtain w where w: "crlf v = Done () w" "quiet v w"
    using k_puts_ready [OF v(3), of "[CHR 0x0D, CHR 0x0A]"] by (auto simp: crlf_def no_nul_def)
  have "drawn s w"
    by (rule drawn_trans [OF drawn_quiet [OF q] drawn_trans [OF n(3) drawn_trans [OF drawn_quiet [OF v(2)] drawn_quiet [OF w(2)]]]])
  moreover have "logo_ready w" using n(4) v(2) w(2) logo_ready_quiet by blast
  ultimately show ?thesis using an n(1) i v(1) w(1) by (simp add: print_rarity_def print_from_array_def)
qed

lemma print_random_logo_done:
  assumes "logo_ready s"
  shows "\<exists>t. print_random_logo s = Done () t \<and> drawn s t \<and> logo_ready t"
proof -
  obtain rand u where u: "random_uint32 s = Done rand u" "drawn s u" "logo_ready u" using random_drawn [OF assms] by blast
  obtain v where v: "print_rarity (rarity_of rand) u = Done () v" "drawn u v" "logo_ready v" using print_rarity_done [OF u(3)] by blast
  let ?w = "set_text_colour 0xffffff v" and ?fmt = "[CHR 0x0A, CHR 0x0A] @ ''Congrats! On average, you'' @ [CHR 0x27] @
      ''ve booted the Kernel %d times!'' @ [CHR 0x0A, CHR 0x0A, CHR 0x0A]"
  have w: "drawn s ?w" "logo_ready ?w"
    using u(2) v(2,3) drawn_trans drawn_quiet [OF quiet_colour] logo_ready_quiet [OF quiet_colour] by blast+
  obtain str where str: "vsn ?fmt [Num (UINT32_MAX div 2)] = Some str" by (simp add: conversion_defs Let_def)
  have "ascii str"
    using str by (rule vsn_ascii) (simp_all add: plain_format_def peek_def modifier_def is_digit_def)
  then obtain r x where x: "printf ?fmt [Num (UINT32_MAX div 2)] ?w = Done r x" "quiet ?w x"
    using vprintf_ready [OF _ str] w(2) unfolding printf_def vprintf_def logo_ready_def by blast
  have "drawn s x" "logo_ready x" using w x(2) drawn_trans drawn_quiet logo_ready_quiet by blast+
  then show ?thesis using u(1) v(1) w x(1) by (auto simp: print_random_logo_def Let_def simp del: append.simps)
qed

lemma card_unat_between:
  assumes "b \<le> 2 ^ 32"
  shows "card {r :: u32. a \<le> unat r \<and> unat r < b} = b - a"
proof -
  have "{r :: u32. a \<le> unat r \<and> unat r < b} = of_nat ` {a..<b}"
  proof (intro set_eqI iffI)
    fix r :: u32 assume "r \<in> {r. a \<le> unat r \<and> unat r < b}"
    then show "r \<in> of_nat ` {a..<b}" by (intro image_eqI [of _ _ "unat r"]) simp_all
  next
    fix r :: u32 assume "r \<in> of_nat ` {a..<b}"
    then obtain n where "r = of_nat n" "a \<le> n" "n < b" by auto
    moreover from this have "unat r = n" using assms unat_of_nat_less [of n, where ?'a = 32] by simp
    ultimately show "r \<in> {r. a \<le> unat r \<and> unat r < b}" by simp
  qed
  moreover have "inj_on (of_nat :: nat \<Rightarrow> u32) {a..<b}"
    using assms of_nat_word_inject [where ?'a = 32] by (intro inj_onI) simp
  ultimately show ?thesis by (simp add: card_image)
qed

lemma rarity_bounds:
  "rarity_of r = MYTHICAL \<longleftrightarrow> 0 \<le> unat r \<and> unat r < 42949672"
  "rarity_of r = LEGENDARY \<longleftrightarrow> 42949672 \<le> unat r \<and> unat r < 128849018"
  "rarity_of r = EPIC \<longleftrightarrow> 128849018 \<le> unat r \<and> unat r < 429496729"
  "rarity_of r = RARE \<longleftrightarrow> 429496729 \<le> unat r \<and> unat r < 687194767"
  "rarity_of r = UNCOMMON \<longleftrightarrow> 687194767 \<le> unat r \<and> unat r < 1288490188"
  "rarity_of r = COMMON \<longleftrightarrow> 1288490188 \<le> unat r \<and> unat r < 4294967296"
  using unsigned_less [of r, where ?'a = nat]
  by (auto simp: rarity_of_def Let_def word_less_nat_alt UINT32_MAX_def MYTHICAL_LOGO_CHANCE_def LEGENDARY_LOGO_CHANCE_def
      EPIC_LOGO_CHANCE_def RARE_LOGO_CHANCE_def UNCOMMON_LOGO_CHANCE_def)

lemma rarity_of_antimono: "antimono rarity_of"
proof (rule antimonoI)
  fix r r' :: u32 assume "r \<le> r'"
  then have "unat r \<le> unat r'" by (simp add: word_le_nat_alt)
  then show "rarity_of r' \<le> rarity_of r"
    using rarity_bounds [of r] rarity_bounds [of r']
    by (cases "rarity_of r"; cases "rarity_of r'") (simp_all add: less_eq_rarity_def)
qed

text \<open>
  The rarities have their chances: of the \<open>2 ^ 32\<close> values of the generator, the numbers below
  are those that select each rarity, 1, 2, 7, 6, 14 and 70 per cent of them, the smaller the number
  the rarer the logo; and whatever the
  generator returns, the index of the logo is inside the array of its rarity and its text can be
  shown: \<open>print_random_logo\<close> returns on a console that takes text, with nothing changed beyond the
  console and the generator.
\<close>

lemma logo_rarities:
  assumes "logo_ready s"
  shows "(\<exists>t. print_random_logo s = Done () t \<and> drawn s t)
   \<and> antimono rarity_of
   \<and> card {r. rarity_of r = MYTHICAL} = 42949672 \<and> card {r. rarity_of r = LEGENDARY} = 85899346
   \<and> card {r. rarity_of r = EPIC} = 300647711 \<and> card {r. rarity_of r = RARE} = 257698038
   \<and> card {r. rarity_of r = UNCOMMON} = 601295421 \<and> card {r. rarity_of r = COMMON} = 3006477108"
  using print_random_logo_done [OF assms] rarity_of_antimono card_unat_between [of 42949672 0] unfolding rarity_bounds
  by (auto simp: card_unat_between)

lemma logo_rarities_example:
  "\<exists>t. print_random_logo (setup_random 5489 (example_console\<lparr>local_state := \<lparr>state_array = replicate 624 0, state_index = 0\<rparr>\<rparr>))
     = Done () t"
proof -
  let ?s = "example_console\<lparr>local_state := \<lparr>state_array = replicate 624 0, state_index = 0\<rparr>\<rparr>"
  have "logo_ready (setup_random 5489 ?s)"
    using setup_random_window [of ?s 5489] example_console_ready
    by (auto simp: logo_ready_def always_ready_def setup_random_def)
  then show ?thesis using logo_rarities by blast
qed

end
