(* ===== verification/Cpuid.thy ===== *)
theory Cpuid
  imports Kernel_Prelude
begin

text \<open>
  Processor identification, \<open>platform/x86_64/cpuid.c\<close>. What the instruction \<open>cpuid\<close> returns for a leaf
  and a subleaf is the argument \<open>cpuid\<close> of the functions that execute it.
\<close>

record cpuid_regs =
  eax :: u32
  ebx :: u32
  ecx :: u32
  edx :: u32

type_synonym cpuid_instruction = "u32 \<Rightarrow> u32 \<Rightarrow> cpuid_regs"

text \<open>\<open>reg\<close> is the character 'a', 'b', 'c' or 'd'.\<close>

definition cpu_feature_bit :: "cpuid_instruction \<Rightarrow> u32 \<Rightarrow> u32 \<Rightarrow> char \<Rightarrow> u32 \<Rightarrow> u32" where
  "cpu_feature_bit cpuid leaf subleaf reg b =
     (if b > 31 then 0
      else
        let r = cpuid leaf subleaf;
            field = (if reg = CHR ''a'' then Some (eax r) else if reg = CHR ''b'' then Some (ebx r)
                     else if reg = CHR ''c'' then Some (ecx r) else if reg = CHR ''d'' then Some (edx r) else None)
        in case field of None \<Rightarrow> 0 | Some v \<Rightarrow> drop_bit (unat b) v AND 1)"

text \<open>The bytes of a register, as \<open>memcpy\<close> copies them, and the text in a buffer up to the first null.\<close>

definition register_bytes :: "u32 \<Rightarrow> u8 list" where
  "register_bytes v = map (\<lambda>i. ucast (drop_bit (8 * i) v)) [0..<4]"

definition buffer_text :: "u8 list \<Rightarrow> string" where
  "buffer_text bs = map (\<lambda>b. char_of (unat b)) (takeWhile (\<lambda>b. b \<noteq> 0) bs)"

definition get_cpu_vendor :: "cpuid_instruction \<Rightarrow> string" where
  "get_cpu_vendor cpuid =
     (let r = cpuid 0 0 in
      buffer_text (register_bytes (ebx r) @ register_bytes (edx r) @ register_bytes (ecx r) @ [0]))"

definition get_hypervisor_vendor :: "cpuid_instruction \<Rightarrow> string" where
  "get_hypervisor_vendor cpuid =
     (if cpu_feature_bit cpuid 1 0 (CHR ''c'') 0x1F \<noteq> 0 then
        let r = cpuid 0x40000000 0 in
        buffer_text (register_bytes (ebx r) @ register_bytes (ecx r) @ register_bytes (edx r) @ [0])
      else ''NOHYPERVISOR'')"

definition get_cpu_name :: "cpuid_instruction \<Rightarrow> string" where
  "get_cpu_name cpuid =
     (if eax (cpuid 0x80000000 0) < 0x80000004 then ''NO CPU NAME''
      else buffer_text (concat (map (\<lambda>i. let regs = cpuid i 0 in
             register_bytes (eax regs) @ register_bytes (ebx regs) @ register_bytes (ecx regs) @ register_bytes (edx regs))
           [0x80000002, 0x80000003, 0x80000004]) @ [0]))"

section \<open>What the processor has encoded\<close>

lemma cpu_feature_bit_bit:
  "b \<le> 31 \<Longrightarrow> cpu_feature_bit cpuid leaf subleaf (CHR ''c'') b = of_bool (bit (ecx (cpuid leaf subleaf)) (unat b))"
  by (simp add: cpu_feature_bit_def and_one_eq bit_iff_odd_drop_bit odd_iff_mod_2_eq_one linorder_not_less of_bool_def)

text \<open>Four characters in a register, the first one in the low byte.\<close>

definition register_of :: "u8 list \<Rightarrow> u32" where
  "register_of bs = ucast (bs ! 0) OR push_bit 8 (ucast (bs ! 1)) OR push_bit 16 (ucast (bs ! 2)) OR push_bit 24 (ucast (bs ! 3))"

lemma register_round_trip:
  assumes "length bs = 4"
  shows "register_bytes (register_of bs) = bs"
proof -
  obtain a b c d where bs: "bs = [a, b, c, d]" using assms by (auto simp: numeral_eq_Suc length_Suc_conv)
  have "ucast (drop_bit (8 * i) (register_of bs)) = bs ! i" if "i < 4" for i
  proof (rule bit_word_eqI)
    fix n assume n: "n < LENGTH(8)"
    have "i = 0 \<or> i = 1 \<or> i = 2 \<or> i = 3" using that by auto
    then show "bit (ucast (drop_bit (8 * i) (register_of bs)) :: u8) n = bit (bs ! i) n"
      using n bit_imp_le_length [of a] bit_imp_le_length [of b] bit_imp_le_length [of c] bit_imp_le_length [of d]
      by (elim disjE) (fastforce simp: bs register_of_def bit_unsigned_iff bit_drop_bit_eq bit_or_iff bit_push_bit_iff)+
  qed
  then show ?thesis using assms by (auto simp: register_bytes_def list_eq_iff_nth_eq)
qed

lemma buffer_text_clean: "0 \<notin> set bs \<Longrightarrow> buffer_text (bs @ [0]) = map (\<lambda>b. char_of (unat b)) bs"
  unfolding buffer_text_def by (subst takeWhile_append2) auto

text \<open>The vendor: twelve characters in the registers \<open>ebx\<close>, \<open>edx\<close> and \<open>ecx\<close> of leaf 0.\<close>

lemma vendor_decoded:
  assumes "length a = 4" "length b = 4" "length c = 4" "0 \<notin> set (a @ b @ c)"
    and "cpuid 0 0 = \<lparr>eax = m, ebx = register_of a, ecx = register_of c, edx = register_of b\<rparr>"
  shows "get_cpu_vendor cpuid = map (\<lambda>x. char_of (unat x)) (a @ b @ c)"
  using buffer_text_clean [of "a @ b @ c"] assms by (simp add: get_cpu_vendor_def register_round_trip)

lemma no_hypervisor: "\<not> bit (ecx (cpuid 1 0)) 31 \<Longrightarrow> get_hypervisor_vendor cpuid = ''NOHYPERVISOR''"
  by (simp add: get_hypervisor_vendor_def cpu_feature_bit_bit)

text \<open>The name fits its buffer of 49 characters.\<close>

lemma name_length: "length (get_cpu_name cpuid) \<le> 48"
proof -
  let ?bs = "concat (map (\<lambda>i. let regs = cpuid i 0 in
      register_bytes (eax regs) @ register_bytes (ebx regs) @ register_bytes (ecx regs) @ register_bytes (edx regs))
    [0x80000002, 0x80000003, 0x80000004])"
  have "length (takeWhile (\<lambda>b. b \<noteq> 0) (bs @ [0 :: u8])) \<le> length bs" for bs by (induction bs) simp_all
  from this [of ?bs] have "length (buffer_text (?bs @ [0])) \<le> length ?bs" by (simp only: buffer_text_def length_map)
  moreover have "length ?bs = 48" by (simp add: Let_def register_bytes_def)
  ultimately show ?thesis unfolding get_cpu_name_def by (simp split: if_split)
qed

end
