(* ===== verification/Boot.thy ===== *)
theory Boot
  imports Handlers Logos Cpuid
begin

text \<open>
  The boot sequence, \<open>core.c\<close>: the responses of the boot loader, the banner, and \<open>kmain\<close>, which sets
  up every component in order and tests the timers and the allocators on the way; and the start-up
  of the other processors, \<open>platform/x86_64/ap.c\<close>, which nothing calls yet.
\<close>

section \<open>State\<close>

text \<open>
  The responses of the boot loader that only these files read. The processors of the multiprocessor
  response are structures that the boot loader has allocated; a processor starts when its
  \<open>goto_address\<close> is written.
\<close>

record mp_info =
  mp_processor_id :: u32
  mp_lapic_id :: u32
  mp_goto_address :: u64

record boot = shell +
  base_revision_supported :: bool
  framebuffer_response :: "framebuffer list option"
  boot_time_response :: "u64 option"
  mp_response :: "mp_info list option"

text \<open>
  What the linker, the processor and the assembly supply: the addresses of static data, of the
  sections and of the page bitmap, the instruction \<open>cpuid\<close> and the test for it, and the addresses
  of two local variables.
\<close>

record boot_env =
  env_statics :: static_addresses
  env_sections :: sections
  env_bitmap :: u64
  env_cpuid :: cpuid_instruction
  env_check_cpuid :: bool
  env_ts :: u64
  env_entry :: u64

section \<open>Responses\<close>

definition get_framebuffer :: "'z boot_scheme \<Rightarrow> (framebuffer, 'z boot_scheme) outcome" where
  "get_framebuffer s =
     (case framebuffer_response s of
        None \<Rightarrow> hcf s
      | Some fbs \<Rightarrow> (case fbs of [] \<Rightarrow> hcf s | fb # _ \<Rightarrow> Done fb s))"

definition get_boot_time :: "'z boot_scheme \<Rightarrow> (u64, 'z boot_scheme) outcome" where
  "get_boot_time s =
     (case boot_time_response s of
        None \<Rightarrow> Done 0 (k_err ''Could not get time at boot!'' [] s)
      | Some t \<Rightarrow> Done t s)"

section \<open>Other processors\<close>

text \<open>Without a response, the code writes to the null pointer it has just tested.\<close>

definition get_mp :: "'z boot_scheme \<Rightarrow> (mp_info list, 'z boot_scheme) outcome" where
  "get_mp s =
     (case mp_response s of
        None \<Rightarrow> Stop (Fault ''null MP response'')
          (k_err (''Failed to get MP info from Limine! Failing safe and asuming only '' @ ''bootstrap proc.'') [] s)
      | Some cpus \<Rightarrow> Done cpus s)"

text \<open>The first processor with the identity.\<close>

fun set_goto :: "u64 \<Rightarrow> u32 \<Rightarrow> mp_info list \<Rightarrow> mp_info list option" where
  "set_goto address pid [] = None"
| "set_goto address pid (c # cs) =
     (if mp_processor_id c = pid then Some (c\<lparr>mp_goto_address := address\<rparr> # cs)
      else map_option (Cons c) (set_goto address pid cs))"

definition ap_goto :: "u64 \<Rightarrow> u32 \<Rightarrow> 'z boot_scheme \<Rightarrow> (unit, 'z boot_scheme) outcome" where
  "ap_goto address pid s =
     bindO (get_mp s) (\<lambda>cpus s.
     case set_goto address pid cpus of
       Some cpus' \<Rightarrow> Done () (s\<lparr>mp_response := Some cpus'\<rparr>)
     | None \<Rightarrow> Done () (k_wrn ''No such AP %d'' [Num (ucast pid)] s))"

text \<open>Only debug messages, which are compiled to nothing.\<close>

definition setup_multiproc :: "'z boot_scheme \<Rightarrow> (unit, 'z boot_scheme) outcome" where
  "setup_multiproc s = bindO (get_mp s) (\<lambda>cpus s. Done () s)"

section \<open>The banner\<close>

definition say :: "string \<Rightarrow> fmt_arg list \<Rightarrow> 'z console_scheme \<Rightarrow> (unit, 'z console_scheme) outcome" where
  "say fmt args s = bindO (printf fmt args s) (\<lambda>_ s. Done () s)"

definition version_string :: string where "version_string = ''0.0.5''"

definition notice :: string where
  "notice = ''Notice: Due to recent California and Colorado laws requiring age verification'' @ [CHR 0x0A] @
     ''for all OS'' @ [CHR 0x27] @ ''s, adaOS is not licensed for use in California or Colorado.'' @ [CHR 0x0A] @
     ''Please, complain to your local representatives! (see '' @
     ''https://www.house.gov/representatives/find-your-representative)'' @ [CHR 0x0A]"

text \<open>The title, between two double lines, slanted.\<close>

definition print_title :: "'z console_scheme \<Rightarrow> (unit, 'z console_scheme) outcome" where
  "print_title s =
     bindO (k_putc 205 (set_skew 1 (set_text_colour 0xe6a6a1 s))) (\<lambda>_ s.
     bindO (say ''Welcome to adaOS, version %s!'' [Str version_string] s) (\<lambda>_ s.
     bindO (k_putc 205 s) (\<lambda>_ s.
     bindO (crlf s) (\<lambda>_ s.
     Done () (set_text_colour 0xe0e0e0 (set_skew 0 s))))))"

definition print_date :: "u64 \<Rightarrow> 'z boot_scheme \<Rightarrow> (unit, 'z boot_scheme) outcome" where
  "print_date ts s =
     bindO (shown get_boot_time s) (\<lambda>t s.
     bindO (ms_to_iso8601 (t * 1000) ts 25 s) (\<lambda>_ s.
     case string_at (mem s) ts 25 of
       None \<Rightarrow> Stop (Fault ''text not terminated'') s
     | Some date \<Rightarrow> say (''The date is %s.'' @ [CHR 0x0A, CHR 0x0A]) [Str date] s))"

definition print_banner :: "u64 \<Rightarrow> 'z boot_scheme \<Rightarrow> (unit, 'z boot_scheme) outcome" where
  "print_banner ts s =
     bindO (print_title s) (\<lambda>_ s.
     bindO (print_date ts s) (\<lambda>_ s.
     bindO (say (''Copyright (C) 2026 adaOS contributors.'' @ [CHR 0x0A]) [] s) (\<lambda>_ s.
     bindO (print_random_logo s) (\<lambda>_ s.
     bindO (say notice [] (set_text_colour 0xffff66 s)) (\<lambda>_ s.
     bindO (say (''See LICENCE in the source directory for details.'' @ [CHR 0x0A]) [] (set_text_colour 0xffffff s)) (\<lambda>_ s.
     bindO (crlf s) (\<lambda>_ s.
     shown print_free_ram s)))))))"

section \<open>The phases of the boot\<close>

definition PIT_SLEEP_TEST_MS :: u32 where "PIT_SLEEP_TEST_MS = 10"
definition PIT_SLEEP_TEST_TOLERANCE :: u32 where "PIT_SLEEP_TEST_TOLERANCE = 1"
definition APIC_SLEEP_TEST_MS :: u32 where "APIC_SLEEP_TEST_MS = 10"
definition APIC_SLEEP_TEST_TOLERANCE :: u32 where "APIC_SLEEP_TEST_TOLERANCE = 1"
definition IA32_EFER :: u32 where "IA32_EFER = 0xC0000080"

lemmas boot_consts = PIT_SLEEP_TEST_MS_def PIT_SLEEP_TEST_TOLERANCE_def APIC_SLEEP_TEST_MS_def
  APIC_SLEEP_TEST_TOLERANCE_def IA32_EFER_def

definition boot_screen :: "boot_env \<Rightarrow> 'z boot_scheme \<Rightarrow> (framebuffer, 'z boot_scheme) outcome" where
  "boot_screen env s =
     bindO (get_framebuffer s) (\<lambda>fb s.
     bindO (calculate_screen_constants fb s) (\<lambda>_ s.
     bindO (set_state FRAMEBUFFER_INITIALIZED 1 s) (\<lambda>_ s.
     bindO (shown get_boot_time s) (\<lambda>t s.
     bindO (print_banner (env_ts env) (setup_random (ucast (t * 19650218)) s)) (\<lambda>_ s.
     Done fb s)))))"

definition boot_cpu :: "boot_env \<Rightarrow> 'z boot_scheme \<Rightarrow> (unit, 'z boot_scheme) outcome" where
  "boot_cpu env s =
     bindO (if \<not> env_check_cpuid env then put_err ''CPUID not supported!'' [] s
            else
              bindO (set_state CPUID_SUPPORTED 1 s) (\<lambda>_ s.
              bindO (put_log ''CPU info: %s (%s).'' [Str (get_cpu_name (env_cpuid env)), Str (get_cpu_vendor (env_cpuid env))] s) (\<lambda>_ s.
              put_log ''Hypervisor: %s'' [Str (get_hypervisor_vendor (env_cpuid env))] s))) (\<lambda>_ s.
     crlf s)"

definition boot_tables :: "boot_env \<Rightarrow> 'z boot_scheme \<Rightarrow> (unit, 'z boot_scheme) outcome" where
  "boot_tables env s =
     bindO (setup_gdt (env_statics env) s) (\<lambda>_ s.
     bindO (set_state GDT_INITIALIZED 1 s) (\<lambda>_ s.
     bindO (put_ok ''GDT Init'' [] s) (\<lambda>_ s.
     bindO (setup_idt (env_statics env) s) (\<lambda>_ s.
     bindO (set_state IDT_INITIALIZED 1 s) (\<lambda>_ s.
     bindO (put_ok ''IDT Init'' [] s) (\<lambda>_ s.
     bindO (set_state PIC_INITIALIZED 1 (setup_pic s)) (\<lambda>_ s.
     put_ok ''Setup PIC'' [] s)))))))"

text \<open>The measured sleep of the interval timer; the differences are unsigned.\<close>

definition outside :: "u64 \<Rightarrow> u32 \<Rightarrow> u32 \<Rightarrow> bool" where
  "outside difference goal tolerance \<longleftrightarrow>
     difference > ucast (goal + tolerance) \<or> difference < ucast (goal - tolerance)"

definition test_pit :: "'z console_scheme \<Rightarrow> (unit, 'z console_scheme) outcome" where
  "test_pit s =
     (let old_time = get_pit_ticks s in
      bindO (pit_sleep_ms PIT_SLEEP_TEST_MS s) (\<lambda>_ s.
      let difference = get_pit_ticks s - old_time in
      if outside difference PIT_SLEEP_TEST_MS PIT_SLEEP_TEST_TOLERANCE then
        put_test_fail ''PIT sleep time was off by %dms!'' [Num (difference - ucast PIT_SLEEP_TEST_MS)] s
      else
        bindO (put_test_pass ''PIT Sleep'' [] s) (\<lambda>_ s.
        bindO (play_sound 1000 s) (\<lambda>_ s.
        bindO (pit_sleep_ms 40 s) (\<lambda>_ s.
        bindO (sound_off s) (\<lambda>_ s.
        bindO (set_state PIT_INITIALIZED 1 s) (\<lambda>_ s.
        set_state PIT_TIMER_RUNNING 1 s)))))))"

definition boot_devices :: "'z boot_scheme \<Rightarrow> (unit, 'z boot_scheme) outcome" where
  "boot_devices s =
     bindO (shown (setup_serial 19200) s) (\<lambda>_ s.
     bindO (put_ok ''Setup Serial'' [] s) (\<lambda>_ s.
     bindO (setup_pit s) (\<lambda>_ s.
     bindO (put_ok ''Setup PIT as Bootstrap Timer'' [] s) (\<lambda>_ s.
     bindO (test_pit s) (\<lambda>_ s.
     bindO (read_msr IA32_EFER (write_msr IA32_EFER 0x901 s)) (\<lambda>efer s.
     if efer \<noteq> 0xd01 then put_test_fail ''IA32_EFER Error: could not set IA_32e mode'' [] s
     else put_test_pass ''IA32_EFER'' [] s))))))"

definition boot_memory :: "boot_env \<Rightarrow> framebuffer \<Rightarrow> 'z boot_scheme \<Rightarrow> (unit, 'z boot_scheme) outcome" where
  "boot_memory env fb s =
     bindO (shown (setup_pmm (env_bitmap env)) s) (\<lambda>_ s.
     bindO (put_ok ''Setup PMM'' [] s) (\<lambda>_ s.
     bindO (shown pp_alloc s) (\<lambda>p s.
     bindO (if p = 0 then Done False s else bindO (shown get_hhdm s) (\<lambda>hhdm s. Done (p < hhdm) s)) (\<lambda>sane s.
     bindO (if sane then bindO (put_test_pass ''PMM Pointer Sanity Check'' [] s) (\<lambda>_ s. set_state PMM_INITIALIZED 1 s)
            else put_test_fail ''PMM Pointer was Bogus!'' [] s) (\<lambda>_ s.
     bindO (shown (pp_free p) s) (\<lambda>_ s.
     bindO (shown (setup_vmm (env_sections env) fb) s) (\<lambda>_ s.
     bindO (set_state VMM_INITIALIZED 1 s) (\<lambda>_ s.
     bindO (put_ok ''Setup VMM'' [] s) (\<lambda>_ s.
     bindO (shown setup_heap s) (\<lambda>_ s.
     bindO (put_ok ''Setup Heap'' [] s) (\<lambda>_ s.
     bindO (shown (kmalloc (PAGE_SIZE * 3 div 2)) s) (\<lambda>p s.
     bindO (if p = 0 then Done False s else bindO (shown get_hhdm s) (\<lambda>hhdm s. Done (p > hhdm) s)) (\<lambda>sane s.
     bindO (if sane then bindO (put_test_pass ''Heap Pointer Sanity Check'' [] s) (\<lambda>_ s. set_state HEAP_INITIALIZED 1 s)
            else put_test_fail ''Heap Pointer was Bogus!'' [] s) (\<lambda>_ s.
     shown (kfree p) s))))))))))))))"

definition test_apic :: "'z console_scheme \<Rightarrow> (unit, 'z console_scheme) outcome" where
  "test_apic s =
     (let apic_old_time = get_apic_ticks s; pit_old_time = get_pit_ticks s in
      bindO (apic_sleep_ms APIC_SLEEP_TEST_MS s) (\<lambda>_ s.
      let apic_difference = get_apic_ticks s - apic_old_time;
          pit_difference = get_pit_ticks s - pit_old_time
      in if outside apic_difference APIC_SLEEP_TEST_MS APIC_SLEEP_TEST_TOLERANCE
            \<and> outside pit_difference APIC_SLEEP_TEST_MS APIC_SLEEP_TEST_TOLERANCE
         then put_test_fail ''APIC sleep time was off by %dms or APIC and PIT did not agree!''
           [Num (apic_difference - ucast APIC_SLEEP_TEST_MS)] s
         else bindO (put_test_pass ''APIC Sleep'' [] s) (\<lambda>_ s. set_state APIC_INITIALIZED 0xf0 s)))"

definition boot_apic :: "boot_env \<Rightarrow> 'z boot_scheme \<Rightarrow> (unit, 'z boot_scheme) outcome" where
  "boot_apic env s =
     bindO (shown bootstrap_apic s) (\<lambda>_ s.
     bindO (put_ok ''Bootstrap APIC Setup'' [] s) (\<lambda>_ s.
     bindO (test_apic s) (\<lambda>_ s.
     bindO (shown bootstrap_acpi s) (\<lambda>_ s.
     bindO (put_ok ''Parsed Basic ACPI Info'' [] s) (\<lambda>_ s.
     bindO (shown (setup_io_apic (env_entry env)) s) (\<lambda>_ s.
     put_ok ''Setup IO APIC(s)'' [] s))))))"

definition boot_end :: "'z boot_scheme \<Rightarrow> (unit, 'z boot_scheme) outcome" where
  "boot_end s =
     bindO (put_log ''At end of implemented features, hanging.'' [] s) (\<lambda>_ s.
     bindO (crlf s) (\<lambda>_ s.
     bindO (say (''Press '' @ [CHR 0x27] @ ''Enter'' @ [CHR 0x27] @ '' in serial terminal to start kernel debug shell...'') [] s) (\<lambda>_ s.
     bindO (crlf s) (\<lambda>_ s. hcf s))))"

definition kmain :: "boot_env \<Rightarrow> 'z boot_scheme \<Rightarrow> (unit, 'z boot_scheme) outcome" where
  "kmain env s =
     (if \<not> base_revision_supported s then hcf s
      else
        bindO (boot_screen env s) (\<lambda>fb s.
        bindO (boot_cpu env s) (\<lambda>_ s.
        bindO (boot_tables env s) (\<lambda>_ s.
        bindO (boot_devices s) (\<lambda>_ s.
        bindO (boot_memory env fb s) (\<lambda>_ s.
        bindO (boot_apic env s) (\<lambda>_ s.
        boot_end s)))))))"

section \<open>The banner is shown\<close>

text \<open>The boot time of a machine whose clock shows a valid date up to the year 9999.\<close>

definition boot_time_valid :: "u64 option \<Rightarrow> bool" where
  "boot_time_valid r \<longleftrightarrow> (\<exists>y m d h mi sec. valid_date y m d \<and> 1970 \<le> y \<and> y \<le> 9999 \<and> h < 24 \<and> mi < 60 \<and> sec < 60
     \<and> r = Some (get_unix_epoch (of_nat sec) (of_nat mi) (of_nat h) (of_nat d) (of_nat m) (of_nat y)))"

text \<open>The part of the state that showing text and drawing random numbers leave as it is.\<close>

definition same_rest :: "'z console_scheme \<Rightarrow> 'z console_scheme \<Rightarrow> bool" where
  "same_rest r s \<longleftrightarrow> port_value s = port_value r \<and> msr_value s = msr_value r \<and> timer_irqs s = timer_irqs r
     \<and> pit_ticks s = pit_ticks r \<and> timer_goal_frequency s = timer_goal_frequency r \<and> global_state s = global_state r
     \<and> console.more s = console.more r"

text \<open>
  What the banner relies on and keeps: text can be shown, the memory map and the boot time are
  there, nothing has panicked and the timer is not set up yet, and the rest of the state is that of \<open>r\<close>.
\<close>

definition banner_ready ::
  "memmap_entry list \<Rightarrow> 'z boot_scheme \<Rightarrow> 'z boot_scheme \<Rightarrow> bool" where
  "banner_ready es r s \<longleftrightarrow> logo_ready s \<and> memmap_response s = Some es \<and> panics s = 0
     \<and> get_global_state s PIT_INITIALIZED = 0 \<and> boot_time_valid (boot_time_response s) \<and> same_rest r s"

lemma banner_ready_quiet: "quiet s t \<Longrightarrow> banner_ready es r s \<Longrightarrow> banner_ready es r t"
  unfolding banner_ready_def using logo_ready_quiet [of s t]
  by (auto simp: quiet_def get_global_state_def same_rest_def)

lemma banner_ready_drawn: "drawn s t \<Longrightarrow> logo_ready t \<Longrightarrow> banner_ready es r s \<Longrightarrow> banner_ready es r t"
  unfolding banner_ready_def by (auto simp: drawn_def quiet_def get_global_state_def same_rest_def)

lemma banner_ready_set:
  "banner_ready es r s \<Longrightarrow> banner_ready es r (set_text_colour c s)" "banner_ready es r s \<Longrightarrow> banner_ready es r (set_skew n s)"
  "banner_ready es r s \<Longrightarrow> banner_ready es r (s\<lparr>mem := m\<rparr>)" "banner_ready es r s \<Longrightarrow> banner_ready es r (s\<lparr>klog := l\<rparr>)"
  by (auto simp: banner_ready_def logo_ready_def always_ready_def set_text_colour_def set_skew_def get_global_state_def same_rest_def)

lemma banner_ready_always: "banner_ready es r s \<Longrightarrow> always_ready s"
  by (simp add: banner_ready_def logo_ready_def)

lemma text_step:
  assumes "banner_ready es r s" and "\<exists>t. m = Done () t \<and> quiet s t"
  shows "\<exists>t. m = Done () t \<and> banner_ready es r t"
  using assms banner_ready_quiet by blast

text \<open>The characters of the upper half of the font are drawn, but not sent to the serial line.\<close>

lemma k_putc_high:
  assumes "always_ready s" and "128 \<le> c" and "c < 256"
  shows "\<exists>t. k_putc c s = Done () t \<and> quiet s t"
proof -
  let ?s = "print_bitmap (font ! unat c) (calculate_x s) (calculate_y s) s"
  have "always_ready ?s" using print_bitmap_moved assms(1) by (rule console_moved_ready)
  then obtain t where "advance_cursor ?s = Done () t" using advance_cursor_ready by blast
  moreover have "unat c < length font" "\<not> c > 256" "\<not> c < 128" "c \<noteq> 0x0A" "c \<noteq> 0x0D"
    using assms(2,3) by (auto simp: font_def word_less_nat_alt word_le_nat_alt)
  ultimately have "k_putc c s = Done () t" by (simp add: k_putc_def Let_def)
  then show ?thesis using quiet_moved [OF k_putc_moved] by blast
qed

lemma say_done:
  assumes "banner_ready es r s" and "good_line (fmt, args)"
  shows "\<exists>t. say fmt args s = Done () t \<and> banner_ready es r t"
proof -
  obtain str where "vsn fmt args = Some str" "ascii str" using good_line_text [OF assms(2)] by blast
  then obtain r t where "printf fmt args s = Done r t" "quiet s t"
    using vprintf_ready [OF banner_ready_always [OF assms(1)]] unfolding printf_def vprintf_def by blast
  then show ?thesis using banner_ready_quiet assms(1) by (auto simp: say_def)
qed

lemma plain_line: "ascii str \<Longrightarrow> CHR ''%'' \<notin> set str \<Longrightarrow> good_line (str, [])"
  by (simp add: good_line_def plain_text prints_end)

lemma crlf_done: "banner_ready es r s \<Longrightarrow> \<exists>t. crlf s = Done () t \<and> banner_ready es r t"
  using k_puts_ready [OF banner_ready_always, of es r s "[CHR 0x0D, CHR 0x0A]"] banner_ready_quiet
  by (auto simp: crlf_def no_nul_def)

lemma print_title_done:
  assumes "banner_ready es r s"
  shows "\<exists>t. print_title s = Done () t \<and> banner_ready es r t"
proof -
  have high: "\<exists>t. k_putc 205 s = Done () t \<and> banner_ready es r t" if "banner_ready es r s" for s :: "'a boot_scheme"
    by (rule text_step [OF that]) (rule k_putc_high [OF banner_ready_always [OF that]], simp_all)
  obtain a where a: "k_putc 205 (set_skew 1 (set_text_colour 0xe6a6a1 s)) = Done () a" "banner_ready es r a"
    using high [OF banner_ready_set(2) [OF banner_ready_set(1) [OF assms]]] by blast
  have "good_line (''Welcome to adaOS, version %s!'', [Str version_string])"
    by (simp add: good_line_def plain_defs prints_def version_string_def conversion_defs Let_def)
  then obtain b where b: "say ''Welcome to adaOS, version %s!'' [Str version_string] a = Done () b" "banner_ready es r b"
    using say_done [OF a(2)] by blast
  obtain c where c: "k_putc 205 b = Done () c" "banner_ready es r c" using high [OF b(2)] by blast
  obtain d where "crlf c = Done () d" "banner_ready es r d" using crlf_done [OF c(2)] by blast
  then show ?thesis using a(1) b(1) c(1) by (simp add: print_title_def banner_ready_set)
qed

text \<open>The date in memory, which ends inside its buffer whatever the year.\<close>

lemma string_at_ascii:
  "n < N \<Longrightarrow> m (a + of_nat n) = 0 \<Longrightarrow> \<forall>i < n. m (a + of_nat i) < 128 \<Longrightarrow> \<exists>str. string_at m a N = Some str \<and> ascii str"
proof (induction N arbitrary: a n)
  case (Suc N)
  show ?case
  proof (cases "m a = 0 \<or> n = 0")
    case False
    then obtain k where k: "n = Suc k" by (cases n) auto
    have shift: "a + 1 + of_nat i = a + of_nat (Suc i)" for i :: nat by (simp add: ac_simps)
    have "\<exists>str. string_at m (a + 1) N = Some str \<and> ascii str"
      by (rule Suc.IH [of k]) (use Suc.prems k in \<open>auto simp: shift simp del: of_nat_Suc\<close>)
    moreover have "m a < 128" using Suc.prems(3) k by (auto dest: spec [of _ 0])
    then have "(of_char (char_of (unat (m a)) :: char) :: nat) < 128"
      by (simp add: word_less_nat_alt take_bit_nat_eq_self)
    ultimately show ?thesis using False by auto
  qed (use Suc.prems(2) in auto)
qed simp

lemma print_date_done:
  assumes "banner_ready es r s" and "ts \<noteq> 0"
  shows "\<exists>t. print_date ts s = Done () t \<and> banner_ready es r t"
proof -
  obtain y m d h mi sec where date: "valid_date y m d" "1970 \<le> y" "y \<le> 9999" "h < 24" "mi < 60" "sec < 60"
    and time: "boot_time_response s = Some (get_unix_epoch (of_nat sec) (of_nat mi) (of_nat h) (of_nat d) (of_nat m) (of_nat y))"
      (is "_ = Some ?e")
    using assms(1) by (auto simp: banner_ready_def boot_time_valid_def)
  have got: "shown get_boot_time s = Done ?e s"
    by (simp add: shown_def get_boot_time_def time put_events_def)
  let ?str = "iso8601_text y m d h mi sec 0"
  have v: "vsn iso8601_format (iso8601_args (civil_of_ms (?e * 1000))) = Some ?str"
    using iso8601_of_epoch [OF date, of 0] by (simp add: mult.commute)
  then have "ascii ?str"
    by (rule vsn_ascii) (auto simp: iso8601_format_def iso8601_args_def plain_defs)
  then have code: "(of_nat (of_char (?str ! i)) :: u8) < 128" if "i < 24" for i
    using that length_iso8601_text by (auto simp: ascii_def of_nat_of_char)
  obtain u where u: "vsnprintf ts 25 iso8601_format (iso8601_args (civil_of_ms (?e * 1000))) s = Done (of_nat (length ?str)) u"
    and mem: "mem u p = (if unat (p - ts) < min (length ?str) (unat (25 :: u64) - 1)
        then of_nat (of_char (?str ! unat (p - ts)))
        else if unat (p - ts) = min (length ?str) (unat (25 :: u64) - 1) then 0 else mem s p)" for p
    using vsnprintf_mem [OF v assms(2), of 25 s] by (auto simp: length_iso8601_text)
  obtain mm where mm: "u = s\<lparr>mem := mm\<rparr>"
    using u assms(2) by (auto simp: vsnprintf_def Let_def v)
  have "mem u (ts + of_nat 24) = 0" by (simp add: mem length_iso8601_text)
  moreover have "\<forall>i < 24. mem u (ts + of_nat i) < 128"
    using code by (simp add: mem length_iso8601_text unat_of_nat_less)
  ultimately obtain str where str: "string_at (mem u) ts 25 = Some str" "ascii str"
    using string_at_ascii [of 24 25 "mem u" ts] by auto
  have "good_line (''The date is %s.'' @ [CHR 0x0A, CHR 0x0A], [Str str])"
    using str(2) by (simp add: good_line_def plain_defs prints_def conversion_defs Let_def)
  then obtain t where "say (''The date is %s.'' @ [CHR 0x0A, CHR 0x0A]) [Str str] u = Done () t" "banner_ready es r t"
    using say_done banner_ready_set(3) [OF assms(1)] mm by blast
  then show ?thesis using got u str(1) by (simp add: print_date_def ms_to_iso8601_def snprintf_def)
qed

text \<open>The report of the free memory, and the panic when there is less than half a GiB.\<close>

lemma run_panic_early:
  assumes "banner_ready es r s" and "ascii msg" and "no_nul msg"
  shows "\<exists>t. run_panic msg s = Stop Halted t"
proof -
  let ?s = "s\<lparr>panics := 1\<rparr>"
  have "always_ready ?s" using banner_ready_always [OF assms(1)] by (simp add: always_ready_def)
  moreover have "ascii (''Unrecoverable error: '' @ msg @ '' Halt.'')" using assms(2) by simp
  ultimately obtain u where u: "put_err ''Unrecoverable error: %s Halt.'' [Str msg] ?s = Done () u" "quiet ?s u"
    using tagged_line_ready [OF _ panic_text [OF assms(3)], of ?s "''ERR''" "''] Kernel: ''" ERR_TEXT_COLOUR]
    unfolding put_err_def by (auto simp: no_nul_def)
  have "get_global_state u PIT_INITIALIZED = 0"
    using quiet_fields [OF u(2)] assms(1) by (simp add: banner_ready_def get_global_state_def)
  then show ?thesis using u(1) assms(1) by (simp add: run_panic_def hcf_def banner_ready_def)
qed

definition free_memory :: "memmap_entry list \<Rightarrow> u64 option" where
  "free_memory es = map_option snd (scan_entries es [] 0)"

lemma enough_memory: "(len div 1073741824 < 1 \<and> (len mod 1073741824) * 100 div 1073741824 < 50) \<longleftrightarrow> unat (len :: u64) < 2 ^ 29"
proof (cases "unat len < 1073741824")
  case True
  have "unat (len * 100) = unat len * 100" using True by (simp add: unat_word_ariths)
  moreover have "len div 1073741824 = 0" "len mod 1073741824 = len"
    using True by (simp_all add: word_unat_eq_iff unat_div unat_mod)
  ultimately show ?thesis by (auto simp: word_less_nat_alt unat_div)
next
  case False
  then have "0 < unat len div 1073741824" by (simp add: div_greater_zero_iff)
  then show ?thesis using False by (simp add: word_less_nat_alt unat_div)
qed

lemma print_free_ram_shown:
  assumes "banner_ready es r s" and "free_memory es = Some len"
  shows "if unat len < 2 ^ 29 then \<exists>t. shown print_free_ram s = Stop Halted t
    else \<exists>t. shown print_free_ram s = Done () t \<and> banner_ready es r t"
proof -
  let ?line = "''%d.%02d GiB RAM free.''" and ?args = "[Num (len div 1073741824), Num ((len mod 1073741824) * 100 div 1073741824)]"
  let ?msg = "''Insufficient memory. adaOS probably needs '' @ [CHR 0x0A] @ ''more than 0.5GiB of memory free.''"
  obtain cs where scan: "scan_entries es [] 0 = Some (cs, len)" using assms(2) by (auto simp: free_memory_def)
  have run: "print_free_ram (s\<lparr>klog := []\<rparr>) =
      (if unat len < 2 ^ 29 then Stop (Panic ?msg) (s\<lparr>klog := [LogMsg Lvl_log ?line ?args]\<rparr>)
       else Done () (s\<lparr>klog := [LogMsg Lvl_log ?line ?args]\<rparr>))"
    using assms(1) scan unfolding enough_memory [symmetric]
    by (simp add: print_free_ram_def get_memory_descriptor_def get_memmap_def banner_ready_def Let_def emit_def)
  have "good_line (?line, ?args)"
    by (simp add: good_line_def plain_defs prints_def conversion_defs Let_def)
  then obtain t where t: "put_log ?line ?args (s\<lparr>klog := klog s\<rparr>) = Done () t" "banner_ready es r t"
    using put_log_done [OF banner_ready_always, of es r s] banner_ready_quiet assms(1) by fastforce
  have "ascii ?msg" "no_nul ?msg" by (simp_all add: no_nul_def)
  then have "\<exists>u. (run_panic ?msg t :: (unit, 'a boot_scheme) outcome) = Stop Halted u" by (rule run_panic_early [OF t(2)])
  then show ?thesis using run t by (simp add: shown_def put_events_def)
qed

text \<open>
  The banner comes to an end: on a machine whose serial line takes its bytes, with a seeded
  generator and a valid boot time, \<open>print_banner\<close> writes the title, the date, a logo, the notices and
  the free memory and returns, when the free entries of the memory map have half a GiB at least;
  with less, the machine halts after the message of the panic.
\<close>

lemma banner_shown:
  assumes "banner_ready es r s" and "ts \<noteq> 0" and "free_memory es = Some len"
  shows "if unat len < 2 ^ 29 then \<exists>t. print_banner ts s = Stop Halted t
    else \<exists>t. print_banner ts s = Done () t \<and> banner_ready es r t"
proof -
  obtain a where a: "print_title s = Done () a" "banner_ready es r a" using print_title_done [OF assms(1)] by blast
  obtain b where b: "print_date ts a = Done () b" "banner_ready es r b" using print_date_done [OF a(2) assms(2)] by blast
  obtain c where c: "say (''Copyright (C) 2026 adaOS contributors.'' @ [CHR 0x0A]) [] b = Done () c" "banner_ready es r c"
    using say_done [OF b(2) plain_line] by force
  have "logo_ready c" using c(2) by (simp add: banner_ready_def)
  then obtain d where d: "print_random_logo c = Done () d" "banner_ready es r d"
    using print_random_logo_done banner_ready_drawn c(2) by blast
  have "good_line (notice, [])" by (rule plain_line) (simp_all add: notice_def)
  then obtain e where e: "say notice [] (set_text_colour 0xffff66 d) = Done () e" "banner_ready es r e"
    using say_done banner_ready_set(1) [OF d(2)] by blast
  have "good_line (''See LICENCE in the source directory for details.'' @ [CHR 0x0A], [])"
    by (rule plain_line) simp_all
  then obtain f where f: "say (''See LICENCE in the source directory for details.'' @ [CHR 0x0A]) []
      (set_text_colour 0xffffff e) = Done () f" "banner_ready es r f"
    using say_done banner_ready_set(1) [OF e(2)] by blast
  obtain g where g: "crlf f = Done () g" "banner_ready es r g" using crlf_done [OF f(2)] by blast
  have "print_banner ts s = shown print_free_ram g"
    using a(1) b(1) c(1) d(1) e(1) f(1) g(1) by (simp add: print_banner_def)
  then show ?thesis using print_free_ram_shown [OF g(2) assms(3)] by simp
qed

definition example_boot :: boot where
  "example_boot = (shell.extend example_shell (boot.fields True (Some []) (Some (get_unix_epoch 59 30 12 29 2 2024)) None))
     \<lparr>memmap_response := Some [\<lparr>me_base = 0x100000, me_length = 0x40000000, me_type = 0\<rparr>],
      local_state := local_state (setup_random 5489 example_rng)\<rparr>"

section \<open>The timer test\<close>

text \<open>What text, sounds and sleeping change.\<close>

definition waited :: "'z console_scheme \<Rightarrow> 'z console_scheme \<Rightarrow> bool" where
  "waited s t \<longleftrightarrow> (\<exists>m tr x y c p q. t = s\<lparr>mem := m, io := io s @ tr, cursor_x := x, cursor_y := y, on_colour := c,
     pit_ticks := p, apic_ticks := q\<rparr>)"

lemma waited_trans: "waited s t \<Longrightarrow> waited t u \<Longrightarrow> waited s u"
  unfolding waited_def by clarsimp blast

lemma waited_quiet:
  assumes "quiet s t" shows "waited s t"
proof -
  obtain m tr x y c where "t = s\<lparr>mem := m, io := io s @ tr, cursor_x := x, cursor_y := y, on_colour := c\<rparr>"
    using assms by (auto simp: quiet_def)
  then have "t = s\<lparr>mem := m, io := io s @ tr, cursor_x := x, cursor_y := y, on_colour := c,
     pit_ticks := pit_ticks s, apic_ticks := apic_ticks s\<rparr>" by simp
  then show ?thesis unfolding waited_def by blast
qed

lemma waited_slept:
  assumes "t = s\<lparr>io := io s @ tr, pit_ticks := p, apic_ticks := q\<rparr>" shows "waited s t"
proof -
  have "t = s\<lparr>mem := mem s, io := io s @ tr, cursor_x := cursor_x s, cursor_y := cursor_y s, on_colour := on_colour s,
     pit_ticks := p, apic_ticks := q\<rparr>" using assms by simp
  then show ?thesis unfolding waited_def by blast
qed

lemma waited_accessed:
  assumes "accessed s t" shows "waited s t"
proof -
  obtain tr where "t = s\<lparr>io := io s @ tr\<rparr>" using assms by (auto simp: accessed_def)
  then have "t = s\<lparr>io := io s @ tr, pit_ticks := pit_ticks s, apic_ticks := apic_ticks s\<rparr>" by simp
  then show ?thesis by (rule waited_slept)
qed

lemma test_pit_done:
  assumes "always_ready s" and "timers_run K s" and "K \<le> 3" and "unat (pit_ticks s) + 100 < 2 ^ 64"
    and "PIT_TIMER_RUNNING < length (global_state s)"
  shows "\<exists>t. waited s t \<and> test_pit s = Done () (t\<lparr>global_state := (global_state s)[PIT_INITIALIZED := 1, PIT_TIMER_RUNNING := 1]\<rparr>)"
proof -
  have irqs: "timer_goal_frequency s = 1000" "\<forall>tr. 1 \<le> fst (timer_irqs s tr) \<and> fst (timer_irqs s tr) \<le> K"
    using assms(2) by (auto simp: timers_run_def)
  have "(0 :: u32) < 10" "unat (10 :: u32) * 1000 < 2 ^ 32" "unat (pit_ticks s) + unat (10 :: u32) + K < 2 ^ 64"
    using assms(3,4) by simp_all
  then obtain a n p q where a: "pit_sleep_ms 10 s = Done () a"
    and lo: "unat (pit_ticks s) + unat (10 :: u32) - 1 \<le> unat (pit_ticks a)"
    and hi: "unat (pit_ticks a) < unat (pit_ticks s) + unat (10 :: u32) - 1 + K"
    and at: "a = s\<lparr>io := io s @ [PortOut PIT_CONTROL_PORT 0x36, PortOut PIT_CHANNEL0_PORT 169, PortOut PIT_CHANNEL0_PORT 4]
      @ replicate n Hlt, pit_ticks := p, apic_ticks := q\<rparr>"
    by (rule pit_sleep_done [OF irqs(1) _ _ irqs(2)])
  have d: "unat (pit_ticks a - pit_ticks s) = unat (pit_ticks a) - unat (pit_ticks s)"
    using lo by (intro unat_sub) (simp add: word_le_nat_alt)
  then have inside: "\<not> outside (get_pit_ticks a - get_pit_ticks s) 10 1"
    using lo hi assms(3) by (simp add: outside_def get_pit_ticks_def word_less_nat_alt) linarith
  have "always_ready a" using assms(1) at by (simp add: always_ready_def)
  then obtain b where b: "put_test_pass ''PIT Sleep'' [] a = Done () b" "quiet a b"
    using tagged_line_ready [of a "''PIT Sleep''" "[]" "''PIT Sleep''" "''TEST PASSED''" "''] ''" OK_TEXT_COLOUR]
    unfolding put_test_pass_def by (auto simp: no_nul_def)
  obtain c where c: "play_sound 1000 b = Done () c" "accessed b c" using play_sound_done [of 1000 b] by auto
  have ticks: "pit_ticks c = pit_ticks a" and gs: "global_state c = global_state s" and tc: "timers_run K c"
    using b(2) c(2) assms(2) at by (auto simp: quiet_def accessed_def timers_run_def)
  then have run: "timer_goal_frequency c = 1000" "\<forall>tr. 1 \<le> fst (timer_irqs c tr) \<and> fst (timer_irqs c tr) \<le> K"
    by (auto simp: timers_run_def)
  have "(0 :: u32) < 40" "unat (40 :: u32) * 1000 < 2 ^ 32" "unat (pit_ticks c) + unat (40 :: u32) + K < 2 ^ 64"
    using hi assms(3,4) ticks by simp_all
  then obtain e n' p' q' where e: "pit_sleep_ms 40 c = Done () e"
    and et: "e = c\<lparr>io := io c @ [PortOut PIT_CONTROL_PORT 0x36, PortOut PIT_CHANNEL0_PORT 169, PortOut PIT_CHANNEL0_PORT 4]
      @ replicate n' Hlt, pit_ticks := p', apic_ticks := q'\<rparr>"
    by (rule pit_sleep_done [OF run(1) _ _ run(2)])
  obtain f where f: "sound_off e = Done () f" "accessed e f" using sound_off_done by blast
  then have "global_state f = global_state s" using et gs by (auto simp: accessed_def)
  then have "test_pit s = Done () (f\<lparr>global_state := (global_state s)[PIT_INITIALIZED := 1, PIT_TIMER_RUNNING := 1]\<rparr>)"
    using a inside b(1) c(1) e f(1) assms(5)
    by (simp add: test_pit_def boot_consts Let_def set_state_def state_indices)
  then show ?thesis
    using waited_slept [OF at] waited_quiet [OF b(2)] waited_accessed [OF c(2)] waited_slept [OF et] waited_accessed [OF f(2)]
    by (meson waited_trans)
qed

text \<open>
  The interval timer passes its test: with a timer that interrupts between one and three times
  while the processor halts, the measured sleep of 10 ms, which is one tick short, is 9 to 11 ticks
  long and inside the tolerance; the chime is played, and both flags of the timer are set.
\<close>

lemma pit_self_test_passes:
  assumes "always_ready s" and "timers_run K s" and "K \<le> 3" and "unat (pit_ticks s) + 100 < 2 ^ 64"
    and "PIT_TIMER_RUNNING < length (global_state s)"
  shows "\<exists>t. test_pit s = Done () t \<and> get_global_state t PIT_INITIALIZED = 1 \<and> get_global_state t PIT_TIMER_RUNNING = 1"
  using test_pit_done [OF assms(1-4) assms(5)] assms(5) by (auto simp: get_global_state_def state_indices)

lemma pit_self_test_passes_example: "\<exists>t. test_pit example_boot = Done () t \<and> get_global_state t PIT_INITIALIZED = 1"
proof -
  have "always_ready example_boot" "timers_run 1 example_boot" "unat (pit_ticks example_boot) + 100 < 2 ^ 64"
    "PIT_TIMER_RUNNING < length (global_state example_boot)"
    by (simp_all add: always_ready_def timers_run_def example_boot_def shell.defs boot.defs example_shell_def descriptors.defs
        example_descriptors_def example_logger_def logger.defs console.defs serial_consts state_indices)
  then show ?thesis using pit_self_test_passes [of example_boot 1] by auto
qed

section \<open>The end of the boot\<close>

text \<open>\<open>kmain\<close> never returns, and without a boot loader that speaks the protocol it halts at once.\<close>

lemma bind_never_returns: "(\<And>a s. f a s \<noteq> Done () t) \<Longrightarrow> bindO m f \<noteq> Done () t"
  by (cases m) auto

lemma kmain_never_returns: "kmain env s \<noteq> Done () t"
  unfolding kmain_def boot_end_def hcf_def by (auto intro!: bind_never_returns)

lemma kmain_unsupported: "\<not> base_revision_supported s \<Longrightarrow> kmain env s = Stop Halted s"
  by (simp add: kmain_def hcf_def)

lemma kmain_no_framebuffer: "framebuffer_response s = None \<or> framebuffer_response s = Some [] \<Longrightarrow> kmain env s = Stop Halted s"
  by (auto simp: kmain_def boot_screen_def get_framebuffer_def hcf_def)

lemma ap_goto_starts_one:
  assumes "mp_response s = Some cpus" and "ap_goto address pid s = Done () t" and "pid \<in> mp_processor_id ` set cpus"
  shows "\<exists>pre c post. cpus = pre @ c # post \<and> mp_processor_id c = pid \<and> pid \<notin> mp_processor_id ` set pre
     \<and> mp_response t = Some (pre @ c\<lparr>mp_goto_address := address\<rparr> # post)"
proof -
  have "\<exists>pre c post. cs = pre @ c # post \<and> mp_processor_id c = pid \<and> pid \<notin> mp_processor_id ` set pre
     \<and> set_goto address pid cs = Some (pre @ c\<lparr>mp_goto_address := address\<rparr> # post)"
    if "pid \<in> mp_processor_id ` set cs" for cs
    using that
  proof (induction cs)
    case (Cons d cs)
    show ?case
    proof (cases "mp_processor_id d = pid")
      case True
      then show ?thesis by (intro exI [of _ "[]"]) auto
    next
      case False
      then obtain pre c post where "cs = pre @ c # post" "mp_processor_id c = pid" "pid \<notin> mp_processor_id ` set pre"
        "set_goto address pid cs = Some (pre @ c\<lparr>mp_goto_address := address\<rparr> # post)"
        using Cons by auto
      then show ?thesis using False by (intro exI [of _ "d # pre"] exI [of _ c] exI [of _ post]) simp
    qed
  qed simp
  from this [OF assms(3)] obtain pre c post where found: "cpus = pre @ c # post" "mp_processor_id c = pid"
    "pid \<notin> mp_processor_id ` set pre" "set_goto address pid cpus = Some (pre @ c\<lparr>mp_goto_address := address\<rparr> # post)"
    by blast
  then have "mp_response t = Some (pre @ c\<lparr>mp_goto_address := address\<rparr> # post)"
    using assms(1,2) by (auto simp: ap_goto_def get_mp_def split: option.splits if_splits)
  with found show ?thesis by blast
qed

end
