(* ===== verification/Boot_Order.thy ===== *)
theory Boot_Order
  imports Boot
begin

text \<open>
  The first half of \<open>kmain\<close> put together: on a machine that can be booted, the banner, the processor
  report, the descriptor tables, the devices and the test of the interval timer come to an end in
  their order, and \<open>kmain\<close> reaches the set-up of the memory with all their flags set.
\<close>

section \<open>Messages of the boot\<close>

text \<open>A line with one of the tags.\<close>

lemma tagged_done:
  assumes "always_ready s" and "good_line (fmt, args)"
    and "length tag < 256" "no_nul tag" "ascii tag" and "length after < 256" "no_nul after" "ascii after"
  shows "\<exists>t. tagged_line colour tag after fmt args s = Done () t \<and> quiet s t"
  using good_line_text [OF assms(2)] tagged_line_ready [OF assms(1) _ _ assms(3-8)] by blast

lemma put_done:
  assumes "always_ready s" and "good_line (fmt, args)"
  shows "\<exists>t. put_ok fmt args s = Done () t \<and> quiet s t"
    and "\<exists>t. put_err fmt args s = Done () t \<and> quiet s t"
    and "\<exists>t. put_test_pass fmt args s = Done () t \<and> quiet s t"
  unfolding put_ok_def put_err_def put_test_pass_def
  by (rule tagged_done [OF assms], simp_all add: no_nul_def)+

lemma crlf_quiet: "always_ready s \<Longrightarrow> \<exists>t. crlf s = Done () t \<and> quiet s t"
  using k_puts_ready [of s "[CHR 0x0D, CHR 0x0A]"] by (auto simp: crlf_def no_nul_def)

lemma always_ready_updates [simp]:
  "always_ready (s\<lparr>global_state := gs\<rparr>) = always_ready s"
  "always_ready (s\<lparr>timer_goal_frequency := f\<rparr>) = always_ready s"
  "always_ready (d\<lparr>gdt := g\<rparr>) = always_ready d" "always_ready (d\<lparr>idt := i\<rparr>) = always_ready d"
  "always_ready (d\<lparr>tss := x\<rparr>) = always_ready d" "always_ready (d\<lparr>cpu_loads := l\<rparr>) = always_ready d"
  "always_ready (s\<lparr>klog := k\<rparr>) = always_ready s"
  by (simp_all add: always_ready_def)

section \<open>The phases\<close>

text \<open>The report of the processor.\<close>

definition cpu_text_ok :: "boot_env \<Rightarrow> bool" where
  "cpu_text_ok env \<longleftrightarrow> ascii (get_cpu_name (env_cpuid env)) \<and> ascii (get_cpu_vendor (env_cpuid env))
     \<and> ascii (get_hypervisor_vendor (env_cpuid env))"

lemma boot_cpu_done:
  assumes "always_ready s" and "env_check_cpuid env \<Longrightarrow> cpu_text_ok env" and "CPUID_SUPPORTED < length (global_state s)"
  shows "\<exists>t. boot_cpu env s = Done () t \<and>
    quiet (s\<lparr>global_state := if env_check_cpuid env then (global_state s)[CPUID_SUPPORTED := 1] else global_state s\<rparr>) t"
proof (cases "env_check_cpuid env")
  case True
  let ?s = "s\<lparr>global_state := (global_state s)[CPUID_SUPPORTED := 1]\<rparr>"
  have strings: "cpu_text_ok env" using assms(2) True by simp
  have "good_line (''CPU info: %s (%s).'', [Str (get_cpu_name (env_cpuid env)), Str (get_cpu_vendor (env_cpuid env))])"
    using strings by (simp add: good_line_def plain_defs prints_def conversion_defs Let_def cpu_text_ok_def)
  then obtain a where a: "put_log ''CPU info: %s (%s).'' [Str (get_cpu_name (env_cpuid env)), Str (get_cpu_vendor (env_cpuid env))] ?s = Done () a"
    "quiet ?s a" "always_ready a"
    using put_log_done [of ?s] assms(1) by auto
  have "good_line (''Hypervisor: %s'', [Str (get_hypervisor_vendor (env_cpuid env))])"
    using strings by (simp add: good_line_def plain_defs prints_def conversion_defs Let_def cpu_text_ok_def)
  then obtain b where b: "put_log ''Hypervisor: %s'' [Str (get_hypervisor_vendor (env_cpuid env))] a = Done () b" "quiet a b" "always_ready b"
    using put_log_done [OF a(3)] by blast
  obtain c where "crlf b = Done () c" "quiet b c" using crlf_quiet [OF b(3)] by blast
  then show ?thesis using True a b assms(3) by (auto simp: boot_cpu_def set_state_def intro: quiet_trans)
next
  case False
  have "good_line (''CPUID not supported!'', [])" by (rule plain_line) simp_all
  then obtain a where a: "put_err ''CPUID not supported!'' [] s = Done () a" "quiet s a"
    using put_done(2) [OF assms(1)] by blast
  obtain b where "crlf a = Done () b" "quiet a b" using crlf_quiet [OF quiet_ready [OF a(2) assms(1)]] by blast
  then show ?thesis using False a by (auto simp: boot_cpu_def intro: quiet_trans)
qed

text \<open>The descriptor tables change nothing else.\<close>

lemma set_gdt_frame: "set_gdt i e s = Done () t \<Longrightarrow> t = s\<lparr>gdt := gdt t\<rparr>"
  by (auto simp: set_gdt_def split: if_splits)

lemma setup_gdt_frame:
  assumes "setup_gdt a s = Done () t"
  shows "t = s\<lparr>gdt := gdt t, tss := tss t, cpu_loads := cpu_loads t\<rparr>"
  using assms unfolding setup_gdt_def make_gdt_entry_def make_tts_gdt_entry_def set_gdt_def
  by (auto simp: outcome_simps Let_def load_table_def split: if_splits)

lemma setup_idt_frame:
  assumes "setup_idt a s = Done () t"
  shows "t = s\<lparr>idt := idt t, cpu_loads := cpu_loads t\<rparr>"
proof -
  have each: "for_each vs (\<lambda>v. idt_set_descriptor (ix v) (stub v) flags) u = Done () w \<Longrightarrow> w = u\<lparr>idt := idt w\<rparr>"
    for vs :: "'b list" and ix stub flags and u w :: "'a descriptors_scheme"
  proof (induction vs arbitrary: u)
    case (Cons v vs)
    then obtain x where x: "idt_set_descriptor (ix v) (stub v) flags u = Done () x"
      and "for_each vs (\<lambda>v. idt_set_descriptor (ix v) (stub v) flags) x = Done () w"
      by (auto simp: bindO_Done_iff)
    moreover obtain i where "x = u\<lparr>idt := i\<rparr>" using x by (auto simp: idt_set_descriptor_def split: if_splits)
    ultimately show ?case using Cons.IH [of x] by simp
  qed simp
  obtain u w where first: "for_each [0..<32] (\<lambda>v. idt_set_descriptor (of_nat v) (at_isr_stub a v) IDT_DEFAULT_FLAGS) s = Done () u"
    and second: "for_each handled_vectors (\<lambda>v. idt_set_descriptor v (at_isr a v) IDT_DEFAULT_FLAGS) u = Done () w"
    and last: "t = w\<lparr>cpu_loads := cpu_loads t\<rparr>"
    using assms unfolding setup_idt_def by (auto simp: outcome_simps load_table_def Let_def)
  obtain i j l where "u = s\<lparr>idt := i\<rparr>" "w = u\<lparr>idt := j\<rparr>" "t = w\<lparr>cpu_loads := l\<rparr>"
    using each [OF first] each [OF second] last by blast
  then show ?thesis by simp
qed

text \<open>Showing text commutes with the writes of the rest of the state.\<close>

lemma quiet_commutes:
  assumes "quiet s t"
    and "\<And>m tr x y c. f (s\<lparr>mem := m, io := io s @ tr, cursor_x := x, cursor_y := y, on_colour := c\<rparr>) =
      (f s)\<lparr>mem := m, io := io (f s) @ tr, cursor_x := x, cursor_y := y, on_colour := c\<rparr>"
  shows "quiet (f s) (f t)"
  using assms unfolding quiet_def by metis

lemma quiet_updates:
  "quiet s t \<Longrightarrow> quiet (s\<lparr>global_state := gs\<rparr>) (t\<lparr>global_state := gs\<rparr>)"
  "quiet d e \<Longrightarrow> quiet (d\<lparr>idt := i\<rparr>) (e\<lparr>idt := i\<rparr>)"
  "quiet d e \<Longrightarrow> quiet (d\<lparr>cpu_loads := l\<rparr>) (e\<lparr>cpu_loads := l\<rparr>)"
  by (erule quiet_commutes [where f = "\<lambda>s. s\<lparr>global_state := gs\<rparr>"], simp,
    erule quiet_commutes [where f = "\<lambda>s. s\<lparr>idt := i\<rparr>"], simp,
    erule quiet_commutes [where f = "\<lambda>s. s\<lparr>cpu_loads := l\<rparr>"], simp)

lemma quiet_io: "quiet s (s\<lparr>io := io s @ tr\<rparr>)"
  unfolding quiet_def
  by (intro exI [of _ "mem s"] exI [of _ tr] exI [of _ "cursor_x s"] exI [of _ "cursor_y s"] exI [of _ "on_colour s"]) simp

lemma boot_tables_done:
  assumes "always_ready s" and "length (gdt s) = 8" and "length (idt s) = IDT_VECTORS" and "PIC_INITIALIZED < length (global_state s)"
  shows "\<exists>g x i l t. boot_tables env s = Done () t
    \<and> quiet (s\<lparr>gdt := g, tss := x, idt := i, cpu_loads := l,
        global_state := (global_state s)[GDT_INITIALIZED := 1, IDT_INITIALIZED := 1, PIC_INITIALIZED := 1]\<rparr>) t
    \<and> (\<forall>v \<in> installed. i ! v = gate (stub_of (env_statics env) v) IDT_DEFAULT_FLAGS)
    \<and> l = cpu_loads s @ [Lgdt 63 (at_gdt (env_statics env)), Reload_segments, Ltr 0x30, Lidt 4079 (at_idt (env_statics env))]"
proof -
  have line: "good_line (''GDT Init'', [])" "good_line (''IDT Init'', [])" "good_line (''Setup PIC'', [])"
    by (rule plain_line; simp)+
  let ?l1 = "cpu_loads s @ [Lgdt 63 (at_gdt (env_statics env)), Reload_segments, Ltr 0x30]"
  obtain t where t: "setup_gdt (env_statics env) s = Done () t" "cpu_loads t = ?l1"
    using setup_gdt_done [OF assms(2)] by blast
  then obtain g x where "t = s\<lparr>gdt := g, tss := x, cpu_loads := ?l1\<rparr>" using setup_gdt_frame [OF t(1)] by metis
  then have a: "setup_gdt (env_statics env) s = Done () (s\<lparr>gdt := g, tss := x, cpu_loads := ?l1\<rparr>)" using t(1) by simp
  let ?a = "s\<lparr>gdt := g, tss := x, cpu_loads := ?l1, global_state := (global_state s)[GDT_INITIALIZED := 1]\<rparr>"
  obtain b where b: "put_ok ''GDT Init'' [] ?a = Done () b" "quiet ?a b"
    using put_done(1) [OF _ line(1), of ?a] assms(1) by auto
  have bf: "idt b = idt s" "cpu_loads b = ?l1" "global_state b = (global_state s)[GDT_INITIALIZED := 1]" "always_ready b"
    using b(2) assms(1) by (auto simp: quiet_def always_ready_def)
  have "length (idt b) = IDT_VECTORS" using bf(1) assms(3) by simp
  then obtain u where u: "setup_idt (env_statics env) b = Done () u"
    "cpu_loads u = ?l1 @ [Lidt 4079 (at_idt (env_statics env))]"
    and gates: "\<forall>v \<in> installed. idt u ! v = gate (stub_of (env_statics env) v) IDT_DEFAULT_FLAGS"
    using setup_idt_done [of b "env_statics env"] unfolding bf(2) by auto
  define i where "i = idt u"
  have "u = b\<lparr>idt := i, cpu_loads := ?l1 @ [Lidt 4079 (at_idt (env_statics env))]\<rparr>"
    using setup_idt_frame [OF u(1)] unfolding u(2) i_def .
  then have c: "setup_idt (env_statics env) b = Done () (b\<lparr>idt := i, cpu_loads := ?l1 @ [Lidt 4079 (at_idt (env_statics env))]\<rparr>)"
    using u(1) by simp
  note gates = gates [folded i_def]
  let ?c = "b\<lparr>idt := i, cpu_loads := ?l1 @ [Lidt 4079 (at_idt (env_statics env))],
    global_state := (global_state s)[GDT_INITIALIZED := 1, IDT_INITIALIZED := 1]\<rparr>"
  obtain d where d: "put_ok ''IDT Init'' [] ?c = Done () d" "quiet ?c d"
    using put_done(1) [OF _ line(2), of ?c] bf(4) by auto
  let ?d = "(setup_pic d)\<lparr>global_state := (global_state s)[GDT_INITIALIZED := 1, IDT_INITIALIZED := 1, PIC_INITIALIZED := 1]\<rparr>"
  obtain tr where pic: "setup_pic d = d\<lparr>io := io d @ tr\<rparr>"
    by (simp add: setup_pic_def access_def)
  have df: "global_state d = (global_state s)[GDT_INITIALIZED := 1, IDT_INITIALIZED := 1]" "always_ready d"
    using d(2) bf(4) by (auto simp: quiet_def always_ready_def)
  then have "always_ready ?d" unfolding pic by (simp add: always_ready_def)
  then obtain e where e: "put_ok ''Setup PIC'' [] ?d = Done () e" "quiet ?d e"
    using put_done(1) [OF _ line(3)] by blast
  have "boot_tables env s = Done () e"
    using a b(1) c d(1) e(1) bf(3) df(1) assms(4) pic
    by (simp add: boot_tables_def set_state_def state_indices)
  moreover have "quiet (s\<lparr>gdt := g, tss := x, idt := i, cpu_loads := ?l1 @ [Lidt 4079 (at_idt (env_statics env))],
        global_state := (global_state s)[GDT_INITIALIZED := 1, IDT_INITIALIZED := 1, PIC_INITIALIZED := 1]\<rparr>) e"
    (is "quiet ?end e")
  proof -
    let ?gs = "(global_state s)[GDT_INITIALIZED := 1, IDT_INITIALIZED := 1, PIC_INITIALIZED := 1]"
    have "quiet (?a\<lparr>idt := i, cpu_loads := ?l1 @ [Lidt 4079 (at_idt (env_statics env))], global_state := ?gs\<rparr>) (?c\<lparr>global_state := ?gs\<rparr>)"
      using quiet_updates(1) [OF quiet_updates(3) [OF quiet_updates(2) [OF b(2)]]] by simp
    moreover have "quiet (?c\<lparr>global_state := ?gs\<rparr>) (d\<lparr>global_state := ?gs\<rparr>)" using d(2) by (rule quiet_updates(1))
    moreover have "quiet (d\<lparr>global_state := ?gs\<rparr>) ?d" unfolding pic using quiet_updates(1) [OF quiet_io [of d tr]] by simp
    ultimately show ?thesis using e(2) by (simp, meson quiet_trans)
  qed
  ultimately show ?thesis using gates by auto
qed

text \<open>
  The set-up of the serial line only accesses ports, logs errors and sets its flag, whatever the
  scratch register and the loop back return.
\<close>

definition error_line :: "out_event \<Rightarrow> bool" where
  "error_line e \<longleftrightarrow> (\<exists>fmt args. e = LogMsg Lvl_err fmt args \<and> good_line (fmt, args))"

definition serial_frame :: "'z devices_scheme \<Rightarrow> 'z devices_scheme \<Rightarrow> bool" where
  "serial_frame s t \<longleftrightarrow> (\<exists>tr es v. t = s\<lparr>io := io s @ tr, klog := klog s @ es,
       global_state := (global_state s)[SERIAL_INTERRUPT_INITIALIZED := v]\<rparr>
     \<and> (\<forall>e \<in> set es. error_line e) \<and> (v = 0 \<or> v = 1))"

lemma serial_frameI:
  "t = s\<lparr>io := io s @ tr, klog := klog s @ es, global_state := (global_state s)[SERIAL_INTERRUPT_INITIALIZED := v]\<rparr> \<Longrightarrow>
    \<forall>e \<in> set es. error_line e \<Longrightarrow> v = 0 \<or> v = 1 \<Longrightarrow> serial_frame s t"
  unfolding serial_frame_def by blast

lemma serial_frame_after:
  assumes "accessed s t \<or> serial_frame s t" and "serial_frame t u"
  shows "serial_frame s u"
proof -
  obtain tr' es' v' where u: "u = t\<lparr>io := io t @ tr', klog := klog t @ es', global_state := (global_state t)[SERIAL_INTERRUPT_INITIALIZED := v']\<rparr>"
    and es': "\<forall>e \<in> set es'. error_line e" and v': "v' = 0 \<or> v' = 1"
    using assms(2) unfolding serial_frame_def by blast
  from assms(1) show ?thesis
  proof
    assume "accessed s t"
    then obtain tr where "t = s\<lparr>io := io s @ tr\<rparr>" unfolding accessed_def by blast
    then show ?thesis using es' v' by (intro serial_frameI [where tr = "tr @ tr'" and es = es' and v = v']) (simp_all add: u)
  next
    assume "serial_frame s t"
    then obtain tr es v where "t = s\<lparr>io := io s @ tr, klog := klog s @ es, global_state := (global_state s)[SERIAL_INTERRUPT_INITIALIZED := v]\<rparr>"
      and "\<forall>e \<in> set es. error_line e" unfolding serial_frame_def by blast
    then show ?thesis using es' v' by (intro serial_frameI [where tr = "tr @ tr'" and es = "es @ es'" and v = v']) (auto simp: u)
  qed
qed

lemma serial_failed:
  assumes "SERIAL_INTERRUPT_INITIALIZED < length (global_state s)" and "good_line (fmt, args)"
  shows "\<exists>t. set_state SERIAL_INTERRUPT_INITIALIZED 0 (k_err fmt args s) = Done () t \<and> serial_frame s t"
proof -
  have "error_line (LogMsg Lvl_err fmt args)" using assms(2) by (auto simp: error_line_def)
  then have "serial_frame s (s\<lparr>klog := klog s @ [LogMsg Lvl_err fmt args], global_state := (global_state s)[SERIAL_INTERRUPT_INITIALIZED := 0]\<rparr>)"
    by (intro serial_frameI [where tr = "[]" and es = "[LogMsg Lvl_err fmt args]" and v = 0]) simp_all
  then show ?thesis using assms(1) by (simp add: set_state_def emit_def)
qed

lemma serial_worked:
  assumes "SERIAL_INTERRUPT_INITIALIZED < length (global_state s)"
  shows "\<exists>t. set_state SERIAL_INTERRUPT_INITIALIZED 1 s = Done () t \<and> serial_frame s t"
proof -
  have "serial_frame s (s\<lparr>global_state := (global_state s)[SERIAL_INTERRUPT_INITIALIZED := 1]\<rparr>)"
    by (rule serial_frameI [where tr = "[]" and es = "[]" and v = 1]) simp_all
  then show ?thesis using assms(1) by (simp add: set_state_def)
qed

lemma setup_serial_done:
  assumes "SERIAL_INTERRUPT_INITIALIZED < length (global_state s)"
  shows "\<exists>t. setup_serial 19200 s = Done () t \<and> serial_frame s t"
proof -
  note acc = accessed_accessI accessed_refl
  have line: "good_line (''COM1 was bad!'', [])" by (rule plain_line) simp_all
  have "\<exists>a. check_com1 s = Done () a \<and> (accessed s a \<or> serial_frame s a)"
  proof -
    obtain v a where a: "READ_REG SCRATCH (WRITE_REG SCRATCH TEST_BYTE s) = Done v a" "accessed s a"
      by (auto simp: READ_REG_def WRITE_REG_def inb_def outb_def Let_def intro!: acc)
    then have "global_state a = global_state s" by (auto simp: accessed_def)
    with serial_failed [OF _ line, of a] assms obtain b where
      "set_state SERIAL_INTERRUPT_INITIALIZED 0 (k_err ''COM1 was bad!'' [] a) = Done () b" "serial_frame a b" by auto
    then show ?thesis using a serial_frame_after by (cases "v = TEST_BYTE") (auto simp: check_com1_def)
  qed
  then obtain a where a: "check_com1 s = Done () a" "accessed s a \<or> serial_frame s a" by blast
  then have len: "SERIAL_INTERRUPT_INITIALIZED < length (global_state a)"
    using assms by (auto simp: accessed_def serial_frame_def)
  define b where "b = WRITE_REG IO TEST_BYTE (WRITE_REG MODEM_CONTROL 0x1E (WRITE_REG MODEM_CONTROL 0x0B (WRITE_REG FIFO 0x07
    (WRITE_REG LINE_CONTROL 0x03 (WRITE_REG DIVISOR_MSB 0x00 (WRITE_REG DIVISOR_LSB (ucast (MAX_BAUD div 19200))
    (WRITE_REG LINE_CONTROL 0x80 (WRITE_REG INTERRUPT_ENABLE 0x01 (WRITE_REG LINE_CONTROL 0x00 a)))))))))"
  obtain v c where c: "READ_REG IO b = Done v c" "accessed a c"
    by (auto simp: b_def READ_REG_def WRITE_REG_def inb_def outb_def Let_def intro!: acc)
  then have lc: "SERIAL_INTERRUPT_INITIALIZED < length (global_state c)" using len by (auto simp: accessed_def)
  have run: "setup_serial 19200 s = (if v \<noteq> TEST_BYTE
     then set_state SERIAL_INTERRUPT_INITIALIZED 0 (k_err ''Loopback got wrong byte! Got 0x%x, expected 0x%x'' [Num (ucast v), Num (ucast TEST_BYTE)] c)
     else bindO (unmask_irq 4 (WRITE_REG MODEM_CONTROL 0x0F c)) (\<lambda>_ s. set_state SERIAL_INTERRUPT_INITIALIZED 1 s))"
    using a(1) c(1) by (simp add: setup_serial_def Let_def MAX_BAUD_def b_def)
  show ?thesis
  proof (cases "v = TEST_BYTE")
    case False
    have "good_line (''Loopback got wrong byte! Got 0x%x, expected 0x%x'', [Num (ucast v), Num (ucast TEST_BYTE)])"
      by (simp add: good_line_def plain_defs prints_def conversion_defs Let_def)
    from serial_failed [OF lc this] show ?thesis
      using run False c(2) a(2) serial_frame_after by (metis (full_types))
  next
    case True
    obtain d where d: "unmask_irq 4 (WRITE_REG MODEM_CONTROL 0x0F c) = Done () d" "accessed c d"
      by (auto simp: unmask_irq_def READ_REG_def WRITE_REG_def inb_def outb_def Let_def intro!: acc)
    have "SERIAL_INTERRUPT_INITIALIZED < length (global_state d)" using lc d(2) by (auto simp: accessed_def)
    from serial_worked [OF this] obtain t where t: "set_state SERIAL_INTERRUPT_INITIALIZED 1 d = Done () t" "serial_frame d t" by blast
    have "serial_frame s t" using t(2) d(2) c(2) a(2) serial_frame_after by blast
    then show ?thesis using run True d(1) t(1) by auto
  qed
qed

text \<open>What the set-up has logged is shown.\<close>

lemma put_events_done:
  "always_ready s \<Longrightarrow> \<forall>e \<in> set es. error_line e \<Longrightarrow> \<exists>t. put_events es s = Done () t \<and> quiet s t"
proof (induction es arbitrary: s)
  case Nil
  have "quiet s s" using quiet_io [of s "[]"] by simp
  then show ?case by (simp add: put_events_def)
next
  case (Cons e es)
  then obtain fmt args where e: "e = LogMsg Lvl_err fmt args" "good_line (fmt, args)" by (auto simp: error_line_def)
  obtain u where u: "put_err fmt args s = Done () u" "quiet s u" using put_done(2) [OF Cons.prems(1) e(2)] by blast
  have "always_ready u" using u(2) Cons.prems(1) by (rule quiet_ready)
  then obtain t where "put_events es u = Done () t" "quiet u t" using Cons.IH Cons.prems(2) by auto
  then show ?case using u e(1) by (auto simp: put_events_def intro: quiet_trans)
qed

lemma shown_done:
  assumes "op (s\<lparr>klog := []\<rparr>) = Done a t" and "\<forall>e \<in> set (klog t). error_line e" and "always_ready t"
  shows "\<exists>u. shown op s = Done a u \<and> quiet (t\<lparr>klog := klog s\<rparr>) u"
  using put_events_done [of "t\<lparr>klog := klog s\<rparr>" "klog t"] assms by (auto simp: shown_def)

lemma serial_shown:
  assumes "always_ready s" and "SERIAL_INTERRUPT_INITIALIZED < length (global_state s)"
  shows "\<exists>t v. shown (setup_serial 19200) s = Done () t \<and> (v = 0 \<or> v = 1)
    \<and> quiet (s\<lparr>global_state := (global_state s)[SERIAL_INTERRUPT_INITIALIZED := v]\<rparr>) t"
proof -
  obtain t where t: "setup_serial 19200 (s\<lparr>klog := []\<rparr>) = Done () t" "serial_frame (s\<lparr>klog := []\<rparr>) t"
    using setup_serial_done [of "s\<lparr>klog := []\<rparr>"] assms(2) by auto
  then obtain tr es v where tf: "t = s\<lparr>io := io s @ tr, klog := es, global_state := (global_state s)[SERIAL_INTERRUPT_INITIALIZED := v]\<rparr>"
    and es: "\<forall>e \<in> set es. error_line e" and v: "v = 0 \<or> v = 1"
    unfolding serial_frame_def by auto
  have "always_ready t" using assms(1) by (simp add: tf always_ready_def)
  then obtain u where u: "shown (setup_serial 19200) s = Done () u" "quiet (t\<lparr>klog := klog s\<rparr>) u"
    using shown_done [of "setup_serial 19200" s "()" t, OF t(1)] es by (auto simp: tf)
  have "quiet (s\<lparr>global_state := (global_state s)[SERIAL_INTERRUPT_INITIALIZED := v]\<rparr>) (t\<lparr>klog := klog s\<rparr>)"
    using quiet_updates(1) [OF quiet_io [of s tr]] by (simp add: tf)
  then show ?thesis using u v quiet_trans by blast
qed

text \<open>The devices: the serial line, the interval timer and its test, and the mode of the processor.\<close>

lemma waited_commutes:
  assumes "waited s t"
    and "\<And>m tr x y c p q. f (s\<lparr>mem := m, io := io s @ tr, cursor_x := x, cursor_y := y, on_colour := c, pit_ticks := p, apic_ticks := q\<rparr>) =
      (f s)\<lparr>mem := m, io := io (f s) @ tr, cursor_x := x, cursor_y := y, on_colour := c, pit_ticks := p, apic_ticks := q\<rparr>"
  shows "waited (f s) (f t)"
  using assms unfolding waited_def by metis

lemma waited_updates:
  "waited s t \<Longrightarrow> waited (s\<lparr>global_state := gs\<rparr>) (t\<lparr>global_state := gs\<rparr>)"
  "waited s t \<Longrightarrow> waited (s\<lparr>timer_goal_frequency := f\<rparr>) (t\<lparr>timer_goal_frequency := f\<rparr>)"
  by (erule waited_commutes [where f = "\<lambda>s. s\<lparr>global_state := gs\<rparr>"], simp,
    erule waited_commutes [where f = "\<lambda>s. s\<lparr>timer_goal_frequency := f\<rparr>"], simp)

lemma setup_pit_done: "\<exists>t. setup_pit s = Done () t \<and> accessed (s\<lparr>timer_goal_frequency := 1000\<rparr>) t"
proof -
  let ?s = "s\<lparr>timer_goal_frequency := 1000\<rparr>"
  have s: "(access Cli s)\<lparr>timer_goal_frequency := PIT_GOAL_FREQUENCY\<rparr> = access Cli ?s"
    by (simp add: access_def PIT_GOAL_FREQUENCY_def)
  show ?thesis
    unfolding setup_pit_def Let_def s
    by (auto simp: set_pit_frequency_def unmask_irq_def inb_def outb_def Let_def intro!: accessed_accessI accessed_refl)
qed

lemma waited_kept:
  assumes "waited s t"
  shows "always_ready s \<Longrightarrow> always_ready t" "global_state t = global_state s" "msr_value t = msr_value s"
  using assms by (auto simp: waited_def always_ready_def)

lemma boot_devices_done:
  assumes "always_ready s" and "timers_run K (s\<lparr>timer_goal_frequency := 1000\<rparr>)" and "K \<le> 3"
    and "unat (pit_ticks s) + 100 < 2 ^ 64" and "SERIAL_INTERRUPT_INITIALIZED < length (global_state s)"
    and "\<And>tr. msr_value s tr IA32_EFER = 0xd01"
  shows "\<exists>t v. boot_devices s = Done () t \<and> (v = 0 \<or> v = 1)
    \<and> waited (s\<lparr>timer_goal_frequency := 1000, global_state := (global_state s)
        [SERIAL_INTERRUPT_INITIALIZED := v, PIT_INITIALIZED := 1, PIT_TIMER_RUNNING := 1]\<rparr>) t"
proof -
  have line: "good_line (''Setup Serial'', [])" "good_line (''Setup PIT as Bootstrap Timer'', [])" "good_line (''IA32_EFER'', [])"
    by (rule plain_line; simp)+
  obtain a v where a: "shown (setup_serial 19200) s = Done () a" "v = 0 \<or> v = 1"
    "quiet (s\<lparr>global_state := (global_state s)[SERIAL_INTERRUPT_INITIALIZED := v]\<rparr>) a"
    using serial_shown [OF assms(1,5)] by blast
  let ?gs = "(global_state s)[SERIAL_INTERRUPT_INITIALIZED := v]"
  let ?gs' = "?gs[PIT_INITIALIZED := 1, PIT_TIMER_RUNNING := 1]"
  have "always_ready a" using quiet_ready [OF a(3)] assms(1) by simp
  then obtain b where b: "put_ok ''Setup Serial'' [] a = Done () b" "quiet a b" using put_done(1) [OF _ line(1)] by blast
  obtain c where c: "setup_pit b = Done () c" "accessed (b\<lparr>timer_goal_frequency := 1000\<rparr>) c" using setup_pit_done by blast
  have sb: "quiet (s\<lparr>global_state := ?gs\<rparr>) b" using a(3) b(2) by (rule quiet_trans)
  then have "always_ready c" using c(2) assms(1) by (auto simp: quiet_def accessed_def always_ready_def)
  then obtain d where d: "put_ok ''Setup PIT as Bootstrap Timer'' [] c = Done () d" "quiet c d" "always_ready d"
    using put_done(1) [OF _ line(2)] quiet_ready by blast
  have df: "timers_run K d" "pit_ticks d = pit_ticks s" "global_state d = ?gs" "msr_value d = msr_value s"
    using sb c(2) d(2) assms(2) by (auto simp: quiet_def accessed_def timers_run_def)
  have len: "PIT_TIMER_RUNNING < length (global_state d)" using df(3) assms(5) by (simp add: state_indices)
  obtain e where e: "waited d e" "test_pit d = Done () (e\<lparr>global_state := ?gs'\<rparr>)"
    using test_pit_done [OF d(3) df(1) assms(3) _ len] df(2,3) assms(4) by auto
  let ?e = "e\<lparr>global_state := ?gs'\<rparr>"
  obtain f where f: "read_msr IA32_EFER (write_msr IA32_EFER 0x901 ?e) = Done 0xd01 f" "accessed ?e f"
  proof -
    have "msr_value ?e tr IA32_EFER = 0xd01" for tr using waited_kept(3) [OF e(1)] df(4) assms(6) by simp
    then show thesis
      by (intro that) (auto simp: read_msr_def write_msr_def Let_def intro!: accessed_accessI accessed_refl)
  qed
  have "always_ready f" using waited_kept(1) [OF e(1)] d(3) f(2) by (auto simp: accessed_def always_ready_def)
  then obtain g where g: "put_test_pass ''IA32_EFER'' [] f = Done () g" "quiet f g" using put_done(3) [OF _ line(3)] by blast
  have "boot_devices s = Done () g"
    using a(1) b(1) c(1) d(1) e(2) f(1) g(1) by (simp add: boot_devices_def)
  moreover have "waited (s\<lparr>timer_goal_frequency := 1000, global_state := ?gs'\<rparr>) g"
  proof -
    let ?u = "\<lambda>s. s\<lparr>timer_goal_frequency := 1000, global_state := ?gs'\<rparr>"
    have "waited (?u s) (?u b)" using waited_updates [OF waited_updates(2) [OF waited_quiet [OF sb], of 1000]] by simp
    moreover have "waited (?u b) (c\<lparr>global_state := ?gs'\<rparr>)" using waited_updates(1) [OF waited_accessed [OF c(2)]] by simp
    moreover have "waited (c\<lparr>global_state := ?gs'\<rparr>) (d\<lparr>global_state := ?gs'\<rparr>)" using waited_updates(1) [OF waited_quiet [OF d(2)]] .
    moreover have "waited (d\<lparr>global_state := ?gs'\<rparr>) ?e" using waited_updates(1) [OF e(1)] .
    ultimately show ?thesis using waited_accessed [OF f(2)] waited_quiet [OF g(2)] by (meson waited_trans)
  qed
  ultimately show ?thesis using a(2) by blast
qed

section \<open>From the entry to the memory\<close>

text \<open>
  A machine that can be booted, as the boot loader leaves it: it supports the protocol and gives a
  frame buffer, a memory map and the time; the static variables have their initial values; the
  serial line takes its bytes, the timers interrupt between one and three times at every halt, and the
  processor is in long mode with 7-bit names.
\<close>

definition bootable :: "boot_env \<Rightarrow> framebuffer \<Rightarrow> memmap_entry list \<Rightarrow> 'z boot_scheme \<Rightarrow> bool" where
  "bootable env fb es s \<longleftrightarrow>
     base_revision_supported s \<and> framebuffer_response s = Some [fb] \<and> memmap_response s = Some es
     \<and> boot_time_valid (boot_time_response s) \<and> env_ts env \<noteq> 0 \<and> (env_check_cpuid env \<longrightarrow> cpu_text_ok env)
     \<and> font_size s = 2 \<and> length (state_array (local_state s)) = 624 \<and> global_state s = replicate 12 0 \<and> panics s = 0
     \<and> length (gdt s) = 8 \<and> length (idt s) = IDT_VECTORS
     \<and> always_ready s \<and> timers_run 3 (s\<lparr>timer_goal_frequency := 1000\<rparr>) \<and> unat (pit_ticks s) + 100 < 2 ^ 64
     \<and> (\<forall>tr. msr_value s tr IA32_EFER = 0xd01)"

lemma screen_constants_done:
  assumes "glyph_size s \<noteq> 0"
  shows "\<exists>w h x y l b p f. calculate_screen_constants fb s = Done () (s\<lparr>screen_width := w, screen_height := h,
    cursor_x_max := x, cursor_y_max := y, bytes_per_line := l, bytes_per_screen := b, pitch := p, fb_ptr := f\<rparr>)"
  using assms by (simp add: calculate_screen_constants_def Let_def) blast

lemma boot_screen_done:
  assumes "bootable env fb es s" and "free_memory es = Some len"
  shows "if unat len < 2 ^ 29 then \<exists>t. boot_screen env s = Stop Halted t
    else \<exists>r t. boot_screen env s = Done fb t \<and> banner_ready es r t
      \<and> same_rest (s\<lparr>global_state := (replicate 12 0)[FRAMEBUFFER_INITIALIZED := 1]\<rparr>) r"
proof -
  note b = assms(1) [unfolded bootable_def]
  have "glyph_size s \<noteq> 0" using b by (simp add: glyph_size_def)
  then obtain w h x y l n p f where a: "calculate_screen_constants fb s = Done () (s\<lparr>screen_width := w, screen_height := h,
    cursor_x_max := x, cursor_y_max := y, bytes_per_line := l, bytes_per_screen := n, pitch := p, fb_ptr := f\<rparr>)"
    (is "_ = Done () ?a") using screen_constants_done by blast
  let ?b = "?a\<lparr>global_state := (replicate 12 0)[FRAMEBUFFER_INITIALIZED := 1]\<rparr>"
  obtain e where e: "boot_time_response s = Some e" using b by (auto simp: boot_time_valid_def)
  have time: "shown get_boot_time ?b = Done e ?b" by (simp add: shown_def get_boot_time_def e put_events_def)
  let ?r = "setup_random (ucast (e * 19650218)) ?b"
  have len: "length (state_array (local_state ?b)) = 624" using b by simp
  have "mt_window (ucast (e * 19650218)) 0 (local_state ?r)" using len by (rule setup_random_window)
  moreover obtain m where r: "?r = ?b\<lparr>local_state := m\<rparr>" by (simp add: setup_random_def)
  ultimately have "banner_ready es (?b\<lparr>local_state := m\<rparr>) (?b\<lparr>local_state := m\<rparr>)"
    using b unfolding banner_ready_def logo_ready_def same_rest_def
    by (auto simp: always_ready_def get_global_state_def state_indices)
  then have "banner_ready es ?r ?r" unfolding r .
  from banner_shown [OF this, of "env_ts env" len] assms(2) b
  have banner: "if unat len < 2 ^ 29 then \<exists>t. print_banner (env_ts env) ?r = Stop Halted t
    else \<exists>t. print_banner (env_ts env) ?r = Done () t \<and> banner_ready es ?r t" by simp
  have "set_state FRAMEBUFFER_INITIALIZED 1 ?a = Done () ?b" using b by (simp add: set_state_def state_indices)
  then have run: "boot_screen env s = bindO (print_banner (env_ts env) ?r) (\<lambda>_ s. Done fb s)"
    using b a time by (simp add: boot_screen_def get_framebuffer_def)
  have "same_rest (s\<lparr>global_state := (replicate 12 0)[FRAMEBUFFER_INITIALIZED := 1]\<rparr>) ?r"
    unfolding same_rest_def r by simp
  then show ?thesis using banner unfolding run by (auto split: if_splits)
qed

lemma same_more:
  assumes "console.more s = console.more (r :: 'z boot_scheme)"
  shows "gdt s = gdt r" "idt s = idt r" "cpu_loads s = cpu_loads r"
  using assms by (cases s; cases r; simp)+

lemma phases_before_memory:
  assumes "always_ready t" and "env_check_cpuid env \<longrightarrow> cpu_text_ok env"
    and "timers_run 3 (t\<lparr>timer_goal_frequency := 1000\<rparr>)" and "unat (pit_ticks t) + 100 < 2 ^ 64"
    and "\<forall>tr. msr_value t tr IA32_EFER = 0xd01" and "length (gdt t) = 8" and "length (idt t) = IDT_VECTORS"
    and "global_state t = (replicate 12 0)[FRAMEBUFFER_INITIALIZED := 1]"
  shows "\<exists>v w x u. boot_cpu env t = Done () u \<and> boot_tables env u = Done () w \<and> boot_devices w = Done () x
    \<and> timer_goal_frequency x = 1000 \<and> (v = 0 \<or> v = 1)
    \<and> global_state x = [1, if env_check_cpuid env then 1 else 0, 1, 1, 1, 1, 0, 0, 0, 0, 1, v]
    \<and> (\<forall>i \<in> installed. idt x ! i = gate (stub_of (env_statics env) i) IDT_DEFAULT_FLAGS)
    \<and> cpu_loads x = cpu_loads t @ [Lgdt 63 (at_gdt (env_statics env)), Reload_segments, Ltr 0x30, Lidt 4079 (at_idt (env_statics env))]"
proof -
  let ?g1 = "if env_check_cpuid env then (global_state t)[CPUID_SUPPORTED := 1] else global_state t"
  obtain u where u: "boot_cpu env t = Done () u" "quiet (t\<lparr>global_state := ?g1\<rparr>) u"
    using boot_cpu_done [OF assms(1), of env] assms(2,8) by (auto simp: state_indices)
  have uf: "always_ready u" "length (gdt u) = 8" "length (idt u) = IDT_VECTORS" "cpu_loads u = cpu_loads t"
    "global_state u = ?g1" "timer_irqs u = timer_irqs t" "pit_ticks u = pit_ticks t" "msr_value u = msr_value t"
    using u(2) assms(1,6,7) by (auto simp: quiet_def always_ready_def)
  have len: "length ?g1 = 12" using assms(8) by simp
  obtain g x i l w where w: "boot_tables env u = Done () w"
    "quiet (u\<lparr>gdt := g, tss := x, idt := i, cpu_loads := l,
        global_state := ?g1[GDT_INITIALIZED := 1, IDT_INITIALIZED := 1, PIC_INITIALIZED := 1]\<rparr>) w"
    and gates: "\<forall>v \<in> installed. i ! v = gate (stub_of (env_statics env) v) IDT_DEFAULT_FLAGS"
    and l: "l = cpu_loads t @ [Lgdt 63 (at_gdt (env_statics env)), Reload_segments, Ltr 0x30, Lidt 4079 (at_idt (env_statics env))]"
    using boot_tables_done [OF uf(1-3), of env] len unfolding uf(4,5) by (auto simp: state_indices)
  let ?g2 = "?g1[GDT_INITIALIZED := 1, IDT_INITIALIZED := 1, PIC_INITIALIZED := 1]"
  have wf: "always_ready w" "timer_irqs w = timer_irqs t" "pit_ticks w = pit_ticks t" "msr_value w = msr_value t"
    "global_state w = ?g2" "idt w = i" "cpu_loads w = l"
    using w(2) uf by (auto simp: quiet_def always_ready_def)
  have "timers_run 3 (w\<lparr>timer_goal_frequency := 1000\<rparr>)" using assms(3) wf(2) by (simp add: timers_run_def)
  moreover have "SERIAL_INTERRUPT_INITIALIZED < length (global_state w)" using len unfolding wf(5) by (simp add: state_indices)
  ultimately obtain y v where y: "boot_devices w = Done () y" "v = 0 \<or> v = 1"
    "waited (w\<lparr>timer_goal_frequency := 1000, global_state := ?g2
        [SERIAL_INTERRUPT_INITIALIZED := v, PIT_INITIALIZED := 1, PIT_TIMER_RUNNING := 1]\<rparr>) y"
    using boot_devices_done [OF wf(1), of 3] assms(4,5) unfolding wf(3-5) by auto
  have "timer_goal_frequency y = 1000" "idt y = i" "cpu_loads y = l"
    "global_state y = ?g2[SERIAL_INTERRUPT_INITIALIZED := v, PIT_INITIALIZED := 1, PIT_TIMER_RUNNING := 1]"
    using y(3) wf(6,7) by (auto simp: waited_def)
  moreover have "?g2[SERIAL_INTERRUPT_INITIALIZED := v, PIT_INITIALIZED := 1, PIT_TIMER_RUNNING := 1] =
      [1, if env_check_cpuid env then 1 else 0, 1, 1, 1, 1, 0, 0, 0, 0, 1, v]"
    unfolding assms(8) by (simp add: state_indices numeral_eq_Suc)
  ultimately show ?thesis using u(1) w(1) y(1,2) gates l by auto
qed

text \<open>
  C22. The boot reaches the memory: on a machine that can be booted and has half a GiB of free memory,
  \<open>kmain\<close> shows the banner, reports the processor, loads the descriptor tables, sets up the serial
  line and the interval timer and tests it, and all of this comes to an end; what is left to run is the
  set-up of the memory, the local APIC and the ACPI tables. Then the state table holds the flags of
  the frame buffer, the tables, the controller and the timer, and those of the processor report and of
  the serial line if they worked; the processor has loaded the tables in their order, and every
  installed gate leads to its stub. With less memory the machine halts.
\<close>

theorem boot_reaches_memory:
  assumes "bootable env fb es s" and "free_memory es = Some len"
  shows "if unat len < 2 ^ 29 then \<exists>t. kmain env s = Stop Halted t
    else \<exists>t v. kmain env s = bindO (boot_memory env fb t) (\<lambda>_ s. bindO (boot_apic env s) (\<lambda>_ s. boot_end s))
      \<and> timer_goal_frequency t = 1000 \<and> (v = 0 \<or> v = 1)
      \<and> global_state t = [1, if env_check_cpuid env then 1 else 0, 1, 1, 1, 1, 0, 0, 0, 0, 1, v]
      \<and> (\<forall>i \<in> installed. idt t ! i = gate (stub_of (env_statics env) i) IDT_DEFAULT_FLAGS)
      \<and> cpu_loads t = cpu_loads s @ [Lgdt 63 (at_gdt (env_statics env)), Reload_segments, Ltr 0x30, Lidt 4079 (at_idt (env_statics env))]"
proof (cases "unat len < 2 ^ 29")
  case True
  then show ?thesis using boot_screen_done [OF assms] assms(1) by (auto simp: kmain_def bootable_def)
next
  case False
  let ?s = "s\<lparr>global_state := (replicate 12 0)[FRAMEBUFFER_INITIALIZED := 1]\<rparr>"
  obtain r t where t: "boot_screen env s = Done fb t" "banner_ready es r t" "same_rest ?s r"
    using boot_screen_done [OF assms] False by auto
  have st: "same_rest ?s t" using t(2,3) unfolding banner_ready_def same_rest_def by metis
  have more: "console.more t = console.more ?s" using st by (simp add: same_rest_def)
  have tf: "timer_irqs t = timer_irqs s" "pit_ticks t = pit_ticks s" "msr_value t = msr_value s"
    "global_state t = (replicate 12 0)[FRAMEBUFFER_INITIALIZED := 1]" "gdt t = gdt s" "idt t = idt s" "cpu_loads t = cpu_loads s"
    using st same_more [OF more] by (simp_all add: same_rest_def)
  have "timers_run 3 (t\<lparr>timer_goal_frequency := 1000\<rparr>)" using assms(1) tf(1) by (simp add: timers_run_def bootable_def)
  then obtain v w x u where "boot_cpu env t = Done () u" "boot_tables env u = Done () w" "boot_devices w = Done () x"
    and fin: "timer_goal_frequency x = 1000" "v = 0 \<or> v = 1"
      "global_state x = [1, if env_check_cpuid env then 1 else 0, 1, 1, 1, 1, 0, 0, 0, 0, 1, v]"
      "\<forall>i \<in> installed. idt x ! i = gate (stub_of (env_statics env) i) IDT_DEFAULT_FLAGS"
      "cpu_loads x = cpu_loads s @ [Lgdt 63 (at_gdt (env_statics env)), Reload_segments, Ltr 0x30, Lidt 4079 (at_idt (env_statics env))]"
    using phases_before_memory [OF banner_ready_always [OF t(2)], of env] assms(1) tf by (auto simp: bootable_def)
  then have "kmain env s = bindO (boot_memory env fb x) (\<lambda>_ s. bindO (boot_apic env s) (\<lambda>_ s. boot_end s))"
    using assms(1) t(1) by (simp add: kmain_def bootable_def)
  then show ?thesis using False fin by auto
qed

text \<open>A machine with 1 GiB of memory whose serial line fails the loop back test.\<close>

definition example_framebuffer :: framebuffer where
  "example_framebuffer = \<lparr>fb_address = 0xFFFF8000FD000000, fb_width = 64, fb_height = 48, fb_pitch = 256\<rparr>"

definition example_entries :: "memmap_entry list" where
  "example_entries = [\<lparr>me_base = 0x100000, me_length = 0x40000000, me_type = 0\<rparr>]"

definition example_machine :: boot where
  "example_machine = (shell.extend example_shell
       (boot.fields True (Some [example_framebuffer]) (Some (get_unix_epoch 59 30 12 29 2 2024)) None))
     \<lparr>memmap_response := Some example_entries, port_value := (\<lambda>_ _. 0x20), msr_value := (\<lambda>_ _. 0xd01),
      timer_irqs := (\<lambda>_. (1, 1)), local_state := local_state example_rng\<rparr>"

definition example_env :: boot_env where
  "example_env = \<lparr>env_statics = example_addresses,
     env_sections = \<lparr>text_start = 0, text_end = 0, rodata_start = 0, rodata_end = 0, data_start = 0, data_end = 0, bss_end = 0\<rparr>,
     env_bitmap = 0, env_cpuid = (\<lambda>_ _. \<lparr>eax = 0, ebx = 0, ecx = 0, edx = 0\<rparr>), env_check_cpuid = True,
     env_ts = 0x7000, env_entry = 0\<rparr>"

lemma example_machine_bootable: "bootable example_env example_framebuffer example_entries example_machine"
proof -
  have "boot_time_valid (boot_time_response example_machine)"
    unfolding boot_time_valid_def
    by (intro exI [of _ 2024] exI [of _ 2] exI [of _ 29] exI [of _ 12] exI [of _ 30] exI [of _ 59])
      (simp add: example_machine_def shell.defs boot.defs valid_date_def month_length_def leap_year_def)
  moreover have "cpu_text_ok example_env"
    by (simp add: cpu_text_ok_def example_env_def get_cpu_name_def get_cpu_vendor_def get_hypervisor_vendor_def
        cpu_feature_bit_def buffer_text_def register_bytes_def Let_def upt_conv_Cons)
  moreover have "length (state_array (local_state example_machine)) = 624"
    using example_rng_length by (simp add: example_machine_def)
  moreover have "base_revision_supported example_machine" "framebuffer_response example_machine = Some [example_framebuffer]"
    "memmap_response example_machine = Some example_entries" "env_ts example_env \<noteq> 0"
    by (simp_all add: example_machine_def example_env_def shell.defs boot.defs)
  moreover have "font_size example_machine = 2" "global_state example_machine = replicate 12 0" "panics example_machine = 0"
    "length (gdt example_machine) = 8" "length (idt example_machine) = IDT_VECTORS" "pit_ticks example_machine = 0"
    by (simp_all add: example_machine_def shell.defs boot.defs example_shell_def descriptors.defs example_descriptors_def
        example_logger_def logger.defs console.defs IDT_VECTORS_def)
  moreover have "always_ready example_machine" "timers_run 3 (example_machine\<lparr>timer_goal_frequency := 1000\<rparr>)"
    "\<forall>tr. msr_value example_machine tr IA32_EFER = 0xd01"
    by (simp_all add: example_machine_def always_ready_def timers_run_def)
  ultimately show ?thesis unfolding bootable_def by simp
qed

theorem boot_reaches_memory_witness:
  "\<exists>t. kmain example_env example_machine =
      bindO (boot_memory example_env example_framebuffer t) (\<lambda>_ s. bindO (boot_apic example_env s) (\<lambda>_ s. boot_end s))
    \<and> timer_goal_frequency t = 1000"
proof -
  have "free_memory example_entries = Some 0x40000000"
    by (simp add: example_entries_def free_memory_def is_memory_free_def MAX_CHUNKS_def LIMINE_MEMMAP_USABLE_def)
  from boot_reaches_memory [OF example_machine_bootable this] show ?thesis by auto
qed

end
