(* ===== verification/Kernel_Run.thy ===== *)
theory Kernel_Run
  imports Handlers
begin

text \<open>
  The running kernel: after the boot only interrupts run. A run is a sequence of interrupts, each
  served by \<open>serve_interrupt\<close>; the theory proves what holds after any of them. What an
  operation may change is stated once, as the assumptions of two locales on a predicate of the
  state: one for the operations that allocate, one for those that also print, wait and touch
  devices; a third adds the line of the shell. Each invariant of the running kernel is an
  interpretation. The last section shows that the command \<open>time\<close> never returns from its interrupt.
\<close>

section \<open>Operations that allocate\<close>

locale allocation_keeps =
  fixes P :: "'z heap_scheme \<Rightarrow> bool"
  assumes frame: "P s \<Longrightarrow> pp_alloc s = Done p t \<Longrightarrow> P t"
    and memory: "P s \<Longrightarrow> P (s\<lparr>mem := m\<rparr>)"
    and processor: "P s \<Longrightarrow> P (s\<lparr>cpu := c\<rparr>)"
    and list_head: "P s \<Longrightarrow> P (s\<lparr>free_list_head := a\<rparr>)"
    and extent: "P s \<Longrightarrow> P (s\<lparr>heap_size := n\<rparr>)"
    and messages: "P s \<Longrightarrow> P (s\<lparr>klog := l\<rparr>)"
begin

lemma emitted: "P s \<Longrightarrow> P (emit e s)"
  by (simp add: emit_def messages)

lemma stored: "P s \<Longrightarrow> P (table_set x y z s)" "P s \<Longrightarrow> P (set_size b v s)" "P s \<Longrightarrow> P (set_next b v s)"
  by (simp_all add: table_set_def set_size_def set_next_def memory)

lemma invalidated: "P s \<Longrightarrow> P (invlpg v s)"
  by (simp add: invlpg_def processor)

lemmas small_steps = emitted stored invalidated memory list_head extent

lemma next_level: "P s \<Longrightarrow> get_or_allocate_next_level T k fl s = Done a t \<Longrightarrow> P t"
  by (auto simp: get_or_allocate_next_level_def allocate_next_level_def bindO_Done_iff Let_def
      intro: small_steps dest: frame split: if_splits)

lemma mapped_page:
  assumes "P s" and "map_page pm v p fl s = Done ok t"
  shows "P t"
  using assms
  by (auto simp: map_page_def Let_def bindO_Done_iff intro!: small_steps split: if_splits)
    (blast dest: next_level)+

lemma mapped_heap_pages: "P s \<Longrightarrow> map_heap_pages base is s = Done ok t \<Longrightarrow> P t"
proof (induction "is" arbitrary: s)
  case (Cons i "is")
  obtain phys u where u: "pp_alloc s = Done phys u" using Cons.prems(2) by (auto simp: bindO_Done_iff)
  note Pu = frame [OF Cons.prems(1) u]
  show ?case
  proof (cases "phys = 0")
    case True
    then show ?thesis using Cons.prems(2) u Pu by (auto intro: small_steps)
  next
    case False
    then obtain pm w where "map_page pm (base + of_nat i * PAGE_SIZE) phys
        (PTE_PRESENT OR PTE_WRITABLE OR PTE_NX) u = Done True w" "map_heap_pages base is w = Done ok t"
      using Cons.prems(2) u by (auto simp: bindO_Done_iff split: option.splits if_splits)
    then show ?thesis using Cons.IH mapped_page [OF Pu] by blast
  qed
qed simp

lemma list_operations:
  assumes "P s"
  shows "P (link_block prev b s)" and "P (merge_next b s)" and "P (merge_prev prev b s)"
    and "P (unlink_block prev v s)"
  using assms
  by (simp_all add: link_block_def merge_next_def merge_prev_def unlink_block_def Let_def small_steps)

lemma added_region:
  assumes "P s" and "add_region base n s = Done ok t"
  shows "P t"
proof -
  let ?s = "set_next base 0 (set_size base n s)"
  have Ps: "P ?s" using assms(1) by (simp add: stored)
  consider "t = ?s\<lparr>free_list_head := base, heap_size := heap_size ?s + n\<rparr>"
    | prev k where "t = (merge_prev prev base (merge_next base (link_block prev base ?s)))\<lparr>heap_size := k\<rparr>"
    using assms(2) by (auto simp: add_region_def Let_def split: if_splits option.splits)
  then show ?thesis by cases (simp_all add: Ps list_operations small_steps)
qed

lemma grown_pages:
  assumes "P s" and "heap_grow_pages n s = Done ok t"
  shows "P t"
proof (cases "n = 0")
  case True
  then show ?thesis using assms by (simp add: heap_grow_pages_def)
next
  case False
  then obtain r u where u: "map_heap_pages (heap_start s + heap_size s) [0..<unat n] s = Done r u"
    and cont: "(if r then add_region (heap_start s + heap_size s) (n * PAGE_SIZE) u else Done False u) = Done ok t"
    using assms(2) by (auto simp: heap_grow_pages_def Let_def bindO_Done_iff)
  note Pu = mapped_heap_pages [OF assms(1) u]
  show ?thesis using cont Pu added_region [OF Pu] by (cases r) auto
qed

lemma grown_heap:
  assumes "P s" and "grow_for_alloc s = Done ok t"
  shows "P t"
proof -
  obtain r u where u: "heap_grow_pages 16 s = Done r u"
    and cont: "(if r then Done True u else heap_grow_pages 1 u) = Done ok t"
    using assms(2) by (auto simp: grow_for_alloc_def bindO_Done_iff)
  note Pu = grown_pages [OF assms(1) u]
  show ?thesis using cont Pu grown_pages [OF Pu, of 1 ok t] by (cases r) simp_all
qed

lemma taken_block: "P s \<Longrightarrow> take_block prev cur want s = (p, t) \<Longrightarrow> P t"
  by (auto simp: take_block_def Let_def intro!: small_steps list_operations)

lemma searched: "P s \<Longrightarrow> kmalloc_search sz want s = Done p t \<Longrightarrow> P t"
proof (induction sz want s rule: kmalloc_search.induct)
  case (1 sz want s)
  consider (hang) "find_fit (mem s) 0 (free_list_head s) want = None"
    | (fit) prev cur where "find_fit (mem s) 0 (free_list_head s) want = Some (Some (prev, cur))"
    | (full) "find_fit (mem s) 0 (free_list_head s) want = Some None"
    by (metis option.exhaust prod.exhaust)
  then show ?case
  proof cases
    case hang
    then show ?thesis using "1.prems"(2) by (simp add: kmalloc_search.simps [of sz want s])
  next
    case fit
    then have "take_block prev cur want s = (p, t)"
      using "1.prems"(2) by (auto simp: kmalloc_search.simps [of sz want s] split: prod.splits)
    with "1.prems"(1) show ?thesis by (rule taken_block)
  next
    case full
    then obtain r u where u: "grow_for_alloc s = Done r u" and cont: "(if r then kmalloc_search sz want u
        else bindO (heap_dump (k_err ''kmalloc: Out of heap memory (requested %lx bytes)'' [Num sz] u))
          (\<lambda>_ s. Done 0 s)) = Done p t"
      using "1.prems"(2) by (auto simp: kmalloc_search.simps [of sz want s] bindO_Done_iff)
    have Pu: "P u" by (rule grown_heap [OF "1.prems"(1) u])
    show ?thesis
    proof (cases r)
      case True
      show ?thesis by (rule "1.IH" [OF full refl u True Pu]) (use cont True in simp)
    next
      case False
      then show ?thesis using cont Pu by (auto simp: heap_dump_def intro: small_steps split: option.splits)
    qed
  qed
qed

lemma allocated_block: "P s \<Longrightarrow> kmalloc sz s = Done p t \<Longrightarrow> P t"
  by (auto simp: kmalloc_def Let_def split: if_splits dest: searched)

lemma iso8601_text: "P s \<Longrightarrow> ms_to_iso8601 ms buf n s = Done u t \<Longrightarrow> P t"
  by (auto simp: ms_to_iso8601_def snprintf_def vsnprintf_def bindO_Done_iff Let_def memory
      split: option.splits if_splits)

lemma memory_map:
  assumes "P s" and "serial_print_mem_map s = Done () t"
  shows "P t"
proof -
  obtain es s' where es: "get_memmap s = Done es s'" and "for_each (zip [0..<length es] es) (\<lambda>(i, e) s.
      bindO (memmap_type_string (me_type e) s) (\<lambda>str s.
        Done () (emit (SerialPrintf (''Segment %d: Type: %s. Base: %p. Length: %p. Free: %s.'' @ [CHR 0x0A])
          [Num (of_nat i), Str str, Num (me_base e), Num (me_length e),
           Str (if is_memory_free (ucast (me_type e)) then ''True'' else ''False'')]) s))) s' = Done () t"
    using assms(2) unfolding serial_print_mem_map_def by (rule bindO_DoneE)
  moreover have "s' = s" using es by (auto simp: get_memmap_def split: option.splits)
  ultimately have "for_each (zip [0..<length es] es) (\<lambda>(i, e) s.
      bindO (memmap_type_string (me_type e) s) (\<lambda>str s.
        Done () (emit (SerialPrintf (''Segment %d: Type: %s. Base: %p. Length: %p. Free: %s.'' @ [CHR 0x0A])
          [Num (of_nat i), Str str, Num (me_base e), Num (me_length e),
           Str (if is_memory_free (ucast (me_type e)) then ''True'' else ''False'')]) s))) s = Done () t"
    by simp
  then show ?thesis
    by (rule for_each_invariant [where I = P])
      (use assms(1) in \<open>auto simp: memmap_type_string_def bindO_Done_iff intro: small_steps split: if_splits\<close>)
qed

end


section \<open>Operations that print, wait and touch devices\<close>

lemma outcome_text:
  assumes "send_text put fmt args s = Done r t" and "P s"
    and "\<And>c s t. P s \<Longrightarrow> put c s = Done () t \<Longrightarrow> P t"
  shows "P t"
proof -
  obtain cs where "for_each (map of_char cs) put s = Done () t"
    using assms(1) by (auto simp: send_text_def bindO_Done_iff split: option.splits)
  then show ?thesis by (rule for_each_invariant [where I = P]) (use assms(2,3) in blast)+
qed

lemma shown_Done:
  assumes "shown op s = Done a t"
  obtains b u where "op (s\<lparr>klog := []\<rparr>) = Done b u" and "b = a" and "put_events (klog u) (u\<lparr>klog := klog s\<rparr>) = Done () t"
proof (cases "op (s\<lparr>klog := []\<rparr>)")
  case (Done b u)
  then show thesis using assms that [of b u] by (auto simp: shown_def bindO_Done_iff)
next
  case (Stop r u)
  have "run_panic msg v \<noteq> Done a t" for msg v
    by (auto simp: run_panic_def hcf_def bindO_Done_iff Let_def split: if_splits)
  then show thesis using assms Stop by (cases r) (auto simp: shown_def bindO_Done_iff)
qed

locale service_keeps = allocation_keeps P for P :: "'z shell_scheme \<Rightarrow> bool" +
  assumes moved: "P s \<Longrightarrow> console_moved s t \<Longrightarrow> P t"
    and coloured: "P s \<Longrightarrow> P (s\<lparr>on_colour := c\<rparr>)"
    and pit_ticked: "P s \<Longrightarrow> P (s\<lparr>pit_ticks := n\<rparr>)"
    and apic_ticked: "P s \<Longrightarrow> P (s\<lparr>apic_ticks := n\<rparr>)"
    and masked: "P s \<Longrightarrow> P (s\<lparr>timer_irqs := q\<rparr>)"
begin

lemma accessed: "P s \<Longrightarrow> accessed s t \<Longrightarrow> P t"
  using moved console_moved_accessed by blast

lemma access: "P s \<Longrightarrow> P (access e s)"
  using accessed accessed_access by blast

lemma text_colour: "P s \<Longrightarrow> P (set_text_colour c s)"
  by (simp add: set_text_colour_def coloured)

lemma console_string: "P s \<Longrightarrow> k_puts txt s = Done () t \<Longrightarrow> P t"
  using moved k_puts_moved by blast

lemma console_text: "P s \<Longrightarrow> vprintf fmt args s = Done r t \<Longrightarrow> P t"
  unfolding vprintf_def by (erule outcome_text [where P = P, rotated]) (auto simp: putchar_def intro: moved k_putc_moved)

lemma console_print: "P s \<Longrightarrow> printf fmt args s = Done r t \<Longrightarrow> P t"
  using console_text [of s fmt args r t] by (simp add: printf_def vprintf_def)

lemma serial_text: "P s \<Longrightarrow> serial_printf fmt args s = Done r t \<Longrightarrow> P t"
  unfolding serial_printf_def by (erule outcome_text [where P = P, rotated]) (auto intro: moved serial_writeb_moved)

lemma serial_string: "P s \<Longrightarrow> serial_write_string txt s = Done () t \<Longrightarrow> P t"
proof -
  assume P: "P s" and run: "serial_write_string txt s = Done () t"
  have "puts_loop serial_writeb_blocking txt 0 s = Some (Done () t)"
    using run by (simp add: serial_write_string_def ended_def split: option.splits)
  then have "accessed s t"
    by (rule puts_loop_keeps) (blast intro: accessed_refl accessed_trans serial_writeb_accessed)+
  with P show "P t" by (rule accessed)
qed

lemma tagged_text: "P s \<Longrightarrow> tagged_line colour tag after fmt args s = Done () t \<Longrightarrow> P t"
  by (auto simp: tagged_line_def crlf_def bindO_Done_iff intro!: text_colour
      elim!: console_string [rotated] console_text [rotated])

lemma logged_text: "P s \<Longrightarrow> put_log fmt args s = Done () t \<Longrightarrow> P t"
  by (auto simp: put_log_def crlf_def bindO_Done_iff intro!: text_colour
      elim!: console_string [rotated] console_text [rotated])

lemma waited_ticks: "P s \<Longrightarrow> wait_ticks ticks len start stop s = Some t \<Longrightarrow> P t"
proof -
  assume P: "P s" and "wait_ticks ticks len start stop s = Some t"
  then obtain n p a where t: "t = s\<lparr>io := io s @ replicate n Hlt, pit_ticks := p, apic_ticks := a\<rparr>"
    using wait_ticks_frame by blast
  have "accessed s (s\<lparr>io := io s @ replicate n Hlt\<rparr>)" unfolding accessed_def by blast
  with P have "P (s\<lparr>io := io s @ replicate n Hlt\<rparr>)" by (rule accessed)
  then show "P t" unfolding t by (intro apic_ticked pit_ticked)
qed

lemma slept:
  "P s \<Longrightarrow> apic_sleep_ms ms s = Done () t \<Longrightarrow> P t" "P s \<Longrightarrow> pit_sleep_ms ms s = Done () t \<Longrightarrow> P t"
  by (auto simp: apic_sleep_ms_def pit_sleep_ms_def finished_def Let_def set_pit_frequency_def outb_def bindO_Done_iff
      split: option.splits if_splits elim!: waited_ticks [rotated] intro!: access)

lemma sounds:
  "P s \<Longrightarrow> play_sound f s = Done () t \<Longrightarrow> P t" "P s \<Longrightarrow> sound_off s = Done () t \<Longrightarrow> P t"
  by (auto simp: play_sound_def sound_off_def set_speaker_frequency_def inb_def outb_def Let_def bindO_Done_iff
      split: if_splits intro!: access)

lemma failed_test: "P s \<Longrightarrow> put_test_fail fmt args s = Done () t \<Longrightarrow> P t"
  unfolding put_test_fail_def
  by (elim bindO_DoneE) (auto split: if_splits elim!: bindO_DoneE slept [rotated] sounds [rotated] tagged_text [rotated])

lemma event: "P s \<Longrightarrow> show_event e s = Done () t \<Longrightarrow> P t"
  by (cases "(e, s)" rule: show_event.cases)
    (auto simp: put_ok_def put_wrn_def put_err_def put_todo_def put_test_pass_def bindO_Done_iff
      intro: tagged_text logged_text failed_test serial_text console_print)

lemma events: "P s \<Longrightarrow> put_events es s = Done () t \<Longrightarrow> P t"
  unfolding put_events_def by (erule for_each_invariant [where I = P, rotated]) (auto intro: event)

lemma shown_operation:
  assumes "P s" and "shown op s = Done a t"
    and "\<And>s a t. P s \<Longrightarrow> op s = Done a t \<Longrightarrow> P t"
  shows "P t"
proof -
  obtain b u where u: "op (s\<lparr>klog := []\<rparr>) = Done b u" and put: "put_events (klog u) (u\<lparr>klog := klog s\<rparr>) = Done () t"
    using shown_Done [OF assms(2)] by metis
  have "P u" using assms(3) [OF messages [OF assms(1)] u] .
  then show ?thesis using put messages events by blast
qed

text \<open>The reports of the exceptions and the commands of the shell.\<close>

lemma report:
  assumes "P s" and "print_lines ls s = Done () t"
  shows "P t"
  using assms(2) unfolding print_lines_def
  by (rule for_each_invariant [where I = P]) (use assms(1) in \<open>auto simp: bindO_Done_iff intro: console_print\<close>)

lemma fault_report: "P s \<Longrightarrow> unimplemented_fault msg c s = Done () t \<Longrightarrow> P t"
  by (auto simp: unimplemented_fault_def print_cpu_status_interrupt_def bindO_Done_iff
      elim!: logged_text [rotated] report [rotated])

lemma abort_report: "unimplemented_abort msg c s = Done () t \<Longrightarrow> False"
  by (auto simp: unimplemented_abort_def run_panic_def hcf_def bindO_Done_iff Let_def split: if_splits)

lemma registers_text:
  assumes "P s" and "print_cpu_status c s = Done () t"
  shows "P t"
  using assms(2) unfolding print_cpu_status_def
  by (rule for_each_invariant [where I = P]) (use assms(1) in \<open>auto simp: bindO_Done_iff intro: serial_text\<close>)

lemma clock_register: "P s \<Longrightarrow> read_cmos_reg r s = Done v t \<Longrightarrow> P t"
  by (auto simp: read_cmos_reg_def sel_cmos_reg_def inb_def outb_def Let_def bindO_Done_iff
      intro!: access elim!: slept(1) [rotated])

lemma clock_text: "P s \<Longrightarrow> cmos_text r s = Done v t \<Longrightarrow> P t"
  by (auto simp: cmos_text_def snprintf_local_def bindO_Done_iff split: option.splits if_splits intro: clock_register)

lemma century: "P s \<Longrightarrow> read_century s = Done v t \<Longrightarrow> P t"
  by (auto simp: read_century_def Let_def bindO_Done_iff split: if_splits intro: clock_register small_steps)

lemma clock_read: "P s \<Longrightarrow> get_unix_timestamp s = Done v t \<Longrightarrow> P t"
  unfolding get_unix_timestamp_def
  by (elim bindO_DoneE) (auto simp: snprintf_local_def split: option.splits if_splits
      elim!: clock_register [rotated] clock_text [rotated] century [rotated])

lemma formatted_time: "P s \<Longrightarrow> get_formatted_time s = Done v t \<Longrightarrow> P t"
  unfolding get_formatted_time_def
  by (elim bindO_DoneE) (auto elim!: allocated_block [rotated] clock_read [rotated] iso8601_text [rotated])

lemma time_command:
  assumes "P s" and "print_time s = Done () t"
  shows "P t"
proof -
  obtain buf u str r where u: "shown get_formatted_time s = Done buf u"
    and print: "serial_printf ''%s'' [Str str] u = Done r t"
    using assms(2) by (auto simp: print_time_def bindO_Done_iff split: option.splits)
  have "P u" using shown_operation [OF assms(1) u] formatted_time by blast
  then show ?thesis using print by (rule serial_text)
qed

lemma memmap_command: "P s \<Longrightarrow> shown serial_print_mem_map s = Done () t \<Longrightarrow> P t"
  by (erule shown_operation) (auto intro: memory_map)

lemma command: "P s \<Longrightarrow> run_command c s = Done () t \<Longrightarrow> P t"
  by (auto simp: run_command_def serial_print_free_ram_def Let_def bindO_Done_iff split: if_splits
      intro: memmap_command moved [OF _ clear_moved] serial_text time_command registers_text)

lemma served_interrupt:
  assumes "P s" and "serve_interrupt c s = Done () t"
    and "\<And>u. P (interrupts_off s) \<Longrightarrow> exception_handler c (interrupts_off s) = Done () u \<Longrightarrow> P u"
  shows "P t"
  using assms by (auto simp: serve_interrupt_def interrupts_off_def intro: masked split: outcome.splits)

text \<open>Every interrupt but the serial line's.\<close>

lemma other_interrupt:
  assumes "P s" and "exception_handler c s = Done () t" and "cs_vector c \<noteq> 0x24"
  shows "P t"
proof -
  let ?s = "acknowledge (cs_vector c) s"
  have Ps: "P ?s" using assms(1) by (simp add: acknowledge_access access)
  have run: "run_case (map_of vector_cases (cs_vector c)) c ?s = Done () t"
    using assms(2) by (simp add: exception_handler_def)
  have "map_of vector_cases (cs_vector c) \<noteq> Some Serial_case"
    using assms(3) by (auto simp: vector_cases_def dest!: map_of_SomeD)
  then show ?thesis
    using run Ps
    by (cases "(map_of vector_cases (cs_vector c), c, ?s)" rule: run_case.cases)
      (auto simp: hcf_def bindO_Done_iff unimplemented_trap_def pit_irq_def apic_timer_irq_def
        print_cpu_status_interrupt_def pit_ticked apic_ticked dest: abort_report
        elim!: fault_report [rotated] report [rotated] logged_text [rotated])
qed

lemma other_served:
  assumes "P s" and "serve_interrupt c s = Done () t" and "cs_vector c \<noteq> 0x24"
  shows "P t"
  by (rule served_interrupt [OF assms(1,2)]) (rule other_interrupt [OF _ _ assms(3)])

end

text \<open>
  A predicate that does not depend on the line of the shell either, or only on the length of its
  buffer, is kept by every interrupt.
\<close>

locale interrupt_keeps = service_keeps P for P :: "'z shell_scheme \<Rightarrow> bool" +
  assumes line: "P s \<Longrightarrow> (length (line_buffer s) = LINE_BUFFER_SIZE \<Longrightarrow> length lb = LINE_BUFFER_SIZE) \<Longrightarrow>
      P (s\<lparr>line_buffer := lb\<rparr>)"
    and index: "P s \<Longrightarrow> P (s\<lparr>buffer_index := i\<rparr>)"
    and started: "P s \<Longrightarrow> P (s\<lparr>terminal_running := r\<rparr>)"
begin

lemma line_end: "P s \<Longrightarrow> newline s = Done () t \<Longrightarrow> P t"
proof -
  assume P: "P s" and run: "newline s = Done () t"
  let ?n = "unat (buffer_index s)"
  let ?s = "s\<lparr>line_buffer := replicate ?n 0 @ drop ?n (line_buffer s)\<rparr>"
  have "?n < 256" using unsigned_less [of "buffer_index s", where ?'a = nat] by simp
  then have "P ?s" by (intro line P) (simp add: LINE_BUFFER_SIZE_def)
  then have "P (?s\<lparr>buffer_index := 0\<rparr>)" by (rule index)
  then show "P t"
    using run by (auto simp: newline_def Let_def bindO_Done_iff intro!: started elim!: serial_string [rotated])
qed

lemma io_extended:
  assumes "P s"
  shows "P (s\<lparr>io := io s @ tr\<rparr>)"
proof (rule accessed [OF assms])
  show "accessed s (s\<lparr>io := io s @ tr\<rparr>)" unfolding accessed_def by blast
qed

lemma written: "P s \<Longrightarrow> P (serial_writeb_unsafe_nonblocking key s)"
  unfolding echo_written by (rule io_extended)

lemma serial_interrupt: "P s \<Longrightarrow> rs232_irq c s = Done () t \<Longrightarrow> P t"
proof -
  assume P: "P s" and run: "rs232_irq c s = Done () t"
  note Pu = io_extended [OF P, of "[PortIn COM1 k]" for k]
  show "P t"
    using run
    by (auto simp: rs232_irq_def key_read set_line_char_def Let_def bindO_Done_iff split: if_splits
        intro!: line index written Pu elim!: line_end [rotated] command [rotated])
qed

lemma every_interrupt:
  assumes "P s" and "exception_handler c s = Done () t"
  shows "P t"
proof (cases "cs_vector c = 0x24")
  case True
  then have "rs232_irq c (acknowledge 0x24 s) = Done () t"
    using assms(2) by (simp add: exception_handler_def vector_cases_def)
  moreover have "P (acknowledge 0x24 s)" using assms(1) by (simp add: acknowledge_access access)
  ultimately show ?thesis using serial_interrupt by blast
next
  case False
  with assms show ?thesis using other_interrupt by blast
qed

lemma every_served: "P s \<Longrightarrow> serve_interrupt c s = Done () t \<Longrightarrow> P t"
  by (erule (1) served_interrupt) (rule every_interrupt)

end

section \<open>Runs\<close>

text \<open>A sequence of interrupts that return, with the keys the serial line delivered in it.\<close>

inductive kernel_run :: "'z shell_scheme \<Rightarrow> 'z shell_scheme \<Rightarrow> u8 list \<Rightarrow> bool" for s0 where
  boot: "kernel_run s0 s0 []"
| other: "kernel_run s0 s keys \<Longrightarrow> cs_vector c \<noteq> 0x24 \<Longrightarrow> serve_interrupt c s = Done () t \<Longrightarrow> kernel_run s0 t keys"
| key: "kernel_run s0 s keys \<Longrightarrow> cs_vector c = 0x24 \<Longrightarrow> serve_interrupt c s = Done () t \<Longrightarrow>
    kernel_run s0 t (keys @ [port_value s (io s @ [PortOut 0x20 0x20]) COM1])"

context interrupt_keeps begin

lemma every_run: "kernel_run s0 t keys \<Longrightarrow> P s0 \<Longrightarrow> P t"
  by (induction rule: kernel_run.induct) (auto intro: every_served)

end

section \<open>The invariants\<close>

text \<open>Page accounting, the cursor, and everything above the console.\<close>

interpretation accounts: interrupt_keeps "page_account d n" for d n
proof
  show "page_account d n t" if "page_account d n s" "pp_alloc s = Done p t" for s t :: "'a shell_scheme" and p
    using that by (rule pp_alloc_keeps.op_keeps)
  show "page_account d n t" if "page_account d n s" "console_moved s t" for s t :: "'a shell_scheme"
    using that by (auto simp: page_account_def pages_in_use_def console_moved_def)
qed (auto simp: page_account_def pages_in_use_def)

interpretation cursor: interrupt_keeps cursor_ok
proof
  show "cursor_ok t" if "cursor_ok s" "pp_alloc s = Done p t" for s t :: "'a shell_scheme" and p
    using that pp_alloc_more [OF that(2)] by (cases s; cases t) (simp add: cursor_ok_def)
  show "cursor_ok t" if "cursor_ok s" "console_moved s t" for s t :: "'a shell_scheme"
    using that by (simp add: console_moved_def)
qed (simp_all add: cursor_ok_def)

interpretation above: service_keeps "\<lambda>t. console.more t = m" for m
proof
  show "console.more t = m" if "console.more s = m" "pp_alloc s = Done p t" for s t :: "'a shell_scheme" and p
    using that pp_alloc_more [OF that(2)] by (cases s; cases t) simp
  show "console.more t = m" if "console.more s = m" "console_moved s t" for s t :: "'a shell_scheme"
    using that by (auto simp: console_moved_def)
qed simp_all

interpretation tables: interrupt_keeps "\<lambda>t. (gdt t, tss t, idt t, cpu_loads t, panics t) = x" for x
proof
  show "(gdt t, tss t, idt t, cpu_loads t, panics t) = x"
    if "(gdt s, tss s, idt s, cpu_loads s, panics s) = x" "pp_alloc s = Done p t" for s t :: "'a shell_scheme" and p
    using that pp_alloc_more [OF that(2)] by (cases s; cases t) simp
  show "(gdt t, tss t, idt t, cpu_loads t, panics t) = x"
    if "(gdt s, tss s, idt s, cpu_loads s, panics s) = x" "console_moved s t" for s t :: "'a shell_scheme"
    using that by (auto simp: console_moved_def)
qed simp_all

interpretation buffer: interrupt_keeps "\<lambda>t. length (line_buffer t) = LINE_BUFFER_SIZE"
proof
  show "length (line_buffer t) = LINE_BUFFER_SIZE"
    if "length (line_buffer s) = LINE_BUFFER_SIZE" "pp_alloc s = Done p t" for s t :: "'a shell_scheme" and p
    using that pp_alloc_more [OF that(2)] by (cases s; cases t) simp
  show "length (line_buffer t) = LINE_BUFFER_SIZE"
    if "length (line_buffer s) = LINE_BUFFER_SIZE" "console_moved s t" for s t :: "'a shell_scheme"
    using that by (auto simp: console_moved_def)
qed simp_all

section \<open>The shell in a run\<close>

lemma edit_keeps:
  assumes "0x0D \<notin> set (snd e)" and "\<not> fst e \<longrightarrow> snd e = []"
  shows "0x0D \<notin> set (snd (fst (edit k e)))" and "\<not> fst (fst (edit k e)) \<longrightarrow> snd (fst (edit k e)) = []"
  using assms by (cases e; auto dest: in_set_butlastD)+

lemma shell_ok_editor:
  assumes "length (line_buffer s) = LINE_BUFFER_SIZE"
  shows "shell_ok s \<longleftrightarrow> 0x0D \<notin> set (snd (editor_of s)) \<and> (\<not> fst (editor_of s) \<longrightarrow> snd (editor_of s) = [])"
proof -
  have "line_buffer s \<noteq> []" using assms by (auto simp: LINE_BUFFER_SIZE_def)
  then show ?thesis using assms by (auto simp: shell_ok_def editor_of_def unat_eq_zero)
qed

lemma same_shell:
  assumes "console.more t = console.more s"
  shows "shell_ok t = shell_ok s" and "editor_of t = editor_of s"
  using assms by (cases s; cases t; simp add: shell_ok_def editor_of_def)+

lemma served_serial:
  assumes "cs_vector c = 0x24" and "serve_interrupt c s = Done () t"
  obtains u where "rs232_irq c (access (PortOut 0x20 0x20) (interrupts_off s)) = Done () u"
    and "t = u\<lparr>timer_irqs := timer_irqs s\<rparr>"
  using assms by (auto simp: serve_interrupt_def exception_handler_def vector_cases_def acknowledge_access eoi_access_def
      split: outcome.splits)

lemma serial_served:
  assumes "shell_ok s" and "cs_vector c = 0x24" and "serve_interrupt c s = Done () t"
  shows "shell_ok t \<and> editor_of t = fst (edit (port_value s (io s @ [PortOut 0x20 0x20]) COM1) (editor_of s))"
proof -
  let ?s = "access (PortOut 0x20 0x20) (interrupts_off s)"
  obtain u where u: "rs232_irq c ?s = Done () u" and t: "t = u\<lparr>timer_irqs := timer_irqs s\<rparr>"
    using served_serial [OF assms(2,3)] by blast
  have s: "shell_ok ?s" "editor_of ?s = editor_of s" "port_value ?s (io ?s) = port_value s (io s @ [PortOut 0x20 0x20])"
    using assms(1) by (simp_all add: shell_ok_def editor_of_def access_def interrupts_off_def)
  have e: "editor_of u = fst (edit (port_value s (io s @ [PortOut 0x20 0x20]) COM1) (editor_of s))"
    using interrupt_edits_line [OF s(1) u] s(2,3) by simp
  have size: "length (line_buffer s) = LINE_BUFFER_SIZE" "length (line_buffer u) = LINE_BUFFER_SIZE"
    using assms(1) buffer.serial_interrupt [OF _ u] s(1) by (simp_all add: shell_ok_def)
  then have "0x0D \<notin> set (snd (editor_of s))" "\<not> fst (editor_of s) \<longrightarrow> snd (editor_of s) = []"
    using assms(1) shell_ok_editor by blast+
  then have "shell_ok u" unfolding shell_ok_editor [OF size(2)] e using edit_keeps by blast
  moreover have "shell_ok t = shell_ok u" "editor_of t = editor_of u" by (simp_all add: t shell_ok_def editor_of_def)
  ultimately show ?thesis using e by simp
qed

lemma run_edits_line:
  assumes "kernel_run s0 t keys" and "shell_ok s0"
  shows "shell_ok t \<and> editor_of t = fold (\<lambda>key e. fst (edit key e)) keys (editor_of s0)"
  using assms
proof (induction rule: kernel_run.induct)
  case (other s keys c t)
  then have "console.more t = console.more s" using above.other_served [OF refl] by blast
  then show ?case using other.IH other.prems same_shell by metis
next
  case (key s keys c t)
  then show ?case using serial_served [OF _ key.hyps(2,3)] key.IH key.prems by auto
qed simp

text \<open>
  C14. The running kernel. After any sequence of interrupts that have been served, of any vectors
  and with any commands typed in between, the line of the shell is what the line editor makes of
  the keys that arrived, and its buffer is well formed; the counts of used and free pages still
  agree with the bitmap, whatever the commands have allocated; the cursor is on the screen; and the
  descriptor tables, the loads of them and the count of the panics have not changed.
\<close>

theorem kernel_run_keeps:
  assumes "kernel_run s0 t keys"
    and "shell_ok s0" and "page_account d n s0" and "cursor_ok s0"
  shows "shell_ok t \<and> editor_of t = fold (\<lambda>key e. fst (edit key e)) keys (editor_of s0)
    \<and> page_account d n t \<and> cursor_ok t
    \<and> (gdt t, tss t, idt t, cpu_loads t, panics t) = (gdt s0, tss s0, idt s0, cpu_loads s0, panics s0)"
  using run_edits_line [OF assms(1,2)] accounts.every_run [OF assms(1,3)] cursor.every_run [OF assms(1,4)]
    tables.every_run [OF assms(1) refl] by blast

section \<open>The time command\<close>

text \<open>
  The allocator does not touch the timers; the clock is read after a wait of ten ticks of the APIC
  timer, which do not come.
\<close>

interpretation timers: allocation_keeps "\<lambda>t :: 'a acpi_scheme. (apic_ticks t, timer_irqs t) = x" for x
proof
  show "(apic_ticks t, timer_irqs t) = x"
    if "(apic_ticks s, timer_irqs s) = x" "pp_alloc s = Done p t" for s t :: "'a acpi_scheme" and p
    using that pp_alloc_more [OF that(2)] by (cases s; cases t) simp
qed simp_all

lemma clock_stuck:
  assumes "ticks_stopped s" and "unat (apic_ticks s) + 10 < 2 ^ 64"
  shows "read_cmos_reg r s = Stop Hang (sel_cmos_reg r s)"
proof -
  have "ticks_stopped (sel_cmos_reg r s)" "apic_ticks (sel_cmos_reg r s) = apic_ticks s"
    using assms(1) by (simp_all add: ticks_stopped_def sel_cmos_reg_def outb_def access_def)
  then show ?thesis using apic_sleep_stuck [of "sel_cmos_reg r s" 10] assms(2)
    by (simp add: read_cmos_reg_def CMOS_UPDATE_TIME_def)
qed

lemma time_stuck:
  assumes "ticks_stopped s" and "unat (apic_ticks s) + 10 < 2 ^ 64"
  shows "get_formatted_time s \<noteq> Done a t"
proof
  assume "get_formatted_time s = Done a t"
  then obtain buf u stamp v where u: "kmalloc 25 s = Done buf u" "get_unix_timestamp u = Done stamp v"
    by (auto simp: get_formatted_time_def bindO_Done_iff)
  have "(apic_ticks u, timer_irqs u) = (apic_ticks s, timer_irqs s)" by (rule timers.allocated_block [OF refl u(1)])
  then have "ticks_stopped u" "unat (apic_ticks u) + 10 < 2 ^ 64" using assms by (simp_all add: ticks_stopped_def)
  moreover from this have "ticks_stopped (k_wrn m x u)" "unat (apic_ticks (k_wrn m x u)) + 10 < 2 ^ 64" for m x
    by (simp_all add: ticks_stopped_def emit_def)
  ultimately show False
    using u(2) by (auto simp: get_unix_timestamp_def read_century_def cmos_text_def Let_def bindO_Done_iff clock_stuck
        split: if_splits)
qed

lemma time_command_stuck:
  assumes "ticks_stopped s" and "unat (apic_ticks s) + 10 < 2 ^ 64"
  shows "print_time s \<noteq> Done a t"
proof
  assume "print_time s = Done a t"
  then obtain buf u where "shown get_formatted_time s = Done buf u" by (auto simp: print_time_def bindO_Done_iff)
  then obtain b v where "get_formatted_time (s\<lparr>klog := []\<rparr>) = Done b v" by (rule shown_Done)
  moreover have "ticks_stopped (s\<lparr>klog := []\<rparr>)" "unat (apic_ticks (s\<lparr>klog := []\<rparr>)) + 10 < 2 ^ 64"
    using assms by (simp_all add: ticks_stopped_def)
  ultimately show False using time_stuck by blast
qed

text \<open>
  C15. The command \<open>time\<close> never returns: it runs inside the handler of the serial interrupt, with
  the interrupts off, and reads the clock with a sleep that only interrupts of the APIC timer end.
  Whatever the state of the heap, the screen and the clock, the interrupt that delivers the return
  key after a line that begins with \<open>time\<close> is never finished.
\<close>

theorem time_command_never_returns:
  assumes "shell_ok s" and "command_of (snd (editor_of s)) = Time_command" and "cs_vector c = 0x24"
    and "port_value s (io s @ [PortOut 0x20 0x20]) COM1 = 0x0D" and "unat (apic_ticks s) + 10 < 2 ^ 64"
  shows "serve_interrupt c s \<noteq> Done () t"
proof
  assume "serve_interrupt c s = Done () t"
  let ?s = "access (PortOut 0x20 0x20) (interrupts_off s)"
  obtain u where u: "rs232_irq c ?s = Done () u"
    using served_serial [OF assms(3) \<open>serve_interrupt c s = Done () t\<close>] by blast
  have s: "shell_ok ?s" "editor_of ?s = editor_of s" "port_value ?s (io ?s) COM1 = 0x0D"
    "ticks_stopped ?s" "apic_ticks ?s = apic_ticks s"
    using assms(1,4) by (simp_all add: shell_ok_def editor_of_def access_def interrupts_off_def ticks_stopped_def)
  then have e: "edit (port_value ?s (io ?s) COM1) (editor_of ?s) = ((True, []), Submitted (snd (editor_of s)))"
    by (cases "editor_of s") simp
  have inside: "unat (buffer_index ?s) < LINE_BUFFER_SIZE" using key_outside [OF u e _ s(1)] by simp
  obtain lb i where run: "rs232_irq c ?s = bindO (print_time
      (?s\<lparr>io := io ?s @ PortIn COM1 (port_value ?s (io ?s) COM1) # echo 0x0D, line_buffer := lb, buffer_index := i\<rparr>))
      (\<lambda>_ s. newline s)" (is "_ = bindO (print_time ?u) _")
    using key_submitted [OF s(1) inside e, of c] assms(2) by auto
  obtain a w where "print_time ?u = Done a w" using trans [OF sym [OF run] u] by (rule bindO_DoneE)
  moreover have "ticks_stopped ?u" "unat (apic_ticks ?u) + 10 < 2 ^ 64"
    using s(4,5) assms(5) by (simp_all add: ticks_stopped_def)
  ultimately show False using time_command_stuck by blast
qed

section \<open>Examples\<close>

text \<open>A key and then a divide error on the example machine.\<close>

theorem kernel_run_keeps_witness:
  "\<exists>t. kernel_run example_shell t [0x72] \<and> editor_of t = (True, [0x72]) \<and> cursor_ok t"
proof -
  let ?c = "example_status" and ?s = "access (PortOut 0x20 0x20) (interrupts_off example_shell)"
  have ok: "shell_ok ?s" "terminal_running ?s" "editor_of ?s = (True, [])"
    using example_shell_ok by (simp_all add: shell_ok_def editor_of_def access_def interrupts_off_def example_shell_fields)
  have arrives: "keys_arrive (0x72 # tl example_keys @ [0x0D]) ?s"
    by (simp add: keys_arrive_def access_def interrupts_off_def example_shell_fields key_reads_def example_keys_def)
  obtain u where "rs232_irq ?c ?s = Done () u"
    using one_key [OF ok(1,2) arrives, of ?c] ok(3) by (auto simp: LINE_BUFFER_SIZE_def)
  then have "serve_interrupt ?c example_shell = Done () (u\<lparr>timer_irqs := timer_irqs example_shell\<rparr>)"
    by (simp add: serve_interrupt_def exception_handler_def vector_cases_def acknowledge_access eoi_access_def
        example_status_def)
  moreover have "port_value example_shell (io example_shell @ [PortOut 0x20 0x20]) COM1 = 0x72"
    by (simp add: example_shell_fields key_reads_def example_keys_def)
  ultimately obtain t where run: "kernel_run example_shell t [0x72]"
    using kernel_run.key [OF kernel_run.boot, of ?c example_shell] by (auto simp: example_status_def)
  define d where "d = used_pages example_shell - of_nat (card (pages_in_use example_shell))"
  have "page_account d (free_pages example_shell + used_pages example_shell) example_shell"
    by (simp add: page_account_def d_def)
  moreover have "cursor_ok example_shell"
    by (simp add: cursor_ok_def example_shell_def example_descriptors_def example_logger_def logger.defs descriptors.defs
        shell.defs console.defs)
  ultimately have "editor_of t = fold (\<lambda>key e. fst (edit key e)) [0x72] (editor_of example_shell)" "cursor_ok t"
    using kernel_run_keeps [OF run example_shell_ok(1)] by blast+
  then show ?thesis using run example_shell_ok(2) by auto
qed

text \<open>The line \<open>time\<close> and the return key.\<close>

theorem time_command_never_returns_witness:
  "\<forall>t. serve_interrupt example_status
     (example_shell\<lparr>port_value := (\<lambda>_ _. 0x0D), line_buffer := [0x74, 0x69, 0x6d, 0x65] @ replicate 251 0, buffer_index := 4\<rparr>)
     \<noteq> Done () t" (is "\<forall>t. serve_interrupt _ ?s \<noteq> _")
proof
  fix t
  have line: "editor_of ?s = (True, [0x74, 0x69, 0x6d, 0x65])" by (simp add: editor_of_def example_shell_fields)
  have ticks: "apic_ticks example_shell = 0"
    by (simp add: example_shell_def example_descriptors_def example_logger_def logger.defs descriptors.defs shell.defs
        console.defs)
  show "serve_interrupt example_status ?s \<noteq> Done () t"
  proof (rule time_command_never_returns)
    show "shell_ok ?s" unfolding shell_ok_def line by (simp add: LINE_BUFFER_SIZE_def example_shell_fields)
    show "command_of (snd (editor_of ?s)) = Time_command" unfolding line by (simp add: command_of_def starts_def)
    show "unat (apic_ticks ?s) + 10 < 2 ^ 64" using ticks by simp
  qed (simp_all add: example_status_def)
qed

end
