(* ===== verification/Spec2Isabelle.thy ===== *)
theory Spec2Isabelle
  imports Mem_Ops Heap_Runs Mersenne_Twister Printf Calendar Io_Apic Rtc Boot_Order Kernel_Run
begin

text \<open>
  \<^bold>\<open>adaOS, a kernel for x86-64.\<close> This library models the C code of the kernel, under
  \<open>kernel/src\<close>, and proves what its components promise. The definitions keep the names of the C
  functions; a definition that stands for one loop or one branch of a function follows it directly.

  \<^bold>\<open>The program.\<close> The boot loader enters \<open>kmain\<close> (\<open>core.c\<close>). It finds the frame buffer, seeds the
  random numbers with the boot time, shows a banner with a random logo, loads the descriptor
  tables, sets up the interrupt controller, the serial line and the interval timer, then the page
  frames, the page tables and the heap, then the local APIC, the ACPI tables and the IO APICs, and
  halts. From then on only interrupts run: the timers count, and the keys that arrive on the
  serial line drive a debug shell.

  \<^bold>\<open>The state.\<close> The state is one record that grows with the components, in the order in which they
  use one another; the operations are polymorphic in the part that later components add:
  \<open>machine\<close> (memory, responses of the boot loader, messages; \<open>Memmap\<close>), \<open>pmm\<close> (page frames; \<open>PMM\<close>),
  \<open>vmm\<close> (page tables, TLB; \<open>VMM\<close>), \<open>heap\<close> (\<open>Heap\<close>), \<open>devices\<close> (ports, registers, ticks; \<open>Hardware\<close>),
  \<open>lapic\<close> (\<open>Local_Apic\<close>), \<open>acpi\<close> (\<open>Acpi\<close>), \<open>ioapic\<close> (\<open>Io_Apic\<close>), \<open>rng\<close> (\<open>Mersenne_Twister\<close>), \<open>console\<close>
  (\<open>Console\<close>), \<open>logger\<close> (\<open>Logging\<close>), \<open>descriptors\<close> (\<open>Descriptors\<close>), \<open>shell\<close> (\<open>Shell\<close>) and \<open>boot\<close>
  (\<open>Boot\<close>). Machine integers are words of their width. Memory is a function from 64-bit addresses to
  bytes; the free list of the heap, the page tables and the ACPI tables live in it as they do in
  the code. The addresses are virtual: that a page of the heap is also visible through the direct
  map, at the address of its frame, is not part of the model. Everything the devices answer is a function of the sequence \<open>io\<close> of the accesses so
  far, and the proofs hold for every such function or name the behaviour they rely on.

  \<^bold>\<open>Outcomes.\<close> An operation returns \<open>Done\<close> with its result and the new state, or \<open>Stop\<close> with the
  reason why the kernel never returns from it: a panic, the halt, a loop without end (\<open>Hang\<close>), or
  behaviour that C leaves undefined (\<open>Fault\<close>: an index out of bounds, a shift by the width or more, a division
  by zero, the null pointer).

  \<^bold>\<open>The theories.\<close>

  \<^item> \<open>Kernel_Prelude\<close>: words, outcomes, loops over index ranges, the locale \<open>keeps_invariant\<close>.
  \<^item> \<open>Mem_Ops\<close>: \<open>memcpy\<close>, \<open>memset\<close>, \<open>memmove\<close>, \<open>memcmp\<close> of \<open>core.c\<close>, \<open>util/string.c\<close>, \<open>util/bits.c\<close>,
    and little-endian loads and stores with the locale \<open>cell_store\<close>.
  \<^item> \<open>Memmap\<close>, \<open>PMM\<close>: \<open>memory/memmap.c\<close> and \<open>memory/physical/pmm.c\<close>. The bitmap and the counters
    stay in step along every sequence of operations, allocation and release are inverse, and the
    places where page indices and frames come apart are stated. \<open>Page_Frames\<close> gives the contract of an
    allocator as the locale \<open>page_source\<close> and shows that the pool meets it.
  \<^item> \<open>VMM\<close>, \<open>Paging\<close>: \<open>memory/virtual/vmm.c\<close>. Page tables are a tree of distinct frames; mapping and
    unmapping a page changes the translation of this page only.
  \<^item> \<open>Heap\<close>, \<open>Heap_Layout\<close>: \<open>memory/heap.c\<close>. A layout of the heap is an abstract list of blocks; \<open>kmalloc\<close>
    and \<open>kfree\<close> are shown to take and to give back exactly one block of it.
  \<^item> \<open>Heap_Pages\<close>, \<open>Heap_Growth\<close>, \<open>Heap_Runs\<close>: the heap together with the page tables and the page frames.
    Neither writes to the memory of the other; a growth appends pages that are mapped to fresh
    frames; from \<open>setup_heap\<close> on, through any sequence of allocations and releases, live blocks are
    apart and mapped.
  \<^item> \<open>Hardware\<close>, \<open>Timers\<close>: ports, model specific registers, \<open>pic.c\<close>, \<open>pit.c\<close> and the tick counters of
    \<open>interupt/\<close>; the locale \<open>tick_counter\<close> holds the reasoning on the two sleep loops.
  \<^item> \<open>Local_Apic\<close>, \<open>Acpi\<close>, \<open>Io_Apic\<close>: \<open>platform/x86_64/apic.c\<close>, \<open>acpi.c\<close>, \<open>ioapic.c\<close>.
  \<^item> \<open>Mersenne_Twister\<close>: \<open>crypt/random.c\<close> against the recurrence of MT19937.
  \<^item> \<open>Printf\<close>: \<open>util/printf.c\<close>, the text of a format and its arguments, and \<open>snprintf\<close>.
  \<^item> \<open>Calendar\<close>, \<open>Rtc\<close>: \<open>platform/x86_64/rtc.c\<close>, the calendar and the CMOS clock.
  \<^item> \<open>Serial\<close>, \<open>Console\<close>: \<open>driver/rs232.c\<close>, \<open>util/print_lowlevel.c\<close> and \<open>data/font.c\<close>; the locale
    \<open>text_device\<close> is the contract of a device that takes characters, met by the serial line and by the
    console.
  \<^item> \<open>Logging\<close>: the outputs of \<open>printf.c\<close>, \<open>util/log.c\<close> and \<open>util/panic.c\<close>. \<open>Ascii_Output\<close> shows
    for which calls the text is 7-bit, which is what the glyph table needs.
  \<^item> \<open>Descriptors\<close>: \<open>platform/x86_64/gdt.c\<close> and \<open>idt.c\<close>.
  \<^item> \<open>Shell\<close>, \<open>Handlers\<close>: \<open>interupt/rs232_handler.c\<close> and \<open>interupt/handler.c\<close>. The handler of the keys
    refines a line editor and a table of commands; every vector has its outcome.
  \<^item> \<open>Kernel_Run\<close>: the kernel after the boot, as a relation between the states before and after a sequence
    of interrupts. What the operations may change is stated once, in the locales \<open>allocation_keeps\<close>,
    \<open>service_keeps\<close> and \<open>interrupt_keeps\<close>; the invariants of the running kernel are their interpretations.
    The command \<open>time\<close> is shown never to return.
  \<^item> \<open>Logos\<close>, \<open>Cpuid\<close>, \<open>Boot\<close>: \<open>data/logos.c\<close>, \<open>platform/x86_64/cpuid.c\<close>, \<open>platform/x86_64/ap.c\<close>, and of
    \<open>core.c\<close> the banner and \<open>kmain\<close> with its self tests. \<open>Boot_Order\<close> runs \<open>kmain\<close> up to the set-up of the
    memory: every phase before it ends, in its order and with its flags set.

  \<^bold>\<open>Messages.\<close> \<open>k_debug\<close> is compiled to nothing and is left out of the callers. Below the console the
  other messages are events: an operation records the call in \<open>klog\<close>. Where \<open>Shell\<close> and
  \<open>Boot\<close> call such an operation, the wrapper \<open>shown\<close> prints the events it recorded, in their order,
  when it returns or stops, and a panic runs the panic path of \<open>Logging\<close> there. So the text of the messages and
  their order are those of the code, but the port accesses that show them stand behind those of the
  operation in \<open>io\<close>, not between them.

  \<^bold>\<open>Loops.\<close> A loop over memory or over the hardware is a partial function that is \<open>None\<close> when the
  loop does not end; its caller turns this into \<open>Hang\<close>. There is no fuel. The sleep loops, the waits
  for the serial line, the clock and the free list are shown to end under the conditions their
  properties state.

  \<^bold>\<open>Interrupts.\<close> They are disabled in a handler: \<open>serve_interrupt\<close> runs it with timers that do not
  tick, so a sleep inside a handler never ends. Between handlers the only effect of a timer
  interrupt the waiting code sees is the change of its tick counter, and it is modelled where the code waits for it: every \<open>hlt\<close>
  of a sleep loop is followed by as many interrupts of each timer as \<open>timer_irqs\<close> says. An interrupt
  in the middle of other code is not modelled.

  \<^bold>\<open>Not modelled.\<close> The assembly files: the loads of the tables are recorded accesses, the saved
  registers are an argument of the handler, and the instruction \<open>cpuid\<close> is a parameter. The floating point conversions of
  \<open>printf.c\<close>, which are compiled out. Of \<open>header/limine.h\<close>, a third party header, only the
  structures that the kernel reads. The scheduler, whose files are empty. Headers that only declare.
\<close>

end
